(* ===== verification/Prelude.thy ===== *)
theory Prelude
  imports Main "HOL-Library.Word" "HOL-Library.Multiset"
begin

text \<open>
  Shared vocabulary of the development: the machine types of the C++ code, runs of an
  event-driven state machine, and the two interfaces (\<open>machine\<close>, \<open>bounded_machine\<close>) that the
  stateful components are instances of.  The lemmas about words are the ones every counter of
  the library needs.
\<close>

section \<open>Machine types\<close>

type_synonym u8 = "8 word"
type_synonym c_int = "32 word"
type_synonym uint32 = "32 word"
type_synonym size_t = "64 word"
type_synonym address = "64 word"

text \<open>Pointers that are only compared and passed on are numbers; a null pointer is \<open>None\<close>.\<close>

type_synonym devh = "nat option"

named_theorems word_counter \<open>decrementing and incrementing a machine counter\<close>

lemma unat_dec [word_counter]: "(x :: 'a::len word) \<noteq> 0 \<Longrightarrow> unat (x - 1) = unat x - 1"
  by (simp add: unat_minus_one)

lemma word_neq_0_unat [word_counter]: "(x :: 'a::len word) \<noteq> 0 \<longleftrightarrow> 0 < unat x"
  by (simp add: unat_gt_0)

lemma dec_then_inc [simp]: "(x :: 'a::len word) - 1 + 1 = x"
  by simp

lemma unat_add_le_size:
  fixes x y :: "'a::len word"
  assumes "unat x + unat y < 2 ^ LENGTH('a)"
  shows "unat (x + y) = unat x + unat y"
  using assms by (simp add: unat_word_ariths)

lemma min_unat: "unat (min a b) = min (unat a) (unat b)" for a b :: "'a::len word"
  by (simp add: min_def word_le_nat_alt)

text \<open>The conversions between the 32-bit \<open>int\<close> lengths of libusb and \<open>size_t\<close> lose nothing on
  values that are in range.\<close>

lemma unat_scast_nonneg:
  fixes n :: c_int
  assumes "0 \<le> sint n"
  shows "unat (scast n :: size_t) = nat (sint n)"
proof -
  have b: "sint n < 2 ^ 31" using sint_lt [of n] by simp
  have "uint (word_of_int (sint n) :: size_t) = sint n mod 2 ^ 64"
    by (simp only: uint_word_of_int) simp
  also have "\<dots> = sint n" by (rule mod_pos_pos_trivial) (use assms b in simp_all)
  finally have "uint (scast n :: size_t) = sint n" by (simp only: scast_eq)
  then show ?thesis by (metis nat_uint_eq)
qed

lemma sint_ucast_small:
  fixes w :: "size_t"
  assumes "unat w < 2 ^ 31"
  shows "sint (ucast w :: c_int) = int (unat w)"
proof -
  have "int (unat w) < int (2 ^ 31)" using assms by (simp only: of_nat_less_iff)
  then have "uint w < 2 ^ 31" by simp
  then have "uint (ucast w :: c_int) = uint w"
    by (simp add: unsigned_ucast_eq take_bit_int_eq_self)
  then have "sint (ucast w :: c_int) = signed_take_bit 31 (uint w)"
    by (simp add: sint_uint)
  also have "\<dots> = uint w"
    using \<open>uint w < 2 ^ 31\<close> uint_ge_0 [of w] by (intro signed_take_bit_int_eq_self) linarith+
  finally show ?thesis by simp
qed

text \<open>Beyond the range of \<open>int\<close> a length comes out negative.\<close>

lemma signed_take_bit_high:
  fixes k :: int
  assumes "2 ^ 31 \<le> k" "k < 2 ^ 32"
  shows "signed_take_bit 31 k = k - 2 ^ 32"
proof -
  have "signed_take_bit 31 k = (2 ^ 31 + k) mod 2 ^ 32 - 2 ^ 31"
    by (simp add: signed_take_bit_eq_take_bit_shift take_bit_eq_mod) (subst add.commute, rule refl)
  also have "(2 ^ 31 + k) mod 2 ^ 32 = ((k - 2 ^ 31) + 2 ^ 32) mod 2 ^ 32" by simp
  also have "\<dots> = (k - 2 ^ 31) mod 2 ^ 32" by (rule mod_add_self2)
  also have "\<dots> = k - 2 ^ 31" by (rule mod_pos_pos_trivial) (use assms in simp_all)
  finally show ?thesis by simp
qed

lemma uint_ucast_low:
  fixes w :: "size_t"
  assumes "uint w < 2 ^ 32"
  shows "uint (ucast w :: c_int) = uint w"
proof -
  have "take_bit 32 (uint w) = uint w" using assms by (intro take_bit_int_eq_self) simp_all
  then show ?thesis by (simp add: unsigned_ucast_eq)
qed

lemma sint_ucast_high:
  fixes w :: "size_t"
  assumes "2 ^ 31 \<le> uint w" "uint w < 2 ^ 32"
  shows "sint (ucast w :: c_int) = uint w - 2 ^ 32"
proof -
  have "sint (ucast w :: c_int) = signed_take_bit 31 (uint (ucast w :: c_int))"
    by (simp add: sint_uint)
  also have "\<dots> = signed_take_bit 31 (uint w)" using uint_ucast_low [OF assms(2)] by simp
  finally show ?thesis using signed_take_bit_high [OF assms] by simp
qed
lemma sum_list_upd:
  fixes a :: "'a \<Rightarrow> nat"
  shows "distinct xs \<Longrightarrow> x \<in> set xs \<Longrightarrow> sum_list (map (a(x := v)) xs) + a x = sum_list (map a xs) + v"
proof (induction xs)
  case Nil
  then show ?case by simp
next
  case (Cons y ys)
  show ?case
  proof (cases "x = y")
    case True
    then have "sum_list (map (a(y := v)) ys) = sum_list (map a ys)"
      using Cons.prems by (intro arg_cong [where f = sum_list] map_cong) auto
    with True show ?thesis by (simp del: fun_upd_apply) (simp add: add.commute)
  next
    case False
    then have "sum_list (map (a(x := v)) ys) + a x = sum_list (map a ys) + v"
      by (intro Cons.IH) (use Cons.prems in auto)
    moreover have "(a(x := v)) y = a y" using False by simp
    ultimately show ?thesis by (simp only: list.map sum_list.Cons)
  qed
qed

section \<open>Runs of a machine\<close>

text \<open>
  A component is driven by events; \<open>step e s\<close> is \<open>None\<close> when the event cannot happen in
  the state \<open>s\<close>.  A run is a list of events, each possible in the state the previous one left.
\<close>

fun run :: "('e \<Rightarrow> 's \<Rightarrow> 's option) \<Rightarrow> 'e list \<Rightarrow> 's \<Rightarrow> 's option" where
  "run step [] s = Some s"
| "run step (e # es) s = (case step e s of None \<Rightarrow> None | Some t \<Rightarrow> run step es t)"

inductive reach :: "('e \<Rightarrow> 's \<Rightarrow> 's option) \<Rightarrow> 's \<Rightarrow> 's \<Rightarrow> bool" for step :: "'e \<Rightarrow> 's \<Rightarrow> 's option" where
  reach_refl: "reach step s s"
| reach_step: "reach step s t \<Longrightarrow> step e t = Some u \<Longrightarrow> reach step s u"

lemma run_append:
  "run step (es @ fs) s = (case run step es s of None \<Rightarrow> None | Some t \<Rightarrow> run step fs t)"
  by (induction es arbitrary: s) (auto split: option.splits)

lemma reach_run: "reach step s t \<Longrightarrow> \<exists>es. run step es s = Some t"
proof (induction rule: reach.induct)
  case (reach_refl s)
  have "run step [] s = Some s" by simp
  then show ?case by blast
next
  case (reach_step s t e u)
  then obtain es where "run step es s = Some t" by blast
  with reach_step.hyps(2) have "run step (es @ [e]) s = Some u" by (simp add: run_append)
  then show ?case by blast
qed

lemma run_reach_from: "reach step s0 s \<Longrightarrow> run step es s = Some t \<Longrightarrow> reach step s0 t"
  by (induction es arbitrary: s) (auto intro: reach_step split: option.splits)

lemma run_reach: "run step es s = Some t \<Longrightarrow> reach step s t"
  by (rule run_reach_from [OF reach_refl])

text \<open>A run that is possible and ends in a state with property \<open>P\<close>, as an executable test.\<close>

definition run_sat :: "('e \<Rightarrow> 's \<Rightarrow> 's option) \<Rightarrow> 'e list \<Rightarrow> 's \<Rightarrow> ('s \<Rightarrow> bool) \<Rightarrow> bool" where
  "run_sat step es s P \<longleftrightarrow> (case run step es s of None \<Rightarrow> False | Some t \<Rightarrow> P t)"

lemma run_satD: "run_sat step es s P \<Longrightarrow> \<exists>t. run step es s = Some t \<and> P t"
  by (auto simp: run_sat_def split: option.splits)

text \<open>Induction over a run, from its first event on.\<close>

lemma run_induct [consumes 1, case_names Nil Cons]:
  assumes "run step es s = Some t"
    and "\<And>t. P [] t t"
    and "\<And>e es s u t. step e s = Some u \<Longrightarrow> run step es u = Some t \<Longrightarrow> P es u t \<Longrightarrow> P (e # es) s t"
  shows "P es s t"
  using assms(1)
proof (induction es arbitrary: s)
  case Nil
  then show ?case using assms(2) by simp
next
  case (Cons e es)
  then obtain u where "step e s = Some u" "run step es u = Some t" by (auto split: option.splits)
  then show ?case using Cons.IH assms(3) by blast
qed

text \<open>What no event changes, and a machine whose steps are steps of another.\<close>

lemma run_frame:
  assumes "run step es s = Some t" "\<And>e s t. step e s = Some t \<Longrightarrow> f t = f s"
  shows "f t = f s"
  using assms(1) by (induction rule: run_induct) (simp_all add: assms(2))

lemma run_into:
  assumes "run step es s = Some t" "\<And>e s t. step e s = Some t \<Longrightarrow> step' e s = Some t"
  shows "run step' es s = Some t"
  using assms(1) by (induction rule: run_induct) (simp_all add: assms(2))

text \<open>The interface of a machine that keeps an invariant.\<close>

locale machine =
  fixes step :: "'e \<Rightarrow> 's \<Rightarrow> 's option"
    and inv :: "'s \<Rightarrow> bool"
  assumes step_inv: "inv s \<Longrightarrow> step e s = Some t \<Longrightarrow> inv t"
begin

lemma reach_inv: "reach step s t \<Longrightarrow> inv s \<Longrightarrow> inv t"
  by (induction rule: reach.induct) (auto intro: step_inv)

lemma run_inv: "run step es s = Some t \<Longrightarrow> inv s \<Longrightarrow> inv t"
  by (rule reach_inv [OF run_reach])

text \<open>What is kept by the events of a kind, and what every event adds to a list.\<close>

lemma run_keeps:
  assumes "run step es s = Some t" "inv s" "Q s" "list_all ok es"
    and "\<And>e s t. inv s \<Longrightarrow> Q s \<Longrightarrow> ok e \<Longrightarrow> step e s = Some t \<Longrightarrow> Q t"
  shows "Q t"
  using assms(1-4) by (induction rule: run_induct) (auto intro: step_inv assms(5))

lemma run_collects:
  assumes "run step es s = Some t" "inv s"
    and "\<And>e s t. inv s \<Longrightarrow> step e s = Some t \<Longrightarrow> f t = f s @ g e"
  shows "f t = f s @ concat (map g es)"
  using assms(1,2) by (induction rule: run_induct) (auto simp: assms(3) intro: step_inv)

end

text \<open>A machine every step of which uses up some of a budget: its runs are bounded.\<close>

locale bounded_machine = machine +
  fixes budget :: "'b \<Rightarrow> nat"
  assumes step_budget: "inv s \<Longrightarrow> step e s = Some t \<Longrightarrow> budget t < budget s"
begin

lemma run_budget: "run step es s = Some t \<Longrightarrow> inv s \<Longrightarrow> length es + budget t \<le> budget s"
proof (induction rule: run_induct)
  case (Cons e es s u t)
  then show ?case using step_inv [of s e u] step_budget [of s e u] by simp
qed simp

end

text \<open>A machine whose steps are, seen through \<open>abs\<close>, steps of an abstract machine or none.\<close>

lemma reach_trans: "reach step s t \<Longrightarrow> reach step t u \<Longrightarrow> reach step s u"
  by (rotate_tac, induction rule: reach.induct) (auto intro: reach_step)

lemma reach_one: "step e s = Some t \<Longrightarrow> reach step s t"
  by (rule reach_step [OF reach_refl])

locale simulation = machine +
  fixes astep :: "'d \<Rightarrow> 'c \<Rightarrow> 'c option"
    and abs :: "'b \<Rightarrow> 'c"
  assumes step_sim: "inv s \<Longrightarrow> step e s = Some t \<Longrightarrow> reach astep (abs s) (abs t)"
begin

lemma reach_sim:
  assumes "reach step s t" "inv s"
  shows "reach astep (abs s) (abs t)"
  using assms
proof (induction rule: reach.induct)
  case (reach_refl s)
  show ?case by (rule reach.reach_refl)
next
  case (reach_step s t e u)
  then have "inv t" using reach_inv by blast
  with reach_step show ?case by (blast intro: reach_trans step_sim)
qed

text \<open>A run from an initial state that stands for one of the abstract machine's.\<close>

lemma run_sim:
  assumes "run step es s = Some t" "inv s"
  obtains ds where "run astep ds (abs s) = Some (abs t)"
  using reach_run [OF reach_sim [OF run_reach [OF assms(1)] assms(2)]] by blast

end

text \<open>An abstract machine that sees each event as a list of its own.\<close>

locale event_simulation = machine +
  fixes astep :: "'d \<Rightarrow> 'c \<Rightarrow> 'c option"
    and abs :: "'b \<Rightarrow> 'c"
    and seen :: "'a \<Rightarrow> 'd list"
  assumes step_events: "inv s \<Longrightarrow> step e s = Some t \<Longrightarrow> run astep (seen e) (abs s) = Some (abs t)"
begin

lemma run_events:
  "run step es s = Some t \<Longrightarrow> inv s \<Longrightarrow> run astep (concat (map seen es)) (abs s) = Some (abs t)"
proof (induction rule: run_induct)
  case (Cons e es s u t)
  then show ?case using step_inv [of s e u] step_events [of s e u] by (simp add: run_append)
qed simp

end

sublocale event_simulation \<subseteq> simulation
  by unfold_locales (rule run_reach, rule step_events)

end
