(* ===== verification/Errors.thy ===== *)
theory Errors
  imports Prelude
begin

text \<open>
  The two error enumerations of the library and the \<open>std::error_code\<close> values made from them:
  \<open>usb_error.hpp\<close> (copied one to one from \<open>libusb_error\<close>) and \<open>transfer/status.hpp\<close> (from
  \<open>libusb_transfer_status\<close>).  The numbers behind the enumerators are the documented values of
  libusb's public header.
\<close>

section \<open>std::error_code\<close>

text \<open>
  A default constructed \<open>std::error_code\<close> is value 0 of the system category;
  \<open>std::make_error_code\<close> of a \<open>std::errc\<close> is in the generic category.
\<close>

datatype error_category = System_Category | Generic_Category | Usb_Category | Transfer_Category

record error_code =
  ec_value :: int
  ec_category :: error_category

definition ec_none :: error_code where
  "ec_none = \<lparr>ec_value = 0, ec_category = System_Category\<rparr>"

text \<open>\<open>explicit operator bool\<close> of \<open>std::error_code\<close>: set iff the value is not zero.\<close>

definition ec_bool :: "error_code \<Rightarrow> bool" where
  "ec_bool e \<longleftrightarrow> ec_value e \<noteq> 0"

lemma ec_bool_none [simp]: "\<not> ec_bool ec_none"
  by (simp add: ec_bool_def ec_none_def)

text \<open>The \<open>std::errc\<close> values the library uses; the numbers are errno's on Linux, and only that
  none of them is zero matters.\<close>

datatype errc = Invalid_Argument | Operation_In_Progress | Operation_Canceled | Resource_Unavailable

fun errc_value :: "errc \<Rightarrow> int" where
  "errc_value Invalid_Argument = 22"
| "errc_value Operation_In_Progress = 115"
| "errc_value Operation_Canceled = 125"
| "errc_value Resource_Unavailable = 11"

definition std_make_error_code :: "errc \<Rightarrow> error_code" where
  "std_make_error_code e = \<lparr>ec_value = errc_value e, ec_category = Generic_Category\<rparr>"

lemma ec_bool_errc [simp]: "ec_bool (std_make_error_code e)"
  by (cases e) (simp_all add: ec_bool_def std_make_error_code_def)

section \<open>usb_error.hpp\<close>

abbreviation LIBUSB_SUCCESS :: int where "LIBUSB_SUCCESS \<equiv> 0"

datatype usb_error =
    Usb_success | Usb_io_error | Usb_invalid_param | Usb_access_error | Usb_no_device
  | Usb_not_found | Usb_resource_busy | Usb_timed_out | Usb_overflow | Usb_broken_pipe
  | Usb_interrupted | Usb_out_of_memory | Usb_not_supported | Usb_unknown

fun usb_error_value :: "usb_error \<Rightarrow> int" where
  "usb_error_value Usb_success = LIBUSB_SUCCESS"
| "usb_error_value Usb_io_error = -1"
| "usb_error_value Usb_invalid_param = -2"
| "usb_error_value Usb_access_error = -3"
| "usb_error_value Usb_no_device = -4"
| "usb_error_value Usb_not_found = -5"
| "usb_error_value Usb_resource_busy = -6"
| "usb_error_value Usb_timed_out = -7"
| "usb_error_value Usb_overflow = -8"
| "usb_error_value Usb_broken_pipe = -9"
| "usb_error_value Usb_interrupted = -10"
| "usb_error_value Usb_out_of_memory = -11"
| "usb_error_value Usb_not_supported = -12"
| "usb_error_value Usb_unknown = -99"

text \<open>
  \<open>usb_error\<close> has the fixed underlying type \<open>int\<close>, so \<open>static_cast<usb_error>(r)\<close> keeps any
  return code \<open>r\<close>, enumerator or not: \<open>make_usb_error_code\<close> is a function of that integer.
\<close>

definition make_usb_error_code :: "int \<Rightarrow> error_code" where
  "make_usb_error_code r = \<lparr>ec_value = r, ec_category = Usb_Category\<rparr>"

definition usb_error_category_name :: string where
  "usb_error_category_name = ''co_usb usb error''"

text \<open>The message of a USB error is libusb's own text: \<open>libusb_strerror\<close> is a parameter.\<close>

definition usb_error_message :: "(int \<Rightarrow> string) \<Rightarrow> int \<Rightarrow> string" where
  "usb_error_message libusb_strerror v = libusb_strerror v"

lemma ec_bool_usb [simp]: "ec_bool (make_usb_error_code r) \<longleftrightarrow> r \<noteq> LIBUSB_SUCCESS"
  by (simp add: ec_bool_def make_usb_error_code_def)

lemma usb_error_value_inj: "usb_error_value a = usb_error_value b \<Longrightarrow> a = b"
  by (cases a; cases b) simp_all

section \<open>transfer/status.hpp\<close>

datatype status =
  St_completed | St_error | St_timed_out | St_cancelled | St_stall | St_no_device | St_overflow

fun status_value :: "status \<Rightarrow> int" where
  "status_value St_completed = 0"
| "status_value St_error = 1"
| "status_value St_timed_out = 2"
| "status_value St_cancelled = 3"
| "status_value St_stall = 4"
| "status_value St_no_device = 5"
| "status_value St_overflow = 6"

abbreviation LIBUSB_TRANSFER_COMPLETED :: int where "LIBUSB_TRANSFER_COMPLETED \<equiv> 0"

text \<open>As for \<open>usb_error\<close>, the cast from an integer keeps every value.\<close>

definition make_transfer_status :: "int \<Rightarrow> error_code" where
  "make_transfer_status v = \<lparr>ec_value = v, ec_category = Transfer_Category\<rparr>"

definition transfer_status_category_name :: string where
  "transfer_status_category_name = ''co_usb transfer status''"

text \<open>The \<open>switch\<close> of \<open>transfer_status_category_t::message\<close>, case by case.\<close>

definition transfer_status_message :: "int \<Rightarrow> string" where
  "transfer_status_message v =
     (if v = status_value St_completed then ''completed''
      else if v = status_value St_error then ''error''
      else if v = status_value St_cancelled then ''cancelled''
      else if v = status_value St_stall then ''device stalled''
      else if v = status_value St_no_device then ''no such device''
      else if v = status_value St_overflow then ''data overflow''
      else ''unknown'')"

lemma ec_bool_status [simp]:
  "ec_bool (make_transfer_status v) \<longleftrightarrow> v \<noteq> LIBUSB_TRANSFER_COMPLETED"
  by (simp add: ec_bool_def make_transfer_status_def)

lemma status_value_inj: "status_value a = status_value b \<Longrightarrow> a = b"
  by (cases a; cases b) simp_all

lemma make_error_codes_distinct [simp]:
  "make_usb_error_code r \<noteq> make_transfer_status v"
  "make_transfer_status v \<noteq> make_usb_error_code r"
  by (simp_all add: make_usb_error_code_def make_transfer_status_def)

section \<open>Properties\<close>

text \<open>The message of a transfer status tells every status apart except that a timeout is
  reported with the text of a value that is no status at all.\<close>

theorem transfer_status_message_kernel:
  "(transfer_status_message (status_value a) = transfer_status_message (status_value b)
      \<longleftrightarrow> a = b)
   \<and> (transfer_status_message (status_value a) = transfer_status_message (-1)
      \<longleftrightarrow> a = St_timed_out)"
  by (cases a; cases b) (simp_all add: transfer_status_message_def)

end
