(* ===== verification/Endpoint.thy ===== *)
theory Endpoint
  imports Prelude
begin

text \<open>
  Endpoints typed by their direction (\<open>transfer/endpoint.hpp\<close>) and the sources of a device
  handle they are built from (\<open>wrapper/concepts/device_handle_source.hpp\<close>).  The template
  parameter \<open>Direction\<close> is a field of the model, so that the \<open>requires\<close> clauses are
  conditions on it; addresses are 8-bit words.
\<close>

unbundle bit_operations_syntax

section \<open>Device handle sources\<close>

text \<open>
  \<open>DeviceHandlePointer\<close>: a raw \<open>libusb_device_handle *\<close>, or an object with \<open>get()\<close>;
  \<open>DeviceHandleSource\<close>: either of them, or an object whose \<open>devh()\<close> gives one.
\<close>

datatype device_handle_pointer = Raw_Pointer devh | Has_Get devh

datatype device_handle_source = Pointer_Source device_handle_pointer | Has_Devh device_handle_pointer

fun pointer_device_handle_of :: "device_handle_pointer \<Rightarrow> devh" where
  "pointer_device_handle_of (Raw_Pointer h) = h"
| "pointer_device_handle_of (Has_Get h) = h"

fun device_handle_of :: "device_handle_source \<Rightarrow> devh" where
  "device_handle_of (Pointer_Source p) = pointer_device_handle_of p"
| "device_handle_of (Has_Devh p) = pointer_device_handle_of p"

section \<open>Endpoints\<close>

datatype endpoint_direction = dir_out | dir_in | dir_any

fun endpoint_direction_value :: "endpoint_direction \<Rightarrow> u8" where
  "endpoint_direction_value dir_out = 0x00"
| "endpoint_direction_value dir_in = 0x80"
| "endpoint_direction_value dir_any = 0xFF"

text \<open>\<open>LIBUSB_ENDPOINT_IN\<close>, the direction bit of an address (documented value).\<close>

abbreviation LIBUSB_ENDPOINT_IN :: u8 where "LIBUSB_ENDPOINT_IN \<equiv> 0x80"

record endpoint =
  ep_direction :: endpoint_direction
  m_devh :: devh
  m_ep :: u8

datatype endpoint_error = Cannot_Use_In_For_Out | Cannot_Use_Out_For_In

text \<open>
  \<open>make_safe\<close> has \<open>requires (Direction != any)\<close>: the last line of its body, reached for no
  instantiation, is the value for \<open>any\<close> here.
\<close>

definition make_safe :: "endpoint_direction \<Rightarrow> u8 \<Rightarrow> device_handle_source \<Rightarrow> endpoint" where
  "make_safe dir ep src =
     (if dir = dir_out then
        \<lparr>ep_direction = dir, m_devh = device_handle_of src, m_ep = ep AND NOT LIBUSB_ENDPOINT_IN\<rparr>
      else if dir = dir_in then
        \<lparr>ep_direction = dir, m_devh = device_handle_of src, m_ep = ep OR LIBUSB_ENDPOINT_IN\<rparr>
      else \<lparr>ep_direction = dir, m_devh = device_handle_of src, m_ep = ep\<rparr>)"

definition make_unsafe :: "endpoint_direction \<Rightarrow> u8 \<Rightarrow> device_handle_source \<Rightarrow> endpoint" where
  "make_unsafe dir ep src = \<lparr>ep_direction = dir, m_devh = device_handle_of src, m_ep = ep\<rparr>"

text \<open>\<open>make_throwing\<close>: \<open>Inl\<close> is the \<open>std::invalid_argument\<close> it throws.\<close>

definition make_throwing ::
  "endpoint_direction \<Rightarrow> u8 \<Rightarrow> device_handle_source \<Rightarrow> endpoint_error + endpoint" where
  "make_throwing dir ep src =
     (if dir = dir_out \<and> ep AND LIBUSB_ENDPOINT_IN \<noteq> 0 then Inl Cannot_Use_In_For_Out
      else if dir = dir_in \<and> \<not> (ep AND LIBUSB_ENDPOINT_IN \<noteq> 0) then Inl Cannot_Use_Out_For_In
      else Inr \<lparr>ep_direction = dir, m_devh = device_handle_of src, m_ep = ep\<rparr>)"

definition addr :: "endpoint \<Rightarrow> u8" where
  "addr e = m_ep e"

definition endpoint_devh :: "endpoint \<Rightarrow> devh" where
  "endpoint_devh e = m_devh e"

text \<open>
  \<open>as\<close> on an \<open>any\<close> endpoint; \<open>requires\<close> keeps \<open>ToDirection\<close> from being \<open>any\<close>, for which the
  body has no branch.
\<close>

definition as_direction :: "endpoint_direction \<Rightarrow> endpoint \<Rightarrow> endpoint option" where
  "as_direction to e =
     (if to = dir_in then
        (if m_ep e AND LIBUSB_ENDPOINT_IN \<noteq> 0
         then Some (make_unsafe dir_in (m_ep e) (Pointer_Source (Raw_Pointer (m_devh e))))
         else None)
      else if to = dir_out then
        (if m_ep e AND LIBUSB_ENDPOINT_IN \<noteq> 0 then None
         else Some (make_unsafe dir_out (m_ep e) (Pointer_Source (Raw_Pointer (m_devh e)))))
      else None)"

definition ep_out :: "u8 \<Rightarrow> device_handle_source \<Rightarrow> endpoint" where
  "ep_out a src = make_safe dir_out a src"

definition ep_in :: "u8 \<Rightarrow> device_handle_source \<Rightarrow> endpoint" where
  "ep_in a src = make_safe dir_in a src"

definition ep_any :: "u8 \<Rightarrow> device_handle_source \<Rightarrow> endpoint" where
  "ep_any a src =
     make_unsafe dir_any a (Pointer_Source (Raw_Pointer (device_handle_of src)))"

section \<open>The direction bit\<close>

definition in_bit :: "u8 \<Rightarrow> bool" where
  "in_bit a \<longleftrightarrow> bit a 7"

lemma bit_128: "bit (128 :: u8) n \<longleftrightarrow> n = 7"
proof -
  have "(128 :: u8) = 2 ^ 7" by simp
  then show ?thesis by (simp only: bit_exp_iff possible_bit_word) auto
qed

text \<open>The facts hold of any mask with that bit alone, so \<open>simp\<close> cannot fold \<open>NOT 128\<close> first.\<close>

lemma mask_facts:
  fixes a m :: u8
  assumes m: "\<And>n. bit m n \<longleftrightarrow> n = 7"
  shows "a AND m \<noteq> 0 \<longleftrightarrow> bit a 7"
    and "bit (a OR m) 7"
    and "\<not> bit (a AND NOT m) 7"
    and "bit a 7 \<Longrightarrow> a OR m = a"
    and "\<not> bit a 7 \<Longrightarrow> a AND NOT m = a"
    and "n \<noteq> 7 \<Longrightarrow> bit (a OR m) n = bit a n"
    and "n \<noteq> 7 \<Longrightarrow> bit (a AND NOT m) n = bit a n"
  by (auto simp: bit_eq_iff [where ?'a = "8 word"] bit_and_iff bit_or_iff bit_not_iff m
      dest: bit_imp_le_length)

lemmas direction_mask = mask_facts [OF bit_128]

lemma and_in_bit: "a AND LIBUSB_ENDPOINT_IN \<noteq> 0 \<longleftrightarrow> in_bit a" for a :: u8
  unfolding in_bit_def by (rule direction_mask(1))

lemma in_bit_or [simp]: "in_bit (a OR LIBUSB_ENDPOINT_IN)"
  unfolding in_bit_def by (rule direction_mask(2))

lemma in_bit_and_not: "\<not> in_bit (a AND NOT LIBUSB_ENDPOINT_IN)"
  unfolding in_bit_def by (rule direction_mask(3))

lemma or_in_bit_id: "in_bit a \<Longrightarrow> a OR LIBUSB_ENDPOINT_IN = a"
  unfolding in_bit_def by (rule direction_mask(4))

lemma and_not_in_bit_id: "\<not> in_bit a \<Longrightarrow> a AND NOT LIBUSB_ENDPOINT_IN = a"
  unfolding in_bit_def by (rule direction_mask(5))

text \<open>The same facts in the form \<open>simp\<close> gives the mask.\<close>

lemmas in_bit_clear [simp] = in_bit_and_not [simplified] and_not_in_bit_id [simplified]

definition direction_matches :: "endpoint_direction \<Rightarrow> u8 \<Rightarrow> bool" where
  "direction_matches dir a \<longleftrightarrow> (dir = dir_in \<longrightarrow> in_bit a) \<and> (dir = dir_out \<longrightarrow> \<not> in_bit a)"

lemmas endpoint_defs = make_safe_def make_unsafe_def make_throwing_def as_direction_def addr_def
  endpoint_devh_def ep_in_def ep_out_def ep_any_def

lemma make_safe_unchanged:
  "dir \<noteq> dir_any \<Longrightarrow> direction_matches dir a \<Longrightarrow> m_ep (make_safe dir a src) = a"
  by (cases dir) (simp_all add: make_safe_def direction_matches_def or_in_bit_id and_not_in_bit_id)

lemma make_safe_low_bits: "n \<noteq> 7 \<Longrightarrow> bit (m_ep (make_safe dir a src)) n = bit a n"
  unfolding make_safe_def using direction_mask(6,7) by (cases dir) simp_all

lemma make_throwing_iff:
  "dir \<noteq> dir_any \<Longrightarrow>
   make_throwing dir a src =
     (if direction_matches dir a then Inr (make_unsafe dir a src)
      else Inl (if dir = dir_out then Cannot_Use_In_For_Out else Cannot_Use_Out_For_In))"
  unfolding make_throwing_def and_in_bit direction_matches_def make_unsafe_def
  by (cases dir) auto

lemma as_direction_any:
  "d \<noteq> dir_any \<Longrightarrow>
   as_direction d (ep_any a src) = (if direction_matches d a then Some (make_unsafe d a src) else None)"
  unfolding as_direction_def ep_any_def and_in_bit direction_matches_def
  by (cases d) (auto simp: make_unsafe_def and_in_bit)

lemma make_safe_matches: "dir \<noteq> dir_any \<Longrightarrow> direction_matches dir (m_ep (make_safe dir a src))"
  unfolding make_safe_def direction_matches_def by (cases dir) simp_all

section \<open>Properties\<close>

text \<open>\<open>make_safe\<close> always gives an endpoint whose address has the direction bit of its type,
  keeps the other seven bits and the handle of the source, and does nothing when applied again.\<close>

theorem make_safe_completes:
  assumes "dir \<noteq> dir_any"
  shows "direction_matches dir (addr (make_safe dir a src))
    \<and> {n. n \<noteq> 7 \<and> bit (addr (make_safe dir a src)) n} = {n. n \<noteq> 7 \<and> bit a n}
    \<and> endpoint_devh (make_safe dir a src) = device_handle_of src
    \<and> make_safe dir (addr (make_safe dir a src)) src = make_safe dir a src"
proof -
  have m: "direction_matches dir (m_ep (make_safe dir a src))" using assms by (rule make_safe_matches)
  have d: "m_devh (make_safe dir b src) = device_handle_of src"
    and c: "ep_direction (make_safe dir b src) = dir" for b
    by (simp_all add: make_safe_def)
  have "make_safe dir (m_ep (make_safe dir a src)) src = make_safe dir a src"
    using make_safe_unchanged [OF assms m, of src] d c by (simp add: endpoint.equality)
  with m d show ?thesis by (auto simp: addr_def endpoint_devh_def make_safe_low_bits)
qed

theorem make_safe_completes_witness:
  "direction_matches dir_in (addr (make_safe dir_in 1 (Pointer_Source (Raw_Pointer None))))
   \<and> addr (make_safe dir_in 1 (Pointer_Source (Raw_Pointer None))) = 0x81"
  using make_safe_completes [of dir_in 1 "Pointer_Source (Raw_Pointer None)"]
  by (simp add: endpoint_defs)

text \<open>The three ways to type an address agree: \<open>make_throwing\<close> throws, and the cast of an
  \<open>any\<close> endpoint gives \<open>nullopt\<close>, exactly on the addresses of the other direction; on all others
  both give the endpoint \<open>make_safe\<close> gives.  So every address is valid for exactly one
  direction.\<close>

theorem endpoint_conversions_agree:
  assumes "dir \<noteq> dir_any"
  shows "as_direction dir (ep_any a src) =
      (case make_throwing dir a src of Inl _ \<Rightarrow> None | Inr e \<Rightarrow> Some e)
    \<and> (as_direction dir (ep_any a src) = None \<longleftrightarrow> \<not> direction_matches dir a)
    \<and> (direction_matches dir a \<longleftrightarrow> as_direction dir (ep_any a src) = Some (make_safe dir a src))
    \<and> (as_direction dir_in (ep_any a src) = None \<longleftrightarrow> as_direction dir_out (ep_any a src) \<noteq> None)"
proof -
  have safe: "make_unsafe dir a src = make_safe dir a src" if "direction_matches dir a"
    using make_safe_unchanged [OF assms that, of src]
    by (auto simp: make_unsafe_def make_safe_def split: if_splits)
  show ?thesis
    using assms safe by (auto simp: as_direction_any make_throwing_iff) (auto simp: direction_matches_def)
qed

theorem endpoint_conversions_agree_witness:
  "as_direction dir_out (ep_any 0x80 (Pointer_Source (Raw_Pointer None))) = None
   \<and> make_throwing dir_out 0x80 (Pointer_Source (Raw_Pointer None)) = Inl Cannot_Use_In_For_Out"
  using endpoint_conversions_agree [of dir_out "0x80" "Pointer_Source (Raw_Pointer None)"]
  by (simp add: endpoint_defs)

text \<open>C39: erasing the direction of an endpoint and casting it back gives the endpoint again; the cast to
  the other direction gives nothing, and whatever a cast gives erases to the endpoint it came
  from.\<close>

theorem endpoint_round_trip:
  assumes "dir \<noteq> dir_any" "other \<noteq> dir_any" "other \<noteq> dir"
  shows "(let e = make_safe dir a src; erased = ep_any (addr e) (Pointer_Source (Raw_Pointer (endpoint_devh e)))
          in as_direction dir erased = Some e \<and> as_direction other erased = None)
    \<and> (\<forall>e. as_direction dir (ep_any a src) = Some e \<longrightarrow>
          ep_any (addr e) (Pointer_Source (Raw_Pointer (endpoint_devh e))) = ep_any a src)"
proof -
  let ?e = "make_safe dir a src"
  let ?raw = "Pointer_Source (Raw_Pointer (endpoint_devh ?e))"
  have m: "direction_matches dir (addr ?e)" using make_safe_matches [OF assms(1)] by (simp add: addr_def)
  moreover have "\<not> direction_matches other (addr ?e)"
    using m assms by (cases dir; cases other) (simp_all add: direction_matches_def)
  moreover have "make_unsafe dir (addr ?e) ?raw = ?e"
    by (simp add: make_unsafe_def make_safe_def addr_def endpoint_devh_def)
  moreover have "ep_any (addr e) (Pointer_Source (Raw_Pointer (endpoint_devh e))) = ep_any a src"
    if "as_direction dir (ep_any a src) = Some e" for e
  proof -
    have "e = make_unsafe dir a src" using that assms(1) by (simp add: as_direction_any split: if_splits)
    then show ?thesis by (simp add: make_unsafe_def ep_any_def addr_def endpoint_devh_def)
  qed
  ultimately show ?thesis using assms by (simp add: as_direction_any Let_def)
qed

theorem endpoint_round_trip_witness:
  "as_direction dir_in (ep_any 0x81 (Pointer_Source (Raw_Pointer (Some 4)))) =
     Some (make_safe dir_in 1 (Pointer_Source (Raw_Pointer (Some 4))))"
  using endpoint_round_trip [of dir_in dir_out 1 "Pointer_Source (Raw_Pointer (Some 4))"]
  by (simp add: endpoint_defs Let_def)

end
