(* ===== verification/Transfers.thy ===== *)
theory Transfers
  imports Errors Endpoint
begin

text \<open>
  Transfers, transfer sequences and the operations on them (\<open>transfer/resource.hpp\<close>,
  \<open>transfer/concepts/transfer_sequence.hpp\<close>, \<open>transfer/detail/iterator.hpp\<close>,
  \<open>transfer/sequence_view.hpp\<close>, \<open>transfer/operations.hpp\<close>).  A \<open>libusb_transfer *\<close> is a number
  \<open>tid\<close>; the structures live in a store \<open>tid \<Rightarrow> libusb_transfer\<close>.  libusb's own functions are
  parameters.
\<close>

section \<open>Transfers\<close>

type_synonym tid = nat

record iso_packet =
  ip_actual_length :: uint32
  ip_status :: int

text \<open>The completion callback stored in a transfer: one of the library's two, or none.\<close>

datatype transfer_cb = Partial_Callback | Complete_Callback

record libusb_transfer =
  t_dev_handle :: devh
  t_endpoint :: u8
  t_type :: u8
  t_timeout :: uint32
  t_status :: int
  t_length :: c_int
  t_actual_length :: c_int
  t_callback :: "transfer_cb option"
  t_user_data :: "nat option"
  t_buffer :: address
  t_num_iso_packets :: int
  t_iso_packet_desc :: "iso_packet list"

text \<open>\<open>libusb_transfer_type\<close> (documented values).\<close>

abbreviation LIBUSB_TRANSFER_TYPE_ISOCHRONOUS :: u8 where
  "LIBUSB_TRANSFER_TYPE_ISOCHRONOUS \<equiv> 1"

type_synonym tfer_store = "tid \<Rightarrow> libusb_transfer"

text \<open>
  \<open>resource\<close>: a \<open>unique_ptr\<close> over an allocation; \<open>libusb_alloc_transfer\<close> is a parameter and
  a null result is thrown as \<open>std::bad_alloc\<close> (\<open>Inl\<close>).
\<close>

datatype bad_alloc = Bad_Alloc

definition make_resource :: "(int \<Rightarrow> tid option) \<Rightarrow> int \<Rightarrow> bad_alloc + tid" where
  "make_resource alloc iso_packets =
     (case alloc iso_packets of None \<Rightarrow> Inl Bad_Alloc | Some t \<Rightarrow> Inr t)"

section \<open>Transfer sequences and iterators\<close>

text \<open>
  A \<open>sequence_view\<close> stores two iterators into the sequence it was made from: positions in its
  array of resources.  Its member \<open>end\<close> returns \<open>m_begin\<close>, as in the source.
\<close>

record sequence_view =
  sv_array :: "tid list"
  m_begin :: nat
  m_end :: nat

definition view_size :: "sequence_view \<Rightarrow> nat" where
  "view_size v = m_end v - m_begin v"

definition view_begin :: "sequence_view \<Rightarrow> nat" where
  "view_begin v = m_begin v"

definition view_end :: "sequence_view \<Rightarrow> nat" where
  "view_end v = m_begin v"

text \<open>A sequence is one resource, a range of resources, or (being a range itself) a view.\<close>

datatype transfer_sequence = Resource tid | Resources "tid list" | View sequence_view

text \<open>\<open>transfer_of\<close>: a resource is the pointer itself, or has \<open>get\<close>; both give the pointer.\<close>

datatype transfer_resource = Raw_Transfer tid | Owned_Transfer tid

fun transfer_of :: "transfer_resource \<Rightarrow> tid" where
  "transfer_of (Raw_Transfer t) = t"
| "transfer_of (Owned_Transfer t) = t"

fun seq_array :: "transfer_sequence \<Rightarrow> tid list" where
  "seq_array (Resource t) = [t]"
| "seq_array (Resources ts) = ts"
| "seq_array (View v) = sv_array v"

fun transfer_begin :: "transfer_sequence \<Rightarrow> nat" where
  "transfer_begin (Resource t) = 0"
| "transfer_begin (Resources ts) = 0"
| "transfer_begin (View v) = view_begin v"

fun transfer_end :: "transfer_sequence \<Rightarrow> nat" where
  "transfer_end (Resource t) = 0 + 1"
| "transfer_end (Resources ts) = length ts"
| "transfer_end (View v) = view_end v"

definition make_view :: "transfer_sequence \<Rightarrow> sequence_view" where
  "make_view s = \<lparr>sv_array = seq_array s, m_begin = transfer_begin s, m_end = transfer_end s\<rparr>"

text \<open>
  A loop \<open>for (it = i; it != e; it++)\<close> over the array: the resources it visits, \<open>None\<close> if it
  dereferences an iterator outside of the array (undefined behaviour).
\<close>

function iter_tids :: "tid list \<Rightarrow> nat \<Rightarrow> nat \<Rightarrow> tid list option" where
  "iter_tids arr i e =
     (if i = e then Some []
      else if i < length arr then map_option ((#) (arr ! i)) (iter_tids arr (Suc i) e)
      else None)"
  by pat_completeness auto
termination
  by (relation "measure (\<lambda>(arr, i, e). length arr - i)") auto

declare iter_tids.simps [simp del]

lemma iter_tids_stop [simp]: "iter_tids arr i i = Some []"
  by (simp add: iter_tids.simps)

lemma iter_tids_range:
  "i \<le> e \<Longrightarrow> e \<le> length arr \<Longrightarrow> iter_tids arr i e = Some (take (e - i) (drop i arr))"
proof (induction arr i e rule: iter_tids.induct)
  case (1 arr i e)
  show ?case
  proof (cases "i = e")
    case True
    then show ?thesis by simp
  next
    case False
    with 1 have "iter_tids arr (Suc i) e = Some (take (e - Suc i) (drop (Suc i) arr))" by simp
    moreover have "take (e - i) (drop i arr) = arr ! i # take (e - Suc i) (drop (Suc i) arr)"
      by (metis False "1.prems" Cons_nth_drop_Suc Suc_diff_Suc le_neq_implies_less
          order_less_le_trans take_Suc_Cons)
    ultimately show ?thesis using False 1 by (simp add: iter_tids.simps [of arr i e])
  qed
qed

lemma iter_tids_overrun: "length arr < e \<Longrightarrow> i < e \<Longrightarrow> iter_tids arr i e = None"
  by (induction arr i e rule: iter_tids.induct) (subst iter_tids.simps, auto)

definition seq_loop :: "transfer_sequence \<Rightarrow> tid list option" where
  "seq_loop s = iter_tids (seq_array s) (transfer_begin s) (transfer_end s)"

lemma seq_loop_simps [simp]:
  "seq_loop (Resource t) = Some [t]"
  "seq_loop (Resources ts) = Some ts"
  "seq_loop (View v) = Some []"
  by (simp_all add: seq_loop_def iter_tids_range view_begin_def view_end_def)

lemma make_view_simps [simp]:
  "view_size (make_view (Resource t)) = 1"
  "view_size (make_view (Resources ts)) = length ts"
  "view_size (make_view (View v)) = 0"
  by (simp_all add: make_view_def view_size_def view_begin_def view_end_def)

end
