(* ===== verification/Operations.thy ===== *)
theory Operations
  imports Transfers
begin

text \<open>
  The operations on transfer sequences (\<open>transfer/operations.hpp\<close>): cancelling and prefilling.
  The inline \<open>libusb_fill_*_transfer\<close> functions are parameters: each takes the transfer and the
  arguments the library passes and gives the transfer with the fields it populated.
\<close>

type_synonym milliseconds = "64 word"

section \<open>Cancellation\<close>

text \<open>The transfers \<open>libusb_cancel_transfer\<close> is called on, in order.\<close>

definition cancel_transfer :: "transfer_sequence \<Rightarrow> tid list \<Rightarrow> tid list option" where
  "cancel_transfer s log = map_option (\<lambda>ts. log @ ts) (seq_loop s)"

section \<open>Prefilling\<close>

definition upd_at :: "('b \<Rightarrow> 'b) \<Rightarrow> 'a \<Rightarrow> ('a \<Rightarrow> 'b) \<Rightarrow> ('a \<Rightarrow> 'b)" where
  "upd_at f t m = m(t := f (m t))"

definition prefill_loop ::
  "(libusb_transfer \<Rightarrow> libusb_transfer) \<Rightarrow> transfer_sequence \<Rightarrow> tfer_store \<Rightarrow> tfer_store option" where
  "prefill_loop fill s m = map_option (\<lambda>ts. fold (upd_at fill) ts m) (seq_loop s)"

text \<open>
  \<open>timeout_ms.count()\<close> is a 64-bit count that becomes the \<open>unsigned int\<close> parameter: \<open>ucast\<close>.
\<close>

type_synonym fill_control_fn =
  "libusb_transfer \<Rightarrow> devh \<Rightarrow> address \<Rightarrow> transfer_cb option \<Rightarrow> nat option \<Rightarrow> uint32 \<Rightarrow> libusb_transfer"
type_synonym fill_fn =
  "libusb_transfer \<Rightarrow> devh \<Rightarrow> u8 \<Rightarrow> address \<Rightarrow> c_int \<Rightarrow> transfer_cb option \<Rightarrow> nat option \<Rightarrow> uint32
    \<Rightarrow> libusb_transfer"
type_synonym fill_iso_fn =
  "libusb_transfer \<Rightarrow> devh \<Rightarrow> u8 \<Rightarrow> address \<Rightarrow> c_int \<Rightarrow> int \<Rightarrow> transfer_cb option \<Rightarrow> nat option \<Rightarrow> uint32
    \<Rightarrow> libusb_transfer"
type_synonym fill_stream_fn =
  "libusb_transfer \<Rightarrow> devh \<Rightarrow> u8 \<Rightarrow> uint32 \<Rightarrow> address \<Rightarrow> c_int \<Rightarrow> transfer_cb option \<Rightarrow> nat option \<Rightarrow> uint32
    \<Rightarrow> libusb_transfer"

text \<open>
  \<open>COUSB_ASSERT\<close> (\<open>detail/assert.hpp\<close>): a contract assertion where the compiler has contracts, and
  \<open>assert\<close> otherwise, checked unless \<open>NDEBUG\<close> is defined.  \<open>Inl\<close> is the abort of a failed one.
\<close>

datatype aborted = Assertion_Failed | Iterator_Overrun

definition COUSB_ASSERT :: "bool \<Rightarrow> bool \<Rightarrow> aborted + 'a \<Rightarrow> aborted + 'a" where
  "COUSB_ASSERT checked c k = (if checked \<and> \<not> c then Inl Assertion_Failed else k)"

fun of_loop :: "'a option \<Rightarrow> aborted + 'a" where
  "of_loop None = Inl Iterator_Overrun"
| "of_loop (Some x) = Inr x"

definition prefill_control ::
  "bool \<Rightarrow> fill_control_fn \<Rightarrow> transfer_sequence \<Rightarrow> endpoint \<Rightarrow> milliseconds \<Rightarrow> tfer_store
     \<Rightarrow> aborted + tfer_store" where
  "prefill_control checked libusb_fill_control_transfer s ep timeout_ms m =
     COUSB_ASSERT checked (addr ep = 0x00 \<and> ep_direction ep = dir_out)
       (COUSB_ASSERT checked (addr ep = 0x80 \<and> ep_direction ep = dir_in)
         (of_loop (prefill_loop
            (\<lambda>t. libusb_fill_control_transfer t (endpoint_devh ep) 0 None None (ucast timeout_ms))
            s m)))"

definition prefill_bulk ::
  "fill_fn \<Rightarrow> transfer_sequence \<Rightarrow> endpoint \<Rightarrow> milliseconds \<Rightarrow> tfer_store \<Rightarrow> tfer_store option" where
  "prefill_bulk libusb_fill_bulk_transfer s ep timeout_ms m =
     prefill_loop
       (\<lambda>t. libusb_fill_bulk_transfer t (endpoint_devh ep) (addr ep) 0 0 None None
              (ucast timeout_ms)) s m"

definition prefill_interrupt ::
  "fill_fn \<Rightarrow> transfer_sequence \<Rightarrow> endpoint \<Rightarrow> milliseconds \<Rightarrow> tfer_store \<Rightarrow> tfer_store option" where
  "prefill_interrupt libusb_fill_interrupt_transfer s ep timeout_ms m =
     prefill_loop
       (\<lambda>t. libusb_fill_interrupt_transfer t (endpoint_devh ep) (addr ep) 0 0 None None
              (ucast timeout_ms)) s m"

definition prefill_isochronous ::
  "fill_iso_fn \<Rightarrow> transfer_sequence \<Rightarrow> endpoint \<Rightarrow> int \<Rightarrow> milliseconds \<Rightarrow> tfer_store
     \<Rightarrow> tfer_store option" where
  "prefill_isochronous libusb_fill_iso_transfer s ep iso_packets timeout_ms m =
     prefill_loop
       (\<lambda>t. libusb_fill_iso_transfer t (endpoint_devh ep) (addr ep) 0 0 iso_packets None None
              (ucast timeout_ms)) s m"

definition prefill_bulk_stream ::
  "fill_stream_fn \<Rightarrow> transfer_sequence \<Rightarrow> endpoint \<Rightarrow> uint32 \<Rightarrow> milliseconds \<Rightarrow> tfer_store
     \<Rightarrow> tfer_store option" where
  "prefill_bulk_stream libusb_fill_bulk_stream_transfer s ep stream_id timeout_ms m =
     prefill_loop
       (\<lambda>t. libusb_fill_bulk_stream_transfer t (endpoint_devh ep) (addr ep) stream_id 0 0 None None
              (ucast timeout_ms)) s m"

section \<open>What the loop does to the store\<close>

lemma upd_at_simps [simp]:
  "upd_at f t m t = f (m t)"
  "u \<noteq> t \<Longrightarrow> upd_at f t m u = m u"
  by (simp_all add: upd_at_def)

lemma fold_upd_other: "t \<notin> set ts \<Longrightarrow> fold (upd_at f) ts m t = m t"
  by (induction ts arbitrary: m) auto

lemma fold_upd_idem:
  assumes "\<And>x. f (f x) = f x"
  shows "t \<in> set ts \<Longrightarrow> fold (upd_at f) ts m t = f (m t)"
proof (induction ts arbitrary: m)
  case Nil
  then show ?case by simp
next
  case (Cons u ts)
  then show ?case
    by (cases "t \<in> set ts"; cases "t = u") (simp_all add: fold_upd_other assms)
qed

definition upd_all :: "('b \<Rightarrow> 'b) \<Rightarrow> 'a list \<Rightarrow> ('a \<Rightarrow> 'b) \<Rightarrow> ('a \<Rightarrow> 'b)" where
  "upd_all f ts m = (\<lambda>t. if t \<in> set ts then f (m t) else m t)"

lemma upd_all_simps [simp]:
  "t \<in> set ts \<Longrightarrow> upd_all f ts m t = f (m t)"
  "t \<notin> set ts \<Longrightarrow> upd_all f ts m t = m t"
  by (simp_all add: upd_all_def)

lemma upd_all_absorb: "(\<And>x. g (f x) = g x) \<Longrightarrow> upd_all g ts (upd_all f ts m) = upd_all g ts m"
  by (rule ext) (simp add: upd_all_def)

lemma prefill_loop_resources:
  assumes "\<And>x. f (f x) = f x"
  shows "prefill_loop f (Resources ts) m = Some (upd_all f ts m)"
proof -
  have "fold (upd_at f) ts m = upd_all f ts m"
    by (rule ext) (simp add: upd_all_def fold_upd_other fold_upd_idem assms)
  then show ?thesis by (simp add: prefill_loop_def)
qed

lemma prefill_loop_resource: "prefill_loop f (Resource t) m = Some (m(t := f (m t)))"
  by (simp add: prefill_loop_def upd_at_def)

lemma prefill_loop_view [simp]: "prefill_loop f (View v) m = Some m"
  by (simp add: prefill_loop_def)

text \<open>
  The documented effect of the bulk and interrupt helpers: they populate the listed fields and
  leave the iso packets alone.
\<close>

definition fills_as :: "u8 \<Rightarrow> fill_fn \<Rightarrow> bool" where
  "fills_as ty fill \<longleftrightarrow>
     (\<forall>t h ep buf len cb ud tmo.
        fill t h ep buf len cb ud tmo =
          t\<lparr>t_dev_handle := h, t_endpoint := ep, t_type := ty, t_timeout := tmo,
            t_buffer := buf, t_length := len, t_user_data := ud, t_callback := cb\<rparr>)"

section \<open>Properties\<close>

text \<open>Prefilling a range as bulk transfers makes exactly the transfers of the range bulk
  transfers of the endpoint's address and device, with no buffer, callback or user data yet, and
  changes no other transfer; prefilling again for another endpoint leaves nothing of the first
  (here as interrupt transfers).\<close>

theorem prefill_bulk_then_interrupt:
  assumes "fills_as 2 fb" and "fills_as 3 fi" and "t \<in> set ts" and "u \<notin> set ts"
  shows "\<exists>m' m''. prefill_bulk fb (Resources ts) ep tmo m = Some m'
      \<and> t_type (m' t) = 2 \<and> t_endpoint (m' t) = addr ep \<and> t_dev_handle (m' t) = endpoint_devh ep
      \<and> t_buffer (m' t) = 0 \<and> t_length (m' t) = 0 \<and> t_callback (m' t) = None
      \<and> t_timeout (m' t) = ucast tmo \<and> m' u = m u
      \<and> prefill_interrupt fi (Resources ts) ep2 tmo2 m' = Some m''
      \<and> prefill_interrupt fi (Resources ts) ep2 tmo2 m = Some m''
      \<and> t_type (m'' t) = 3 \<and> t_endpoint (m'' t) = addr ep2"
proof -
  let ?f = "\<lambda>t. fb t (endpoint_devh ep) (addr ep) 0 0 None None (ucast tmo)"
  let ?g = "\<lambda>t. fi t (endpoint_devh ep2) (addr ep2) 0 0 None None (ucast tmo2)"
  have f: "?f (?f x) = ?f x" and g: "?g (?g x) = ?g x" and gf: "?g (?f x) = ?g x" for x
    using assms(1,2) by (simp_all add: fills_as_def)
  have 1: "prefill_bulk fb (Resources ts) ep tmo m = Some (upd_all ?f ts m)"
    unfolding prefill_bulk_def by (rule prefill_loop_resources) (rule f)
  have 2: "prefill_interrupt fi (Resources ts) ep2 tmo2 n = Some (upd_all ?g ts n)" for n
    unfolding prefill_interrupt_def by (rule prefill_loop_resources) (rule g)
  have 3: "upd_all ?g ts (upd_all ?f ts m) = upd_all ?g ts m"
    by (rule upd_all_absorb) (rule gf)
  show ?thesis
    unfolding 1 2 using assms by (simp add: 3) (simp add: fills_as_def)
qed

definition null_transfer :: libusb_transfer where
  "null_transfer = \<lparr>t_dev_handle = None, t_endpoint = 0, t_type = 0, t_timeout = 0, t_status = 0,
     t_length = 0, t_actual_length = 0, t_callback = None, t_user_data = None, t_buffer = 0,
     t_num_iso_packets = 0, t_iso_packet_desc = []\<rparr>"

definition fill_as :: "u8 \<Rightarrow> fill_fn" where
  "fill_as ty t h ep buf len cb ud tmo =
     t\<lparr>t_dev_handle := h, t_endpoint := ep, t_type := ty, t_timeout := tmo,
       t_buffer := buf, t_length := len, t_user_data := ud, t_callback := cb\<rparr>"

lemma fills_as_fill_as: "fills_as ty (fill_as ty)"
  by (simp add: fills_as_def fill_as_def)

theorem prefill_bulk_then_interrupt_witness:
  "\<exists>m'. prefill_bulk (fill_as 2) (Resources [4, 5]) (ep_out 2 (Pointer_Source (Raw_Pointer (Some 1))))
          0 (\<lambda>_. null_transfer) = Some m' \<and> t_type (m' 5) = 2 \<and> t_endpoint (m' 5) = 2
        \<and> m' 6 = null_transfer"
  using prefill_bulk_then_interrupt
    [OF fills_as_fill_as fills_as_fill_as, of 5 "[4, 5]" 6
      "ep_out 2 (Pointer_Source (Raw_Pointer (Some 1)))" 0 "\<lambda>_. null_transfer"
      "ep_out 2 (Pointer_Source (Raw_Pointer (Some 1)))" 0]
  by (auto simp: endpoint_defs)

text \<open>Where assertions are checked, \<open>prefill_control\<close> aborts for every endpoint: its two
  assertions ask for an OUT endpoint and for an IN endpoint of the same call.  Only where they are
  compiled out does it prefill.\<close>

theorem prefill_control_always_aborts:
  "prefill_control True fill s ep tmo m = Inl Assertion_Failed
   \<and> prefill_control False fill (Resource t) ep tmo m =
       Inr (m(t := fill (m t) (endpoint_devh ep) 0 None None (ucast tmo)))"
  by (auto simp: prefill_control_def COUSB_ASSERT_def prefill_loop_resource)

text \<open>A view made from N resources has size N, but as a range it is empty, because its \<open>end\<close> is
  its \<open>begin\<close>: cancelling or prefilling through a view touches no transfer, while the same calls on
  the sequence itself touch all of them.\<close>

theorem sequence_view_is_an_empty_range:
  "view_size (make_view (Resources ts)) = length ts
   \<and> cancel_transfer (View (make_view (Resources ts))) log = Some log
   \<and> prefill_bulk fill (View (make_view (Resources ts))) ep tmo m = Some m
   \<and> cancel_transfer (Resources ts) log = Some (log @ ts)"
  by (simp add: cancel_transfer_def prefill_bulk_def)

end
