(* ===== verification/Transfer_Stream.thy ===== *)
theory Transfer_Stream
  imports Operations
begin

text \<open>
  The two awaitables of the library stream a buffer sequence through a set of transfers and
  resume the coroutine when no transfer is left in flight.  This theory holds what they share:
  the world they act on (libusb's side of each transfer, the executor, the stop token), the
  events that drive them, and the interface \<open>transfer_stream\<close>: what each event may do to the
  counter \<open>in_flight\<close> and to the set of transfers libusb holds.  Resumption (at most once, never
  while a transfer is outstanding, always when no initial submission fails, never when one does)
  is proved here once, for both.
\<close>

section \<open>Buffers and the world\<close>

record buffer =
  buf_data :: address
  buf_size :: size_t

text \<open>
  \<open>outstanding\<close>: the transfers libusb has accepted and not completed yet; \<open>slog\<close>: every accepted
  submission, with the window of memory handed over; \<open>posts\<close>: how often the continuation was
  posted to the executor; \<open>stopped\<close> and \<open>cancels\<close>: whether the stop callback ran, and the
  transfers it called \<open>libusb_cancel_transfer\<close> on.
\<close>

record io_base =
  tfers :: tfer_store
  outstanding :: "tid set"
  slog :: "(tid \<times> address \<times> c_int) list"
  posts :: nat
  stopped :: bool
  cancels :: "tid list"

text \<open>What libusb writes into a transfer before it calls the callback.\<close>

record completion =
  c_status :: int
  c_actual_length :: c_int
  c_packets :: "iso_packet list"

definition deliver :: "completion \<Rightarrow> libusb_transfer \<Rightarrow> libusb_transfer" where
  "deliver c t = t\<lparr>t_status := c_status c, t_actual_length := c_actual_length c,
     t_iso_packet_desc := c_packets c\<rparr>"

definition libusb_complete :: "tid \<Rightarrow> completion \<Rightarrow> 'a io_base_scheme \<Rightarrow> 'a io_base_scheme" where
  "libusb_complete x c s =
     s\<lparr>tfers := (tfers s)(x := deliver c (tfers s x)), outstanding := outstanding s - {x}\<rparr>"

text \<open>A submission that returned \<open>LIBUSB_SUCCESS\<close>.\<close>

definition libusb_accept :: "tid \<Rightarrow> 'a io_base_scheme \<Rightarrow> 'a io_base_scheme" where
  "libusb_accept x s =
     s\<lparr>outstanding := insert x (outstanding s),
       slog := slog s @ [(x, t_buffer (tfers s x), t_length (tfers s x))]\<rparr>"

lemma libusb_simps [simp]:
  "tfers (libusb_accept x s) = tfers s"
  "outstanding (libusb_accept x s) = insert x (outstanding s)"
  "posts (libusb_accept x s) = posts s"
  "slog (libusb_complete x c s) = slog s"
  "outstanding (libusb_complete x c s) = outstanding s - {x}"
  "posts (libusb_complete x c s) = posts s"
  "stopped (libusb_accept x s) = stopped s"
  "stopped (libusb_complete x c s) = stopped s"
  "tfers (libusb_complete x c s) x = deliver c (tfers s x)"
  "y \<noteq> x \<Longrightarrow> tfers (libusb_complete x c s) y = tfers s y"
  by (simp_all add: libusb_accept_def libusb_complete_def)

lemma deliver_simps [simp]:
  "t_status (deliver c t) = c_status c"
  "t_actual_length (deliver c t) = c_actual_length c"
  "t_iso_packet_desc (deliver c t) = c_packets c"
  "t_type (deliver c t) = t_type t"
  "t_buffer (deliver c t) = t_buffer t"
  "t_length (deliver c t) = t_length t"
  "t_num_iso_packets (deliver c t) = t_num_iso_packets t"
  "t_callback (deliver c t) = t_callback t"
  "t_user_data (deliver c t) = t_user_data t"
  by (simp_all add: deliver_def)

text \<open>
  \<open>Submit rc\<close>: the next turn of the submission loop of \<open>await_suspend\<close>, where
  \<open>libusb_submit_transfer\<close> returns \<open>rc\<close>; \<open>Complete x c rc\<close>: libusb completes transfer \<open>x\<close> with
  \<open>c\<close> and calls the callback, in which a further \<open>libusb_submit_transfer\<close> (if the callback makes
  one) returns \<open>rc\<close>; \<open>Stop\<close>: the stop callback runs.  The submission loop runs on an executor
  thread while completions arrive on the event thread, so they interleave freely; completions
  among themselves do not, libusb calls all callbacks from the thread that handles its events.
\<close>

datatype io_event = Submit int | Complete tid completion int | Stop

fun submit_ok :: "io_event \<Rightarrow> bool" where
  "submit_ok (Submit rc) \<longleftrightarrow> rc = LIBUSB_SUCCESS"
| "submit_ok _ \<longleftrightarrow> True"

text \<open>The bytes a completion reports for a transfer that is not isochronous, and whether libusb
  reports it as completed.\<close>

fun event_bytes :: "io_event \<Rightarrow> size_t" where
  "event_bytes (Complete x c rc) = scast (c_actual_length c)"
| "event_bytes _ = 0"

fun event_completed :: "io_event \<Rightarrow> bool" where
  "event_completed (Complete x c rc) \<longleftrightarrow> c_status c = LIBUSB_TRANSFER_COMPLETED"
| "event_completed _ \<longleftrightarrow> True"

definition run_bytes :: "io_event list \<Rightarrow> size_t" where
  "run_bytes es = sum_list (map event_bytes es)"

text \<open>How \<open>await_suspend\<close> (with \<open>await_ready\<close> before it) leaves the coroutine.\<close>

datatype 's suspension = Not_Suspended 's | Suspended 's

text \<open>The window of memory a transfer is set up for, and the one a whole buffer asks for.\<close>

definition window :: "libusb_transfer \<Rightarrow> address \<times> c_int" where
  "window t = (t_buffer t, t_length t)"

definition buf_window :: "buffer \<Rightarrow> address \<times> c_int" where
  "buf_window b = (buf_data b, ucast (buf_size b))"

definition log_windows :: "'a io_base_scheme \<Rightarrow> (address \<times> c_int) list" where
  "log_windows s = map snd (slog s)"

lemma window_deliver [simp]: "window (deliver c t) = window t"
  by (simp add: window_def)

lemma log_windows_simps [simp]:
  "log_windows (libusb_accept x s) = log_windows s @ [window (tfers s x)]"
  "log_windows (libusb_complete x c s) = log_windows s"
  by (simp_all add: log_windows_def window_def libusb_accept_def libusb_complete_def)

text \<open>The view a coroutine works on: a range inside its array, of distinct transfers.\<close>

definition view_ok :: "sequence_view \<Rightarrow> bool" where
  "view_ok v \<longleftrightarrow> m_begin v \<le> m_end v \<and> m_end v \<le> length (sv_array v)
     \<and> distinct (sv_array v) \<and> length (sv_array v) < 2 ^ 64"

definition transfers_used :: "buffer list \<Rightarrow> sequence_view \<Rightarrow> nat" where
  "transfers_used bufs v = min (length bufs) (view_size v)"

definition used_tids :: "buffer list \<Rightarrow> sequence_view \<Rightarrow> tid list" where
  "used_tids bufs v = take (transfers_used bufs v) (drop (m_begin v) (sv_array v))"

lemma used_le_length [simp]: "transfers_used bufs v \<le> length bufs"
  by (simp add: transfers_used_def)

lemma used_tids_loop:
  "view_ok v \<Longrightarrow>
   iter_tids (sv_array v) (view_begin v) (view_end v + transfers_used bufs v) = Some (used_tids bufs v)"
  using iter_tids_range [of "m_begin v" "m_begin v + transfers_used bufs v" "sv_array v"]
  by (auto simp: view_begin_def view_end_def used_tids_def view_ok_def transfers_used_def
      view_size_def)

lemma used_tids_loop':
  "view_ok v \<Longrightarrow>
   iter_tids (sv_array v) (view_begin v) (view_begin v + transfers_used bufs v) = Some (used_tids bufs v)"
  using used_tids_loop [of v bufs] by (simp add: view_begin_def view_end_def)

lemma length_used_tids: "view_ok v \<Longrightarrow> length (used_tids bufs v) = transfers_used bufs v"
  by (auto simp: used_tids_def transfers_used_def view_size_def view_ok_def)

lemma distinct_used_tids: "view_ok v \<Longrightarrow> distinct (used_tids bufs v)"
  by (simp add: used_tids_def view_ok_def)

lemma unat_transfers_used: "view_ok v \<Longrightarrow> unat (of_nat (transfers_used bufs v) :: size_t) = transfers_used bufs v"
proof -
  assume "view_ok v"
  then have "transfers_used bufs v < 2 ^ 64"
    by (auto simp: view_ok_def transfers_used_def view_size_def)
  then show ?thesis by (simp add: unat_of_nat)
qed

lemma view_ok_resources: "distinct ts \<Longrightarrow> length ts < 2 ^ 64 \<Longrightarrow> view_ok (make_view (Resources ts))"
  by (simp add: view_ok_def make_view_def)

text \<open>
  Setting up the first transfers of a list, each for one of the first buffers, by a function
  \<open>f\<close> of the buffer and the transfer.
\<close>

fun prepare_all :: "(buffer \<Rightarrow> libusb_transfer \<Rightarrow> libusb_transfer) \<Rightarrow> tid list \<Rightarrow> buffer list
    \<Rightarrow> tfer_store \<Rightarrow> tfer_store" where
  "prepare_all f (x # xs) (b # bs) m = prepare_all f xs bs (m(x := f b (m x)))"
| "prepare_all f _ _ m = m"

lemma prepare_all_other: "x \<notin> set xs \<Longrightarrow> prepare_all f xs bs m x = m x"
  by (induction f xs bs m rule: prepare_all.induct) auto

lemma prepare_all_nth:
  "distinct xs \<Longrightarrow> i < length xs \<Longrightarrow> length xs \<le> length bs \<Longrightarrow>
   prepare_all f xs bs m (xs ! i) = f (bs ! i) (m (xs ! i))"
proof (induction f xs bs m arbitrary: i rule: prepare_all.induct)
  case (1 f x xs b bs m)
  show ?case
  proof (cases i)
    case 0
    then show ?thesis using 1 by (simp add: prepare_all_other)
  next
    case (Suc j)
    then have "xs ! j \<noteq> x" using 1 by (auto simp: in_set_conv_nth)
    with Suc 1 show ?thesis by (simp add: fun_upd_def)
  qed
qed auto

lemma prepare_all_windows:
  assumes "distinct xs" "length xs \<le> length bs"
  shows "map (\<lambda>x. g (prepare_all f xs bs m x)) xs = map2 (\<lambda>x b. g (f b (m x))) xs (take (length xs) bs)"
  by (rule nth_equalityI) (use assms in \<open>simp_all add: prepare_all_nth\<close>)

lemma prepare_all_in:
  assumes "x \<in> set xs" "distinct xs" "length xs \<le> length bs"
  shows "\<exists>b \<in> set bs. prepare_all f xs bs m x = f b (m x)"
proof -
  obtain i where "i < length xs" "x = xs ! i" using assms(1) by (auto simp: in_set_conv_nth)
  then have "prepare_all f xs bs m x = f (bs ! i) (m x)" "bs ! i \<in> set bs"
    using assms(2,3) by (simp_all add: prepare_all_nth)
  then show ?thesis by blast
qed

text \<open>Small concrete inputs, for the witnesses.\<close>

definition ex_view :: sequence_view where
  "ex_view = make_view (Resources [1, 2])"

definition ex_bufs :: "buffer list" where
  "ex_bufs = [\<lparr>buf_data = 100, buf_size = 10\<rparr>, \<lparr>buf_data = 200, buf_size = 10\<rparr>,
              \<lparr>buf_data = 300, buf_size = 10\<rparr>]"

definition ex_store :: "u8 \<Rightarrow> tfer_store" where
  "ex_store ty = (\<lambda>_. null_transfer\<lparr>t_type := ty, t_num_iso_packets := 1\<rparr>)"

definition ex_done :: "int \<Rightarrow> c_int \<Rightarrow> completion" where
  "ex_done st n = \<lparr>c_status = st, c_actual_length = n,
     c_packets = [\<lparr>ip_actual_length = 3, ip_status = 0\<rparr>]\<rparr>"

lemma ex_view_ok: "view_ok ex_view"
  unfolding ex_view_def by (rule view_ok_resources) simp_all

lemma ex_view_size: "0 < view_size ex_view"
  by (simp add: ex_view_def)

section \<open>The interface of a transfer stream\<close>

locale transfer_stream = machine step inv
  for step :: "io_event \<Rightarrow> 'a io_base_scheme \<Rightarrow> 'a io_base_scheme option"
    and inv :: "'a io_base_scheme \<Rightarrow> bool" +
  fixes in_flight :: "'a io_base_scheme \<Rightarrow> size_t"
    and to_submit :: "'a io_base_scheme \<Rightarrow> tid list"
    and submitting :: "'a io_base_scheme \<Rightarrow> bool"
  assumes submit_law:
      "inv s \<Longrightarrow> step (Submit rc) s = Some t \<Longrightarrow>
        submitting s \<and> in_flight t = in_flight s \<and> posts t = posts s
        \<and> (\<exists>x xs. to_submit s = x # xs
             \<and> (if rc = LIBUSB_SUCCESS
                then to_submit t = xs \<and> outstanding t = insert x (outstanding s) \<and> submitting t
                else to_submit t = x # xs \<and> outstanding t = outstanding s \<and> \<not> submitting t))"
    and complete_law:
      "inv s \<Longrightarrow> step (Complete x c rc) s = Some t \<Longrightarrow>
        x \<in> outstanding s \<and> to_submit t = to_submit s \<and> submitting t = submitting s
        \<and> (outstanding t = outstanding s \<and> in_flight t = in_flight s \<and> posts t = posts s
           \<or> outstanding t = outstanding s - {x} \<and> in_flight t = in_flight s - 1
             \<and> posts t = posts s + (if in_flight t = 0 then 1 else 0))"
    and stop_law:
      "inv s \<Longrightarrow> step Stop s = Some t \<Longrightarrow>
        to_submit t = to_submit s \<and> submitting t = submitting s \<and> outstanding t = outstanding s
        \<and> in_flight t = in_flight s \<and> posts t = posts s"
    and submit_enabled:
      "inv s \<Longrightarrow> submitting s \<Longrightarrow> to_submit s \<noteq> [] \<Longrightarrow> step (Submit rc) s \<noteq> None"
    and complete_enabled: "inv s \<Longrightarrow> x \<in> outstanding s \<Longrightarrow> step (Complete x c rc) s \<noteq> None"
begin

text \<open>
  \<open>in_flight\<close> counts the transfers libusb holds and those the submission loop has still to hand
  over; the continuation has been posted exactly if that count is zero.
\<close>

definition latch :: "'a io_base_scheme \<Rightarrow> bool" where
  "latch s \<longleftrightarrow> inv s \<and> finite (outstanding s) \<and> distinct (to_submit s)
     \<and> outstanding s \<inter> set (to_submit s) = {}
     \<and> unat (in_flight s) = card (outstanding s) + length (to_submit s)
     \<and> posts s = (if in_flight s = 0 then 1 else 0)"

lemma latch_submit: "latch s \<Longrightarrow> step (Submit rc) s = Some t \<Longrightarrow> latch t"
  using submit_law [of s rc t] step_inv [of s "Submit rc" t]
  by (auto simp: latch_def split: if_splits)

lemma latch_complete:
  assumes l: "latch s" and st: "step (Complete x c rc) s = Some t"
  shows "latch t"
proof -
  have i: "inv s" using l by (simp add: latch_def)
  note law = complete_law [OF i st]
  have x: "x \<in> outstanding s" and keep: "to_submit t = to_submit s" using law by auto
  have card: "card (outstanding s) = Suc (card (outstanding s - {x}))"
    using l x by (metis card_Suc_Diff1 latch_def)
  have count: "unat (in_flight s) = card (outstanding s) + length (to_submit s)"
    using l by (simp add: latch_def)
  then have nz: "in_flight s \<noteq> 0" using card by auto
  then have zero: "posts s = 0" using l by (auto simp: latch_def)
  have dec: "unat (in_flight s - 1) = card (outstanding s - {x}) + length (to_submit s)"
    using unat_dec [OF nz] count card by linarith
  show ?thesis using law l keep zero dec step_inv [OF i st] by (auto simp: latch_def)
qed

lemma latch_stop: "latch s \<Longrightarrow> step Stop s = Some t \<Longrightarrow> latch t"
  using stop_law [of s t] step_inv [of s Stop t] by (auto simp: latch_def)

lemma latch_step: "latch s \<Longrightarrow> step e s = Some t \<Longrightarrow> latch t"
  by (cases e) (auto intro: latch_submit latch_complete latch_stop)

sublocale latch_machine: machine step latch
  by unfold_locales (rule latch_step)

lemma latch_run: "latch s \<Longrightarrow> run step es s = Some t \<Longrightarrow> latch t"
  by (rule latch_machine.run_inv)

text \<open>At most one resumption, and none while libusb holds a transfer or one is to be handed over.\<close>

lemma latch_posts: "latch s \<Longrightarrow> posts s \<le> 1 \<and> (posts s = 1 \<longleftrightarrow> outstanding s = {} \<and> to_submit s = [])"
  by (auto simp: latch_def unat_eq_zero [symmetric] simp del: unat_eq_zero)

lemma step_cases:
  assumes "inv s" "step e s = Some t"
  obtains x xs rc where "e = Submit rc" "submitting s" "to_submit s = x # xs"
      "submitting t \<longleftrightarrow> rc = LIBUSB_SUCCESS" "to_submit t \<noteq> [] \<or> rc = LIBUSB_SUCCESS"
    | x c rc where "e = Complete x c rc" "x \<in> outstanding s" "to_submit t = to_submit s"
      "submitting t = submitting s"
    | "e = Stop" "to_submit t = to_submit s" "submitting t = submitting s"
proof (cases e)
  case (Submit rc)
  then show ?thesis using that(1) submit_law [OF assms(1)] assms(2) by (fastforce split: if_splits)
next
  case (Complete x c rc)
  then show ?thesis using that(2) complete_law [OF assms(1)] assms(2) by blast
next
  case Stop
  then show ?thesis using that(3) stop_law [OF assms(1)] assms(2) by blast
qed

lemma posted_final:
  assumes "latch s" "posts s = 1" "e \<noteq> Stop"
  shows "step e s = None"
proof (rule ccontr)
  assume "step e s \<noteq> None"
  then obtain t where t: "step e s = Some t" by auto
  have "inv s" using assms(1) by (simp add: latch_def)
  then show False
    using latch_posts [OF assms(1)] assms(2,3) by (cases rule: step_cases [OF _ t]) auto
qed

text \<open>The submission loop has broken off.\<close>

definition wedged :: "'a io_base_scheme \<Rightarrow> bool" where
  "wedged s \<longleftrightarrow> \<not> submitting s \<and> to_submit s \<noteq> []"

lemma wedged_step: "inv s \<Longrightarrow> wedged s \<Longrightarrow> step e s = Some t \<Longrightarrow> wedged t"
  by (cases rule: step_cases [of s e t]) (auto simp: wedged_def)

lemma wedged_run: "inv s \<Longrightarrow> wedged s \<Longrightarrow> run step es s = Some t \<Longrightarrow> wedged t"
  by (rule run_keeps [where ok = "\<lambda>_. True"]) (auto intro: wedged_step simp: list_all_iff)

lemma failed_submit_wedges:
  "inv s \<Longrightarrow> step (Submit rc) s = Some t \<Longrightarrow> rc \<noteq> LIBUSB_SUCCESS \<Longrightarrow> wedged t"
  using submit_law [of s rc t] by (auto simp: wedged_def)

lemma wedged_never_posts: "latch s \<Longrightarrow> wedged s \<Longrightarrow> posts s = 0"
  using latch_posts [of s] by (auto simp: wedged_def)

text \<open>Once an initial submission has failed, no continuation of the run resumes the coroutine.\<close>

lemma failed_submit_never_posts:
  assumes "latch s" "run step (es @ Submit rc # fs) s = Some t" "rc \<noteq> LIBUSB_SUCCESS"
  shows "posts t = 0"
proof -
  obtain u v where u: "run step es s = Some u" and v: "step (Submit rc) u = Some v"
    and t: "run step fs v = Some t"
    using assms(2) by (auto simp: run_append split: option.splits)
  have "latch u" using assms(1) u by (rule latch_run)
  then have lv: "latch v" using v by (rule latch_step)
  have i: "inv u" "inv v" using \<open>latch u\<close> lv by (simp_all add: latch_def)
  have "latch t" using lv t by (rule latch_run)
  moreover have "wedged t" using wedged_run [OF i(2) failed_submit_wedges [OF i(1) v assms(3)] t] .
  ultimately show ?thesis by (rule wedged_never_posts)
qed

lemma submitting_run:
  "inv s \<Longrightarrow> submitting s \<Longrightarrow> run step es s = Some t \<Longrightarrow> list_all submit_ok es \<Longrightarrow> submitting t"
proof (rule run_keeps [where ok = submit_ok])
  fix e u v
  assume u: "inv u" "submitting u" "submit_ok e" "step e u = Some v"
  show "submitting v" by (rule step_cases [OF u(1,4)]) (use u(2,3) in auto)
qed

text \<open>
  A run in which every initial submission succeeds and that cannot go on (libusb holds nothing
  that could complete, the loop has nothing to submit) has resumed the coroutine.
\<close>

lemma maximal_run_posts:
  assumes "latch s" "submitting s" "run step es s = Some t" "list_all submit_ok es"
    and stuck: "\<And>e. e \<noteq> Stop \<Longrightarrow> step e t = None"
  shows "posts t = 1"
proof -
  have l: "latch t" using assms(1,3) by (rule latch_run)
  then have i: "inv t" by (simp add: latch_def)
  have "submitting t" using assms(1,2,3,4) submitting_run by (auto simp: latch_def)
  then have "to_submit t = []" using submit_enabled [OF i, of 0] stuck by fastforce
  moreover have "outstanding t = {}" using complete_enabled [OF i] stuck by fastforce
  ultimately show ?thesis using latch_posts [OF l] by auto
qed

end

end
