(* ===== verification/Complete_IO.thy ===== *)
theory Complete_IO
  imports Transfer_Stream "HOL-Library.AList"
begin

text \<open>
  Complete I/O: \<open>transfer/detail/complete_sequence_awaitable.hpp\<close> and the coroutine
  \<open>complete_submit\<close> of \<open>transfer/complete_io.hpp\<close>.  Each transfer has a progress record in the map
  \<open>states\<close> and is submitted again, at most \<open>single_transfer_limit\<close> bytes at a time, until its
  buffer is full; then it takes the next buffer.  This theory holds the model, its instance of
  \<open>transfer_stream\<close> and the properties that follow from it; the accounting of bytes is in
  \<open>Complete_Data\<close>.
\<close>

section \<open>State\<close>

record transfer_progress =
  pg_ptr :: address
  pg_expected :: size_t
  pg_total :: size_t

definition initial_progress :: transfer_progress where
  "initial_progress = \<lparr>pg_ptr = 0, pg_expected = 0, pg_total = 0\<rparr>"

text \<open>
  \<open>ca_states\<close> is the \<open>unordered_map\<close> from transfers to progress records, as an association list
  without duplicates; \<open>ca_threw\<close>: the callback left by the exception of \<open>states.at\<close>.  The member
  \<open>err_idx\<close> of the source is never read or written and is left out.
\<close>

record complete_await = io_base +
  ca_self :: nat
  ca_view :: sequence_view
  ca_bufs :: "buffer list"
  ca_buf_current :: nat
  ca_submission_size :: nat
  ca_limit :: size_t
  ca_states :: "(tid \<times> transfer_progress) list"
  ca_ec :: error_code
  ca_in_flight :: size_t
  ca_to_submit :: "tid list"
  ca_submitting :: bool
  ca_threw :: bool

definition initial_complete_await ::
  "nat \<Rightarrow> sequence_view \<Rightarrow> buffer list \<Rightarrow> nat \<Rightarrow> size_t \<Rightarrow> tfer_store \<Rightarrow> complete_await" where
  "initial_complete_await self v bufs n limit m =
     \<lparr>tfers = m, outstanding = {}, slog = [], posts = 0, stopped = False, cancels = [],
      ca_self = self, ca_view = v, ca_bufs = bufs, ca_buf_current = 0, ca_submission_size = n,
      ca_limit = limit, ca_states = [], ca_ec = ec_none, ca_in_flight = 0, ca_to_submit = [],
      ca_submitting = False, ca_threw = False\<rparr>"

text \<open>The constructor's assertions, where assertions are checked.\<close>

definition complete_sequence_awaitable ::
  "bool \<Rightarrow> nat \<Rightarrow> sequence_view \<Rightarrow> buffer list \<Rightarrow> nat \<Rightarrow> size_t \<Rightarrow> tfer_store
     \<Rightarrow> aborted + complete_await" where
  "complete_sequence_awaitable checked self v bufs n limit m =
     COUSB_ASSERT checked (n > 0)
       (COUSB_ASSERT checked (limit > 0)
         (COUSB_ASSERT checked (n \<le> view_size v)
           (COUSB_ASSERT checked (n \<le> length bufs)
             (Inr (initial_complete_await self v bufs n limit m)))))"

section \<open>The completion callback\<close>

definition complete_resume_on_zero :: "complete_await \<Rightarrow> complete_await" where
  "complete_resume_on_zero s = (if ca_in_flight s = 0 then s\<lparr>posts := posts s + 1\<rparr> else s)"

fun iso_subtotal :: "iso_packet list \<Rightarrow> size_t \<Rightarrow> size_t" where
  "iso_subtotal [] sub = sub"
| "iso_subtotal (p # ps) sub = iso_subtotal ps (sub + ucast (ip_actual_length p))"

text \<open>The second loop: it returns the status of the packet it is at when it finds that the status of
  the transfer is not completed.\<close>

fun complete_iso_status :: "int \<Rightarrow> iso_packet list \<Rightarrow> int option" where
  "complete_iso_status st [] = None"
| "complete_iso_status st (p # ps) =
     (if st \<noteq> LIBUSB_TRANSFER_COMPLETED then Some (ip_status p) else complete_iso_status st ps)"

definition complete_packets :: "libusb_transfer \<Rightarrow> iso_packet list" where
  "complete_packets t = take (nat (t_num_iso_packets t)) (t_iso_packet_desc t)"

definition subtotal_of :: "libusb_transfer \<Rightarrow> size_t" where
  "subtotal_of t =
     (if t_type t = LIBUSB_TRANSFER_TYPE_ISOCHRONOUS then iso_subtotal (complete_packets t) 0
      else scast (t_actual_length t))"

definition iso_error_of :: "libusb_transfer \<Rightarrow> int option" where
  "iso_error_of t =
     (if t_type t = LIBUSB_TRANSFER_TYPE_ISOCHRONOUS
      then complete_iso_status (t_status t) (complete_packets t) else None)"

text \<open>The transfer, its progress record and the window for the next submission.\<close>

definition set_window :: "tid \<Rightarrow> transfer_progress \<Rightarrow> size_t \<Rightarrow> complete_await \<Rightarrow> complete_await" where
  "set_window x p len s =
     s\<lparr>ca_states := AList.update x p (ca_states s),
       tfers := (tfers s)(x := (tfers s x)\<lparr>t_buffer := pg_ptr p, t_length := ucast len\<rparr>)\<rparr>"

definition complete_resubmit :: "tid \<Rightarrow> int \<Rightarrow> complete_await \<Rightarrow> complete_await" where
  "complete_resubmit x rc s =
     (if rc \<noteq> LIBUSB_SUCCESS then complete_resume_on_zero (s\<lparr>ca_ec := make_usb_error_code rc\<rparr>)
      else (libusb_accept x s)\<lparr>ca_in_flight := ca_in_flight s + 1\<rparr>)"

definition complete_transfer_callback :: "tid \<Rightarrow> int \<Rightarrow> complete_await \<Rightarrow> complete_await" where
  "complete_transfer_callback x rc s0 =
     (let s = s0\<lparr>ca_in_flight := ca_in_flight s0 - 1\<rparr> in
      if ec_bool (ca_ec s) then complete_resume_on_zero s
      else
        (case map_of (ca_states s) x of
           None \<Rightarrow> s\<lparr>ca_threw := True\<rparr>
         | Some prg0 \<Rightarrow>
             let t = tfers s x;
                 subtotal = subtotal_of t;
                 prg = prg0\<lparr>pg_total := pg_total prg0 + subtotal\<rparr>;
                 s = s\<lparr>ca_states := AList.update x prg (ca_states s)\<rparr>
             in
             (case iso_error_of t of
                Some st \<Rightarrow> complete_resume_on_zero (s\<lparr>ca_ec := make_transfer_status st\<rparr>)
              | None \<Rightarrow>
                  if t_status t \<noteq> LIBUSB_TRANSFER_COMPLETED
                  then complete_resume_on_zero (s\<lparr>ca_ec := make_transfer_status (t_status t)\<rparr>)
                  else if pg_total prg \<ge> pg_expected prg then
                    (if ca_buf_current s = length (ca_bufs s) then complete_resume_on_zero s
                     else
                       let buf = ca_bufs s ! ca_buf_current s;
                           s = s\<lparr>ca_buf_current := ca_buf_current s + 1\<rparr>;
                           prg = prg\<lparr>pg_ptr := buf_data buf, pg_expected := buf_size buf\<rparr>
                       in complete_resubmit x rc
                            (set_window x prg (min (pg_expected prg) (ca_limit s)) s))
                  else
                    let prg = prg\<lparr>pg_ptr := pg_ptr prg + subtotal\<rparr>
                    in complete_resubmit x rc
                         (set_window x prg (min (pg_expected prg - pg_total prg) (ca_limit s)) s))))"

section \<open>Awaiting\<close>

definition complete_await_ready :: "complete_await \<Rightarrow> bool" where
  "complete_await_ready s \<longleftrightarrow> ca_buf_current s \<ge> length (ca_bufs s)"

text \<open>
  The first loop of \<open>await_suspend\<close>; \<open>states[tfer]\<close> creates a progress record that is not there.
\<close>

definition complete_prepare :: "nat \<Rightarrow> size_t \<Rightarrow> buffer \<Rightarrow> libusb_transfer \<Rightarrow> libusb_transfer" where
  "complete_prepare self limit b t =
     t\<lparr>t_buffer := buf_data b, t_length := ucast (min (buf_size b) limit),
       t_user_data := Some self, t_callback := Some Complete_Callback\<rparr>"

definition progress_at :: "tid \<Rightarrow> (tid \<times> transfer_progress) list \<Rightarrow> transfer_progress" where
  "progress_at x al = (case map_of al x of None \<Rightarrow> initial_progress | Some p \<Rightarrow> p)"

fun complete_fill :: "tid list \<Rightarrow> complete_await \<Rightarrow> complete_await option" where
  "complete_fill [] s = Some s"
| "complete_fill (x # xs) s =
     (if ca_buf_current s < length (ca_bufs s) then
        let buf = ca_bufs s ! ca_buf_current s;
            prg = (progress_at x (ca_states s))\<lparr>pg_ptr := buf_data buf, pg_expected := buf_size buf\<rparr>
        in complete_fill xs
             (s\<lparr>ca_buf_current := ca_buf_current s + 1,
                tfers := (tfers s)(x := complete_prepare (ca_self s) (ca_limit s) buf (tfers s x)),
                ca_states := AList.update x prg (ca_states s)\<rparr>)
      else None)"

definition complete_await_suspend :: "bool \<Rightarrow> complete_await \<Rightarrow> complete_await suspension option" where
  "complete_await_suspend stop_requested s =
     (if stop_requested
      then Some (Not_Suspended (s\<lparr>ca_ec := make_transfer_status (status_value St_cancelled)\<rparr>))
      else
        (case iter_tids (sv_array (ca_view s)) (view_begin (ca_view s))
                (view_end (ca_view s) + ca_submission_size s) of
           None \<Rightarrow> None
         | Some xs \<Rightarrow>
             map_option (\<lambda>s. Suspended (s\<lparr>ca_in_flight := of_nat (ca_submission_size s),
                                          ca_to_submit := xs, ca_submitting := True\<rparr>))
               (complete_fill xs s)))"

definition sum_totals :: "(tid \<times> transfer_progress) list \<Rightarrow> size_t" where
  "sum_totals al = (\<Sum>(x, p)\<leftarrow>al. pg_total p)"

definition complete_await_resume :: "complete_await \<Rightarrow> error_code \<times> size_t" where
  "complete_await_resume s = (ca_ec s, sum_totals (ca_states s))"

text \<open>The stop callback of \<open>complete_submit\<close>, and \<open>complete_submit\<close> up to its suspension.\<close>

definition complete_stop :: "complete_await \<Rightarrow> complete_await option" where
  "complete_stop s =
     map_option (\<lambda>xs. s\<lparr>stopped := True, cancels := cancels s @ xs\<rparr>)
       (iter_tids (sv_array (ca_view s)) (view_begin (ca_view s))
          (view_begin (ca_view s) + transfers_used (ca_bufs s) (ca_view s)))"

definition complete_submit ::
  "bool \<Rightarrow> bool \<Rightarrow> nat \<Rightarrow> sequence_view \<Rightarrow> buffer list \<Rightarrow> size_t \<Rightarrow> tfer_store
     \<Rightarrow> aborted + complete_await suspension" where
  "complete_submit checked stop_requested self v bufs limit m =
     (let n = transfers_used bufs v in
      (case of_loop (if stop_requested then complete_stop (initial_complete_await self v bufs n limit m)
                     else Some (initial_complete_await self v bufs n limit m)) of
         Inl a \<Rightarrow> Inl a
       | Inr s \<Rightarrow>
           (case complete_sequence_awaitable checked self v bufs n limit m of
              Inl a \<Rightarrow> Inl a
            | Inr _ \<Rightarrow>
                if complete_await_ready s then Inr (Not_Suspended s)
                else of_loop (complete_await_suspend stop_requested s))))"

section \<open>The machine\<close>

fun complete_step :: "io_event \<Rightarrow> complete_await \<Rightarrow> complete_await option" where
  "complete_step (Submit rc) s =
     (case ca_to_submit s of
        [] \<Rightarrow> None
      | x # xs \<Rightarrow>
          if \<not> ca_submitting s then None
          else if rc \<noteq> LIBUSB_SUCCESS
          then Some (s\<lparr>ca_ec := make_transfer_status rc, ca_submitting := False\<rparr>)
          else Some ((libusb_accept x s)\<lparr>ca_to_submit := xs\<rparr>))"
| "complete_step (Complete x c rc) s =
     (if x \<in> outstanding s
      then Some (complete_transfer_callback x rc (libusb_complete x c s)) else None)"
| "complete_step Stop s = (if stopped s then None else complete_stop s)"

section \<open>The stream interface\<close>

lemma complete_resume_simps [simp]:
  "ca_to_submit (complete_resume_on_zero s) = ca_to_submit s"
  "ca_submitting (complete_resume_on_zero s) = ca_submitting s"
  "ca_in_flight (complete_resume_on_zero s) = ca_in_flight s"
  "ca_ec (complete_resume_on_zero s) = ca_ec s"
  "ca_states (complete_resume_on_zero s) = ca_states s"
  "ca_buf_current (complete_resume_on_zero s) = ca_buf_current s"
  "ca_bufs (complete_resume_on_zero s) = ca_bufs s"
  "ca_view (complete_resume_on_zero s) = ca_view s"
  "ca_self (complete_resume_on_zero s) = ca_self s"
  "ca_limit (complete_resume_on_zero s) = ca_limit s"
  "ca_threw (complete_resume_on_zero s) = ca_threw s"
  "outstanding (complete_resume_on_zero s) = outstanding s"
  "tfers (complete_resume_on_zero s) = tfers s"
  "slog (complete_resume_on_zero s) = slog s"
  "stopped (complete_resume_on_zero s) = stopped s"
  "cancels (complete_resume_on_zero s) = cancels s"
  "posts (complete_resume_on_zero s) = posts s + (if ca_in_flight s = 0 then 1 else 0)"
  by (simp_all add: complete_resume_on_zero_def)

lemma complete_libusb_simps [simp]:
  "ca_to_submit (libusb_accept x s) = ca_to_submit s"
  "ca_submitting (libusb_accept x s) = ca_submitting s"
  "ca_in_flight (libusb_accept x s) = ca_in_flight s"
  "ca_ec (libusb_accept x s) = ca_ec s"
  "ca_states (libusb_accept x s) = ca_states s"
  "ca_buf_current (libusb_accept x s) = ca_buf_current s"
  "ca_bufs (libusb_accept x s) = ca_bufs s"
  "ca_view (libusb_accept x s) = ca_view s"
  "ca_self (libusb_accept x s) = ca_self s"
  "ca_limit (libusb_accept x s) = ca_limit s"
  "ca_threw (libusb_accept x s) = ca_threw s"
  "ca_to_submit (libusb_complete x c s) = ca_to_submit s"
  "ca_submitting (libusb_complete x c s) = ca_submitting s"
  "ca_in_flight (libusb_complete x c s) = ca_in_flight s"
  "ca_ec (libusb_complete x c s) = ca_ec s"
  "ca_states (libusb_complete x c s) = ca_states s"
  "ca_buf_current (libusb_complete x c s) = ca_buf_current s"
  "ca_bufs (libusb_complete x c s) = ca_bufs s"
  "ca_view (libusb_complete x c s) = ca_view s"
  "ca_self (libusb_complete x c s) = ca_self s"
  "ca_limit (libusb_complete x c s) = ca_limit s"
  "ca_threw (libusb_complete x c s) = ca_threw s"
  by (simp_all add: libusb_accept_def libusb_complete_def)

lemma set_window_simps [simp]:
  "ca_to_submit (set_window x p n s) = ca_to_submit s"
  "ca_submitting (set_window x p n s) = ca_submitting s"
  "ca_in_flight (set_window x p n s) = ca_in_flight s"
  "ca_ec (set_window x p n s) = ca_ec s"
  "ca_states (set_window x p n s) = AList.update x p (ca_states s)"
  "ca_buf_current (set_window x p n s) = ca_buf_current s"
  "ca_bufs (set_window x p n s) = ca_bufs s"
  "ca_view (set_window x p n s) = ca_view s"
  "ca_self (set_window x p n s) = ca_self s"
  "ca_limit (set_window x p n s) = ca_limit s"
  "ca_threw (set_window x p n s) = ca_threw s"
  "outstanding (set_window x p n s) = outstanding s"
  "slog (set_window x p n s) = slog s"
  "stopped (set_window x p n s) = stopped s"
  "cancels (set_window x p n s) = cancels s"
  "posts (set_window x p n s) = posts s"
  "y \<noteq> x \<Longrightarrow> tfers (set_window x p n s) y = tfers s y"
  "tfers (set_window x p n s) x = (tfers s x)\<lparr>t_buffer := pg_ptr p, t_length := ucast n\<rparr>"
  by (simp_all add: set_window_def)

lemmas complete_callback_unfold =
  complete_transfer_callback_def complete_resubmit_def Let_def

text \<open>Every transfer in use has a progress record, so \<open>states.at\<close> does not throw.\<close>

definition complete_ok :: "complete_await \<Rightarrow> bool" where
  "complete_ok s \<longleftrightarrow> ca_buf_current s \<le> length (ca_bufs s) \<and> \<not> ca_threw s
     \<and> outstanding s \<union> set (ca_to_submit s) \<subseteq> dom (map_of (ca_states s))"

abbreviation complete_after :: "tid \<Rightarrow> completion \<Rightarrow> int \<Rightarrow> complete_await \<Rightarrow> complete_await" where
  "complete_after x c rc s \<equiv> complete_transfer_callback x rc (libusb_complete x c s)"

lemma complete_callback_law:
  fixes s :: complete_await and c :: completion and rc :: int
  assumes "x \<in> outstanding s" "map_of (ca_states s) x \<noteq> None"
  defines "t \<equiv> complete_after x c rc s"
  shows "ca_to_submit t = ca_to_submit s \<and> ca_submitting t = ca_submitting s \<and> ca_threw t = ca_threw s
    \<and> (outstanding t = outstanding s \<and> ca_in_flight t = ca_in_flight s \<and> posts t = posts s
       \<or> outstanding t = outstanding s - {x} \<and> ca_in_flight t = ca_in_flight s - 1
         \<and> posts t = posts s + (if ca_in_flight t = 0 then 1 else 0))"
  using assms(1,2) unfolding t_def complete_callback_unfold
  by (auto simp del: AList.update.simps split: option.splits)

lemma complete_callback_states:
  "dom (map_of (ca_states s)) \<subseteq> dom (map_of (ca_states (complete_after x c rc s)))"
  unfolding complete_callback_unfold
  by (auto simp: update_conv' split: option.splits)

lemma complete_callback_iterator:
  "ca_buf_current s \<le> length (ca_bufs s) \<Longrightarrow>
   ca_buf_current (complete_after x c rc s) \<le> length (ca_bufs (complete_after x c rc s))"
  unfolding complete_callback_unfold by (auto split: option.splits)

lemma complete_ok_record: "complete_ok s \<Longrightarrow> x \<in> outstanding s \<Longrightarrow> map_of (ca_states s) x \<noteq> None"
  by (auto simp: complete_ok_def dom_def)

lemma complete_step_ok:
  assumes ok: "complete_ok s" and st: "complete_step e s = Some t"
  shows "complete_ok t"
proof (cases e)
  case (Submit rc)
  then obtain x xs where "ca_to_submit s = x # xs"
    "t = s\<lparr>ca_ec := make_transfer_status rc, ca_submitting := False\<rparr>
       \<or> t = (libusb_accept x s)\<lparr>ca_to_submit := xs\<rparr>"
    using st by (auto split: list.splits if_splits)
  then show ?thesis using ok by (auto simp: complete_ok_def)
next
  case (Complete x c rc)
  then have x: "x \<in> outstanding s" and t: "t = complete_after x c rc s"
    using st by (auto split: if_splits)
  have law: "outstanding t \<subseteq> outstanding s \<and> ca_to_submit t = ca_to_submit s \<and> ca_threw t = ca_threw s"
    unfolding t using complete_callback_law [OF x complete_ok_record [OF ok x], of rc c] by blast
  have "outstanding t \<union> set (ca_to_submit t) \<subseteq> outstanding s \<union> set (ca_to_submit s)"
    using law by auto
  also have "\<dots> \<subseteq> dom (map_of (ca_states s))" using ok by (simp add: complete_ok_def)
  also have "\<dots> \<subseteq> dom (map_of (ca_states t))" unfolding t by (rule complete_callback_states)
  finally show ?thesis
    using ok law complete_callback_iterator [of s x rc c] by (simp add: complete_ok_def t)
next
  case Stop
  then show ?thesis using ok st by (auto simp: complete_ok_def complete_stop_def split: if_splits)
qed

interpretation complete_stream:
  transfer_stream complete_step complete_ok ca_in_flight ca_to_submit ca_submitting
proof (unfold_locales, goal_cases)
  case (1 s e t)
  then show ?case by (rule complete_step_ok)
next
  case (2 s rc t)
  then show ?case by (auto split: list.splits if_splits)
next
  case (3 s x c rc t)
  then have x: "x \<in> outstanding s" and t: "t = complete_after x c rc s"
    by (auto split: if_splits)
  show ?case
    unfolding t using complete_callback_law [OF x complete_ok_record [OF 3(1) x]] x by blast
next
  case (4 s t)
  then show ?case by (auto simp: complete_stop_def split: if_splits)
next
  case (5 s rc)
  then show ?case by (auto split: list.splits)
next
  case (6 s x c rc)
  then show ?case by simp
qed

end
