(* ===== verification/Complete_Data.thy ===== *)
theory Complete_Data
  imports Complete_IO
begin

text \<open>
  Complete I/O, continued: where the bytes go.  The start state of a suspended operation, the
  invariant that relates the progress records to the buffers handed out (every window given to
  libusb lies inside a buffer, no transfer counts more bytes than the buffers it was given hold),
  and the properties of the operation: resumption, memory safety, the total it reports,
  termination, and the three ways in which it does not keep its promise.
\<close>

section \<open>The start state\<close>

lemma update_fresh: "k \<notin> fst ` set al \<Longrightarrow> AList.update k v al = al @ [(k, v)]"
  by (induction al) auto

lemma update_keys_same: "k \<in> set (map fst al) \<Longrightarrow> map fst (AList.update k v al) = map fst al"
  by (simp add: update_keys)

lemma map_of_update [simp]: "map_of (AList.update k v al) = (map_of al)(k \<mapsto> v)"
  by (simp add: update_conv')

definition fresh_progress :: "buffer \<Rightarrow> transfer_progress" where
  "fresh_progress b = \<lparr>pg_ptr = buf_data b, pg_expected = buf_size b, pg_total = 0\<rparr>"

lemma complete_fill_eq:
  "ca_buf_current s + length xs \<le> length (ca_bufs s) \<Longrightarrow> distinct xs \<Longrightarrow>
   set xs \<inter> fst ` set (ca_states s) = {} \<Longrightarrow>
   complete_fill xs s = Some (s\<lparr>ca_buf_current := ca_buf_current s + length xs,
     tfers := prepare_all (complete_prepare (ca_self s) (ca_limit s)) xs
                (drop (ca_buf_current s) (ca_bufs s)) (tfers s),
     ca_states := ca_states s @ zip xs (map fresh_progress (drop (ca_buf_current s) (ca_bufs s)))\<rparr>)"
proof (induction xs arbitrary: s)
  case Nil
  then show ?case by simp
next
  case (Cons x xs)
  let ?b = "ca_bufs s ! ca_buf_current s"
  let ?s = "s\<lparr>ca_buf_current := ca_buf_current s + 1,
     tfers := (tfers s)(x := complete_prepare (ca_self s) (ca_limit s) ?b (tfers s x)),
     ca_states := ca_states s @ [(x, fresh_progress ?b)]\<rparr>"
  have d: "drop (ca_buf_current s) (ca_bufs s) = ?b # drop (ca_buf_current s + 1) (ca_bufs s)"
    using Cons.prems by (simp add: Cons_nth_drop_Suc)
  have "map_of (ca_states s) x = None" using Cons.prems by (auto simp: map_of_eq_None_iff)
  then have "complete_fill (x # xs) s = complete_fill xs ?s"
    using Cons.prems
    by (simp add: Let_def update_fresh progress_at_def fresh_progress_def initial_progress_def)
  moreover have "set xs \<inter> fst ` set (ca_states ?s) = {}" "distinct xs"
    "ca_buf_current ?s + length xs \<le> length (ca_bufs ?s)" using Cons.prems by auto
  ultimately show ?case using Cons.IH [of ?s] d by (simp add: fun_upd_def)
qed

definition complete_start ::
  "nat \<Rightarrow> sequence_view \<Rightarrow> buffer list \<Rightarrow> size_t \<Rightarrow> tfer_store \<Rightarrow> complete_await" where
  "complete_start self v bufs limit m =
     (let n = transfers_used bufs v; xs = used_tids bufs v in
      (initial_complete_await self v bufs n limit m)
        \<lparr>tfers := prepare_all (complete_prepare self limit) xs bufs m, ca_buf_current := n,
         ca_states := zip xs (map fresh_progress bufs), ca_in_flight := of_nat n,
         ca_to_submit := xs, ca_submitting := True\<rparr>)"

lemma complete_start_simps [simp]:
  "ca_self (complete_start self v bufs limit m) = self"
  "ca_view (complete_start self v bufs limit m) = v"
  "ca_bufs (complete_start self v bufs limit m) = bufs"
  "ca_limit (complete_start self v bufs limit m) = limit"
  "ca_buf_current (complete_start self v bufs limit m) = transfers_used bufs v"
  "ca_ec (complete_start self v bufs limit m) = ec_none"
  "ca_states (complete_start self v bufs limit m) = zip (used_tids bufs v) (map fresh_progress bufs)"
  "ca_in_flight (complete_start self v bufs limit m) = of_nat (transfers_used bufs v)"
  "ca_to_submit (complete_start self v bufs limit m) = used_tids bufs v"
  "ca_submitting (complete_start self v bufs limit m)"
  "\<not> ca_threw (complete_start self v bufs limit m)"
  "outstanding (complete_start self v bufs limit m) = {}"
  "slog (complete_start self v bufs limit m) = []"
  "posts (complete_start self v bufs limit m) = 0"
  "stopped (complete_start self v bufs limit m) = False"
  "cancels (complete_start self v bufs limit m) = []"
  "tfers (complete_start self v bufs limit m) =
     prepare_all (complete_prepare self limit) (used_tids bufs v) bufs m"
  by (simp_all add: complete_start_def initial_complete_await_def Let_def)

lemma complete_submit_Suspended:
  assumes "view_ok v"
  shows "complete_submit checked stop self v bufs limit m = Inr (Suspended s) \<longleftrightarrow>
     bufs \<noteq> [] \<and> \<not> stop \<and> (checked \<longrightarrow> 0 < view_size v \<and> 0 < limit) \<and> s = complete_start self v bufs limit m"
proof -
  let ?n = "transfers_used bufs v"
  let ?s = "initial_complete_await self v bufs ?n limit m"
  have fill: "complete_fill (used_tids bufs v) ?s = Some (?s\<lparr>ca_buf_current := ?n,
      tfers := prepare_all (complete_prepare self limit) (used_tids bufs v) bufs m,
      ca_states := zip (used_tids bufs v) (map fresh_progress bufs)\<rparr>)"
    using complete_fill_eq [of ?s "used_tids bufs v"]
    by (simp add: initial_complete_await_def length_used_tids [OF assms] distinct_used_tids [OF assms])
  have suspend: "complete_await_suspend False ?s = Some (Suspended (complete_start self v bufs limit m))"
    using fill used_tids_loop [OF assms, of bufs]
    by (simp add: complete_await_suspend_def complete_start_def Let_def initial_complete_await_def)
  have stopt: "\<exists>xs. complete_stop ?s = Some (?s\<lparr>stopped := True, cancels := xs\<rparr>)"
    using used_tids_loop' [OF assms, of bufs]
    by (auto simp: complete_stop_def initial_complete_await_def)
  have ready: "complete_await_ready ?s \<longleftrightarrow> bufs = []"
    by (simp add: complete_await_ready_def initial_complete_await_def)
  have pos: "0 < ?n \<longleftrightarrow> bufs \<noteq> [] \<and> 0 < view_size v" by (auto simp: transfers_used_def)
  have le: "?n \<le> view_size v" by (simp add: transfers_used_def)
  show ?thesis
    using stopt ready suspend pos le
    by (auto simp: complete_submit_def Let_def complete_sequence_awaitable_def COUSB_ASSERT_def
        complete_await_ready_def initial_complete_await_def complete_await_suspend_def
        word_gt_0 split: if_splits)
qed

lemma complete_start_keys:
  "view_ok v \<Longrightarrow> map fst (zip (used_tids bufs v) (map fresh_progress bufs)) = used_tids bufs v"
  by (rule map_fst_zip_take [THEN trans]) (simp add: length_used_tids)

lemma complete_start_latch:
  assumes "view_ok v" "bufs \<noteq> []" "0 < view_size v"
  shows "complete_stream.latch (complete_start self v bufs limit m)"
proof -
  let ?n = "transfers_used bufs v"
  have n: "unat (of_nat ?n :: size_t) = ?n" using assms(1) by (rule unat_transfers_used)
  moreover have "0 < ?n" using assms by (simp add: transfers_used_def)
  ultimately have "(of_nat ?n :: size_t) \<noteq> 0" by (metis less_nat_zero_code unat_0)
  moreover have "complete_ok (complete_start self v bufs limit m)"
    using length_used_tids [OF assms(1), of bufs]
      complete_start_keys [OF assms(1), of bufs]
    by (simp add: complete_ok_def dom_map_of_conv_image_fst flip: set_map)
  ultimately show ?thesis
    using assms n by (simp add: complete_stream.latch_def distinct_used_tids length_used_tids)
qed

section \<open>What one completion does\<close>

text \<open>
  libusb reports a length between 0 and the length submitted.  A conforming run is one all of
  whose completions are so; the transfer sequence is of one type, none isochronous.
\<close>

definition io_conforms :: "io_event \<Rightarrow> 'a io_base_scheme \<Rightarrow> bool" where
  "io_conforms e s \<longleftrightarrow>
     (case e of Complete x c rc \<Rightarrow> 0 \<le> sint (c_actual_length c)
          \<and> sint (c_actual_length c) \<le> sint (t_length (tfers s x))
        | _ \<Rightarrow> True)"

definition conforming_step :: "io_event \<Rightarrow> complete_await \<Rightarrow> complete_await option" where
  "conforming_step e s = (if io_conforms e s then complete_step e s else None)"

lemma conforming_run: "run conforming_step es s = Some t \<Longrightarrow> run complete_step es s = Some t"
  by (erule run_into) (auto simp: conforming_step_def split: if_splits)

lemma conforming_run_frame:
  "run complete_step es s = Some t \<Longrightarrow>
   ca_view t = ca_view s \<and> ca_bufs t = ca_bufs s \<and> ca_limit t = ca_limit s"
proof (induction rule: run_induct)
  case (Cons e es s u t)
  from Cons(1) have "ca_view u = ca_view s \<and> ca_bufs u = ca_bufs s \<and> ca_limit u = ca_limit s"
    by (cases e) (auto simp: complete_stop_def complete_callback_unfold split: list.splits option.splits if_splits)
  then show ?case using Cons(3) by simp
qed simp

text \<open>The bytes a completion adds to the progress record.\<close>

definition add_bytes :: "completion \<Rightarrow> transfer_progress \<Rightarrow> transfer_progress" where
  "add_bytes c p = p\<lparr>pg_total := pg_total p + scast (c_actual_length c)\<rparr>"

lemma add_bytes_simps [simp]:
  "pg_ptr (add_bytes c p) = pg_ptr p"
  "pg_expected (add_bytes c p) = pg_expected p"
  "pg_total (add_bytes c p) = pg_total p + scast (c_actual_length c)"
  by (simp_all add: add_bytes_def)

definition next_buffer :: "buffer \<Rightarrow> transfer_progress \<Rightarrow> transfer_progress" where
  "next_buffer b p = p\<lparr>pg_ptr := buf_data b, pg_expected := buf_size b\<rparr>"

definition advance :: "completion \<Rightarrow> transfer_progress \<Rightarrow> transfer_progress" where
  "advance c p = p\<lparr>pg_ptr := pg_ptr p + scast (c_actual_length c)\<rparr>"

lemma progress_simps [simp]:
  "pg_ptr (next_buffer b p) = buf_data b"
  "pg_expected (next_buffer b p) = buf_size b"
  "pg_total (next_buffer b p) = pg_total p"
  "pg_ptr (advance c p) = pg_ptr p + scast (c_actual_length c)"
  "pg_expected (advance c p) = pg_expected p"
  "pg_total (advance c p) = pg_total p"
  by (simp_all add: next_buffer_def advance_def)

lemma complete_after_failed:
  assumes "ec_bool (ca_ec s)"
  shows "ca_states (complete_after x c rc s) = ca_states s"
    "outstanding (complete_after x c rc s) = outstanding s - {x}"
    "slog (complete_after x c rc s) = slog s"
    "ca_buf_current (complete_after x c rc s) = ca_buf_current s"
    "ca_ec (complete_after x c rc s) = ca_ec s"
    "tfers (complete_after x c rc s) = tfers (libusb_complete x c s)"
  using assms by (simp_all add: complete_callback_unfold)

lemma complete_after_frame:
  "ca_view (complete_after x c rc s) = ca_view s"
  "ca_bufs (complete_after x c rc s) = ca_bufs s"
  "ca_limit (complete_after x c rc s) = ca_limit s"
  "stopped (complete_after x c rc s) = stopped s"
  "t_type (tfers (complete_after x c rc s) y) = t_type (tfers s y)"
  "y \<noteq> x \<Longrightarrow> tfers (complete_after x c rc s) y = tfers s y"
  unfolding complete_callback_unfold
  by (cases "y = x"; auto split: option.splits)+

text \<open>The ways a completion without a previous error ends: the transfer is given up (it failed, or
  its buffer is full and there is no other), it goes on to the next buffer, or it goes on in the
  same buffer.  The last two submit it again.\<close>

definition given_up :: "tid \<Rightarrow> transfer_progress \<Rightarrow> completion \<Rightarrow> complete_await \<Rightarrow> complete_await \<Rightarrow> bool" where
  "given_up x q c s u \<longleftrightarrow>
     ca_states u = AList.update x q (ca_states s) \<and> outstanding u = outstanding s - {x}
     \<and> tfers u = tfers (libusb_complete x c s) \<and> slog u = slog s \<and> ca_buf_current u = ca_buf_current s
     \<and> (if c_status c \<noteq> LIBUSB_TRANSFER_COMPLETED
        then ca_ec u = make_transfer_status (c_status c)
        else ca_ec u = ca_ec s \<and> pg_expected q \<le> pg_total q \<and> ca_buf_current s = length (ca_bufs s))"

definition resubmitted :: "tid \<Rightarrow> transfer_progress \<Rightarrow> size_t \<Rightarrow> completion \<Rightarrow> int \<Rightarrow> complete_await
    \<Rightarrow> complete_await \<Rightarrow> bool" where
  "resubmitted x q len c rc s u \<longleftrightarrow>
     ca_states u = AList.update x q (ca_states s)
     \<and> tfers u x = (deliver c (tfers s x))\<lparr>t_buffer := pg_ptr q, t_length := ucast len\<rparr>
     \<and> (if rc = LIBUSB_SUCCESS
        then outstanding u = insert x (outstanding s) \<and> slog u = slog s @ [(x, pg_ptr q, ucast len)]
          \<and> ca_ec u = ca_ec s
        else outstanding u = outstanding s - {x} \<and> slog u = slog s \<and> ca_ec u = make_usb_error_code rc)"

lemma resubmitted_intro:
  assumes "tfers s1 = tfers (libusb_complete x c s)" "outstanding s1 = outstanding s - {x}"
    "slog s1 = slog s" "ca_ec s1 = ca_ec s" "ca_states s1 = AList.update x q0 (ca_states s)"
  shows "resubmitted x q len c rc s (complete_resubmit x rc (set_window x q len s1))"
  using assms by (simp add: resubmitted_def complete_resubmit_def libusb_accept_def)

lemma resubmit_iterator [simp]: "ca_buf_current (complete_resubmit x rc s) = ca_buf_current s"
  by (simp add: complete_resubmit_def)

lemma complete_after_cases:
  fixes c :: completion and rc :: int
  assumes known: "map_of (ca_states s) x = Some p"
    and no_iso: "t_type (tfers s x) \<noteq> LIBUSB_TRANSFER_TYPE_ISOCHRONOUS"
    and no_error: "\<not> ec_bool (ca_ec s)"
  defines "u \<equiv> complete_after x c rc s" and "q \<equiv> add_bytes c p"
  shows "(if c_status c \<noteq> LIBUSB_TRANSFER_COMPLETED
            \<or> pg_expected q \<le> pg_total q \<and> ca_buf_current s = length (ca_bufs s)
          then given_up x q c s u
          else if pg_expected q \<le> pg_total q then
            (let b = ca_bufs s ! ca_buf_current s in
             resubmitted x (next_buffer b q) (min (buf_size b) (ca_limit s)) c rc s u
             \<and> ca_buf_current u = ca_buf_current s + 1)
          else resubmitted x (advance c q) (min (pg_expected q - pg_total q) (ca_limit s)) c rc s u
             \<and> ca_buf_current u = ca_buf_current s)"
proof -
  let ?n = "scast (c_actual_length c) :: size_t"
  let ?s = "(libusb_complete x c s)\<lparr>ca_in_flight := ca_in_flight s - 1,
      ca_states := AList.update x q (ca_states s)\<rparr>"
  have sub: "subtotal_of (deliver c (tfers s x)) = ?n" and "iso_error_of (deliver c (tfers s x)) = None"
    using no_iso by (simp_all add: subtotal_of_def iso_error_of_def)
  then have u: "u =
     (if c_status c \<noteq> LIBUSB_TRANSFER_COMPLETED
      then complete_resume_on_zero (?s\<lparr>ca_ec := make_transfer_status (c_status c)\<rparr>)
      else if pg_expected q \<le> pg_total q then
        (if ca_buf_current s = length (ca_bufs s) then complete_resume_on_zero ?s
         else let b = ca_bufs s ! ca_buf_current s in
           complete_resubmit x rc (set_window x (next_buffer b q) (min (buf_size b) (ca_limit s))
             (?s\<lparr>ca_buf_current := ca_buf_current s + 1\<rparr>)))
      else complete_resubmit x rc (set_window x (advance c q)
             (min (pg_expected q - pg_total q) (ca_limit s)) ?s))"
    using known no_error
    by (simp add: u_def q_def complete_transfer_callback_def Let_def add_bytes_def next_buffer_def
        advance_def cong: if_cong)
  show ?thesis
    unfolding u
    apply (simp add: given_up_def Let_def)
    apply (intro conjI impI)
    apply (rule resubmitted_intro [where ?q0.0 = q]; simp)
    apply (rule resubmitted_intro [where ?q0.0 = q]; simp)
    done
qed

section \<open>Buffers and progress\<close>

definition total_size :: "buffer list \<Rightarrow> nat" where
  "total_size bs = (\<Sum>b\<leftarrow>bs. unat (buf_size b))"

text \<open>A window of memory that lies inside one of the buffers.\<close>

definition in_buffer :: "buffer list \<Rightarrow> address \<Rightarrow> c_int \<Rightarrow> bool" where
  "in_buffer bs p len \<longleftrightarrow> (\<exists>b \<in> set bs. \<exists>off. p = buf_data b + of_nat off
     \<and> 0 \<le> sint len \<and> off + nat (sint len) \<le> unat (buf_size b))"

text \<open>
  A transfer in use, with its progress record and the number \<open>cap\<close> of bytes in the buffers it was
  given so far.  It is \<open>off\<close> bytes into its present buffer; the bytes it counted in earlier
  buffers, which the record still includes, are at most what those buffers hold.
\<close>

definition slot_ok :: "buffer list \<Rightarrow> nat \<Rightarrow> transfer_progress \<Rightarrow> libusb_transfer \<Rightarrow> bool" where
  "slot_ok bs cap p t \<longleftrightarrow> (\<exists>b \<in> set bs. \<exists>off. pg_ptr p = buf_data b + of_nat off
     \<and> t_buffer t = pg_ptr p \<and> pg_expected p = buf_size b
     \<and> 0 \<le> sint (t_length t) \<and> off + nat (sint (t_length t)) \<le> unat (buf_size b)
     \<and> off \<le> unat (pg_total p) \<and> unat (pg_total p) + unat (buf_size b) \<le> cap + off
     \<and> (sint (t_length t) = 0 \<longrightarrow> pg_expected p \<le> pg_total p))"

lemma slot_in_buffer: "slot_ok bs cap p t \<Longrightarrow> in_buffer bs (t_buffer t) (t_length t)"
  unfolding slot_ok_def in_buffer_def by metis

lemma slot_total: "slot_ok bs cap p t \<Longrightarrow> unat (pg_total p) \<le> cap"
  by (auto simp: slot_ok_def)

lemma add_bytes_unat:
  assumes slot: "slot_ok bs cap p t" and cap: "cap < 2 ^ 64"
    and len: "0 \<le> sint (c_actual_length c)" "sint (c_actual_length c) \<le> sint (t_length t)"
  shows "unat (pg_total (add_bytes c p)) = unat (pg_total p) + nat (sint (c_actual_length c))"
    "unat (pg_total (add_bytes c p)) \<le> cap"
proof -
  have n: "unat (scast (c_actual_length c) :: size_t) = nat (sint (c_actual_length c))"
    using len(1) by (rule unat_scast_nonneg)
  have le: "unat (pg_total p) + nat (sint (c_actual_length c)) \<le> cap"
    using slot len by (auto simp: slot_ok_def)
  then have "unat (pg_total p) + unat (scast (c_actual_length c) :: size_t) < 2 ^ LENGTH(64)"
    using cap n by simp
  then have "unat (pg_total p + scast (c_actual_length c)) =
      unat (pg_total p) + unat (scast (c_actual_length c) :: size_t)"
    by (rule unat_add_le_size)
  then show "unat (pg_total (add_bytes c p)) = unat (pg_total p) + nat (sint (c_actual_length c))"
    using n by simp
  with le show "unat (pg_total (add_bytes c p)) \<le> cap" by simp
qed

lemma window_length:
  fixes k limit :: size_t
  assumes "unat limit < 2 ^ 31"
  shows "sint (ucast (min k limit) :: c_int) = int (min (unat k) (unat limit))"
proof -
  have "unat (min k limit) < 2 ^ 31" using assms by (simp add: min_unat)
  then show ?thesis by (simp add: sint_ucast_small min_unat)
qed

lemma slot_first:
  assumes "b \<in> set bs" "unat limit < 2 ^ 31" "0 < limit"
  shows "slot_ok bs (unat (buf_size b)) (fresh_progress b) (complete_prepare self limit b t)"
  using assms window_length [OF assms(2), of "buf_size b"]
  by (auto simp: slot_ok_def fresh_progress_def complete_prepare_def word_gt_0 unat_eq_zero min_def
      intro!: bexI [of _ b] exI [of _ 0] split: if_splits)

lemma slot_next:
  assumes "b \<in> set bs" "unat limit < 2 ^ 31" "0 < limit" "unat (pg_total q) \<le> cap"
  shows "slot_ok bs (cap + unat (buf_size b)) (next_buffer b q)
    (t\<lparr>t_buffer := pg_ptr (next_buffer b q), t_length := ucast (min (buf_size b) limit)\<rparr>)"
  using assms window_length [OF assms(2), of "buf_size b"]
  by (auto simp: slot_ok_def word_gt_0 unat_eq_zero min_def
      intro!: bexI [of _ b] exI [of _ 0] split: if_splits)

lemma slot_advance:
  assumes slot: "slot_ok bs cap p t" and cap: "cap < 2 ^ 64" and limit: "unat limit < 2 ^ 31" "0 < limit"
    and len: "0 \<le> sint (c_actual_length c)" "sint (c_actual_length c) \<le> sint (t_length t)"
    and more: "\<not> pg_expected (add_bytes c p) \<le> pg_total (add_bytes c p)"
  shows "slot_ok bs cap (advance c (add_bytes c p))
    (t'\<lparr>t_buffer := pg_ptr (advance c (add_bytes c p)),
        t_length := ucast (min (pg_expected (add_bytes c p) - pg_total (add_bytes c p)) limit)\<rparr>)"
proof -
  let ?n = "nat (sint (c_actual_length c))" and ?q = "add_bytes c p"
  let ?len = "ucast (min (pg_expected ?q - pg_total ?q) limit) :: c_int"
  obtain b off where b: "b \<in> set bs" "pg_ptr p = buf_data b + of_nat off" "pg_expected p = buf_size b"
    "off + nat (sint (t_length t)) \<le> unat (buf_size b)" "off \<le> unat (pg_total p)"
    "unat (pg_total p) + unat (buf_size b) \<le> cap + off"
    using slot by (auto simp: slot_ok_def)
  note tot = add_bytes_unat(1) [OF slot cap len]
  have lt: "unat (pg_total ?q) < unat (buf_size b)" using more b(3) by (simp add: word_le_nat_alt)
  then have sub: "unat (pg_expected ?q - pg_total ?q) = unat (buf_size b) - unat (pg_total ?q)"
    using b(3) by (simp add: unat_sub word_le_nat_alt)
  have w: "sint ?len = int (min (unat (buf_size b) - unat (pg_total ?q)) (unat limit))"
    using window_length [OF limit(1)] sub by simp
  have pos: "0 < unat limit" using limit(2) by (simp add: word_less_nat_alt)
  have ptr: "pg_ptr p + scast (c_actual_length c) = buf_data b + of_nat (off + ?n)"
    by (simp add: b(2) add.assoc flip: unat_scast_nonneg [OF len(1)])
  show ?thesis
    unfolding slot_ok_def
    by (rule bexI [OF _ b(1)], rule exI [of _ "off + ?n"])
      (use w pos lt tot b(3-6) ptr in \<open>auto simp: min_def\<close>)
qed

section \<open>The invariant\<close>

lemma total_size_simps [simp]:
  "total_size [] = 0" "total_size (b # bs) = unat (buf_size b) + total_size bs"
  "total_size (as @ bs) = total_size as + total_size bs"
  by (simp_all add: total_size_def)

lemma total_size_take_le: "total_size (take k bs) \<le> total_size bs"
  by (metis append_take_drop_id le_add1 total_size_simps(3))

lemma total_size_next:
  "k < length bs \<Longrightarrow> total_size (take (Suc k) bs) = total_size (take k bs) + unat (buf_size (bs ! k))"
  by (simp add: take_Suc_conv_app_nth)

lemma progress_at_update [simp]:
  "progress_at y (AList.update x q al) = (if y = x then q else progress_at y al)"
  by (simp add: progress_at_def)

abbreviation complete_used :: "complete_await \<Rightarrow> tid list" where
  "complete_used s \<equiv> used_tids (ca_bufs s) (ca_view s)"

abbreviation progress_of :: "complete_await \<Rightarrow> tid \<Rightarrow> transfer_progress" where
  "progress_of s x \<equiv> progress_at x (ca_states s)"

text \<open>What the caller of a complete operation has to provide.\<close>

definition complete_args :: "sequence_view \<Rightarrow> buffer list \<Rightarrow> size_t \<Rightarrow> bool" where
  "complete_args v bufs limit \<longleftrightarrow> view_ok v \<and> total_size bufs < 2 ^ 64
     \<and> 0 < limit \<and> unat limit < 2 ^ 31"

text \<open>\<open>cap x\<close> is the number of bytes in the buffers given to \<open>x\<close> so far.\<close>

definition caps_ok :: "(tid \<Rightarrow> nat) \<Rightarrow> complete_await \<Rightarrow> bool" where
  "caps_ok cap s \<longleftrightarrow> sum_list (map cap (complete_used s)) = total_size (take (ca_buf_current s) (ca_bufs s))
     \<and> (\<forall>x \<in> set (complete_used s). unat (pg_total (progress_of s x)) \<le> cap x)
     \<and> (\<forall>x \<in> outstanding s \<union> set (ca_to_submit s).
          slot_ok (ca_bufs s) (cap x) (progress_of s x) (tfers s x))"

definition complete_data :: "complete_await \<Rightarrow> bool" where
  "complete_data s \<longleftrightarrow> complete_args (ca_view s) (ca_bufs s) (ca_limit s)
     \<and> complete_stream.latch s
     \<and> outstanding s \<union> set (ca_to_submit s) \<subseteq> set (complete_used s)
     \<and> map fst (ca_states s) = complete_used s
     \<and> (\<forall>x \<in> set (complete_used s). t_type (tfers s x) \<noteq> LIBUSB_TRANSFER_TYPE_ISOCHRONOUS)
     \<and> (\<forall>(x, p, len) \<in> set (slog s). in_buffer (ca_bufs s) p len)
     \<and> (\<exists>cap. caps_ok cap s)"

lemma cap_small:
  assumes "complete_data s" "caps_ok cap s" "x \<in> set (complete_used s)"
  shows "cap x < 2 ^ 64"
proof -
  have "cap x \<le> sum_list (map cap (complete_used s))"
    using assms(3) by (intro member_le_sum_list) simp_all
  also have "\<dots> \<le> total_size (ca_bufs s)"
    using assms(2) total_size_take_le by (simp add: caps_ok_def)
  also have "\<dots> < 2 ^ 64" using assms(1) by (simp add: complete_data_def complete_args_def)
  finally show ?thesis .
qed

lemma caps_given_up:
  assumes caps: "caps_ok cap s" and disj: "outstanding s \<inter> set (ca_to_submit s) = {}"
    and x: "x \<in> outstanding s"
    and u: "ca_view u = ca_view s" "ca_bufs u = ca_bufs s" "ca_buf_current u = ca_buf_current s"
      "outstanding u = outstanding s - {x}" "ca_to_submit u = ca_to_submit s"
      "\<And>y. y \<noteq> x \<Longrightarrow> tfers u y = tfers s y" "\<And>y. y \<noteq> x \<Longrightarrow> progress_of u y = progress_of s y"
    and tot: "unat (pg_total (progress_of u x)) \<le> cap x"
  shows "caps_ok cap u"
proof -
  have "unat (pg_total (progress_of u y)) \<le> cap y" if "y \<in> set (complete_used s)" for y
    using that caps tot u(7) by (cases "y = x") (auto simp: caps_ok_def)
  moreover have "slot_ok (ca_bufs s) (cap y) (progress_of u y) (tfers u y)"
    if "y \<in> outstanding s - {x} \<union> set (ca_to_submit s)" for y
    using that caps u(6,7) [of y] disj x by (cases "y = x") (auto simp: caps_ok_def)
  ultimately show ?thesis using caps u(1-5) by (simp add: caps_ok_def)
qed

lemma caps_resubmitted:
  assumes caps: "caps_ok cap s" and sub: "set (complete_used s) \<supseteq> outstanding s \<union> set (ca_to_submit s)"
    and x: "x \<in> outstanding s" and dist: "distinct (complete_used s)"
    and u: "ca_view u = ca_view s" "ca_bufs u = ca_bufs s"
      "outstanding u \<subseteq> outstanding s" "ca_to_submit u = ca_to_submit s"
      "\<And>y. y \<noteq> x \<Longrightarrow> tfers u y = tfers s y" "\<And>y. y \<noteq> x \<Longrightarrow> progress_of u y = progress_of s y"
    and k: "total_size (take (ca_buf_current u) (ca_bufs u)) =
        total_size (take (ca_buf_current s) (ca_bufs s)) + k"
    and slot: "slot_ok (ca_bufs s) (cap x + k) (progress_of u x) (tfers u x)"
  shows "caps_ok (cap(x := cap x + k)) u"
proof -
  let ?cap = "cap(x := cap x + k)"
  have "x \<in> set (complete_used s)" using sub x by auto
  with dist have "sum_list (map ?cap (complete_used s)) + cap x =
      sum_list (map cap (complete_used s)) + (cap x + k)"
    by (rule sum_list_upd)
  then have sum: "sum_list (map ?cap (complete_used s)) = sum_list (map cap (complete_used s)) + k" by simp
  have "unat (pg_total (progress_of u y)) \<le> ?cap y" if "y \<in> set (complete_used s)" for y
    using that caps slot_total [OF slot] u(6) by (cases "y = x") (auto simp: caps_ok_def)
  moreover have "slot_ok (ca_bufs s) (?cap y) (progress_of u y) (tfers u y)"
    if "y \<in> outstanding u \<union> set (ca_to_submit s)" for y
    using that caps slot u(3,5,6) by (cases "y = x") (auto simp: caps_ok_def)
  ultimately show ?thesis using caps u(1-4) k sum by (simp add: caps_ok_def del: fun_upd_apply)
qed

text \<open>A completion from which the counters of the transfer come out within its buffers.\<close>

lemma conforming_bytes:
  assumes d: "complete_data s" and caps: "caps_ok cap s" and x: "x \<in> outstanding s"
    and conf: "io_conforms (Complete x c rc) s"
  shows "unat (pg_total (add_bytes c (progress_of s x))) =
      unat (pg_total (progress_of s x)) + nat (sint (c_actual_length c))"
    "unat (pg_total (add_bytes c (progress_of s x))) \<le> cap x"
proof -
  have slot: "slot_ok (ca_bufs s) (cap x) (progress_of s x) (tfers s x)"
    using caps x by (simp add: caps_ok_def)
  have small: "cap x < 2 ^ 64"
    using cap_small [OF d caps, of x] d x by (auto simp: complete_data_def)
  have len: "0 \<le> sint (c_actual_length c)" "sint (c_actual_length c) \<le> sint (t_length (tfers s x))"
    using conf by (simp_all add: io_conforms_def)
  show "unat (pg_total (add_bytes c (progress_of s x))) =
      unat (pg_total (progress_of s x)) + nat (sint (c_actual_length c))"
    "unat (pg_total (add_bytes c (progress_of s x))) \<le> cap x"
    using add_bytes_unat [OF slot small len] by simp_all
qed

lemma data_record:
  assumes "complete_data s" "x \<in> outstanding s"
  shows "map_of (ca_states s) x = Some (progress_of s x)"
proof -
  have "x \<in> fst ` set (ca_states s)"
    using assms by (metis (no_types, lifting) UnI1 complete_data_def image_set subsetD)
  then show ?thesis by (auto simp: progress_at_def map_of_eq_None_iff split: option.splits)
qed


lemma type_libusb_complete [simp]: "t_type (tfers (libusb_complete x c s) y) = t_type (tfers s y)"
  by (cases "y = x") simp_all

lemma data_complete_failed:
  assumes d: "complete_data s" and x: "x \<in> outstanding s" and ec: "ec_bool (ca_ec s)"
    and l: "complete_stream.latch (complete_after x c rc s)"
  shows "complete_data (complete_after x c rc s)"
proof -
  obtain cap where caps: "caps_ok cap s" using d by (auto simp: complete_data_def)
  have disj: "outstanding s \<inter> set (ca_to_submit s) = {}"
    using d by (simp add: complete_data_def complete_stream.latch_def)
  have xu: "x \<in> set (complete_used s)" using d x by (auto simp: complete_data_def)
  have sub: "ca_to_submit (complete_after x c rc s) = ca_to_submit s"
    using complete_callback_law [OF x, of rc c] data_record [OF d x] by simp
  have "caps_ok cap (complete_after x c rc s)"
    by (rule caps_given_up [OF caps disj x])
      (use caps xu sub in \<open>simp_all add: complete_after_failed [OF ec] complete_after_frame caps_ok_def\<close>)
  then show ?thesis
    using d l sub by (auto simp: complete_data_def complete_after_failed [OF ec] complete_after_frame)
qed

lemma completion_outcome:
  fixes c :: completion and rc :: int
  assumes d: "complete_data s" and x: "x \<in> outstanding s" and ec: "\<not> ec_bool (ca_ec s)"
  defines "u \<equiv> complete_after x c rc s" and "q \<equiv> add_bytes c (progress_of s x)"
    and "b \<equiv> ca_bufs s ! ca_buf_current s"
  obtains (Up) "given_up x q c s u"
    | (Next) "c_status c = LIBUSB_TRANSFER_COMPLETED" "ca_buf_current s < length (ca_bufs s)"
      "resubmitted x (next_buffer b q) (min (buf_size b) (ca_limit s)) c rc s u"
      "ca_buf_current u = ca_buf_current s + 1"
    | (Same) "c_status c = LIBUSB_TRANSFER_COMPLETED" "\<not> pg_expected q \<le> pg_total q"
      "resubmitted x (advance c q) (min (pg_expected q - pg_total q) (ca_limit s)) c rc s u"
      "ca_buf_current u = ca_buf_current s"
proof -
  have iso: "t_type (tfers s x) \<noteq> LIBUSB_TRANSFER_TYPE_ISOCHRONOUS"
    and cur: "ca_buf_current s \<le> length (ca_bufs s)"
    using d x by (auto simp: complete_data_def complete_stream.latch_def complete_ok_def)
  note cases = complete_after_cases [OF data_record [OF d x] iso ec, of c rc,
      folded u_def q_def b_def, unfolded Let_def]
  show ?thesis
  proof (cases "c_status c \<noteq> LIBUSB_TRANSFER_COMPLETED
      \<or> pg_expected q \<le> pg_total q \<and> ca_buf_current s = length (ca_bufs s)")
    case True
    then show ?thesis using cases Up by (simp only: if_True)
  next
    case False
    then show ?thesis using cases cur Next Same by (cases "pg_expected q \<le> pg_total q") simp_all
  qed
qed

lemma data_complete:
  assumes d: "complete_data s" and x: "x \<in> outstanding s" and ec: "\<not> ec_bool (ca_ec s)"
    and conf: "io_conforms (Complete x c rc) s"
    and l: "complete_stream.latch (complete_after x c rc s)"
  shows "complete_data (complete_after x c rc s)"
proof -
  let ?u = "complete_after x c rc s" and ?q = "add_bytes c (progress_of s x)"
  let ?cur = "ca_buf_current s" and ?bs = "ca_bufs s"
  obtain cap where caps: "caps_ok cap s" using d by (auto simp: complete_data_def)
  note bytes = conforming_bytes [OF d caps x conf]
  have disj: "outstanding s \<inter> set (ca_to_submit s) = {}"
    and active: "outstanding s \<union> set (ca_to_submit s) \<subseteq> set (complete_used s)"
    and dist: "distinct (complete_used s)"
    and limit: "unat (ca_limit s) < 2 ^ 31" "0 < ca_limit s"
    and keys: "map fst (ca_states s) = complete_used s"
    and log: "\<forall>(x, p, len) \<in> set (slog s). in_buffer ?bs p len"
    using d x by (auto simp: complete_data_def complete_stream.latch_def complete_ok_def
        complete_args_def distinct_used_tids)
  have xu: "x \<in> set (complete_used s)" using active x by auto
  have sub: "ca_to_submit ?u = ca_to_submit s"
    using complete_callback_law [OF x, of rc c] data_record [OF d x] by simp
  have finish: "complete_data ?u"
    if "ca_states ?u = AList.update x q (ca_states s)" "outstanding ?u \<subseteq> outstanding s"
      "\<forall>(x, p, len) \<in> set (slog ?u). in_buffer ?bs p len" "caps_ok cap' ?u" for q cap'
    unfolding complete_data_def
    using that d l sub xu active by (auto simp: complete_data_def complete_after_frame update_keys_same)
  have again: "complete_data ?u"
    if re: "resubmitted x q len c rc s ?u" and cu: "total_size (take (ca_buf_current ?u) ?bs) =
        total_size (take ?cur ?bs) + k"
      and slot: "slot_ok ?bs (cap x + k) q
        ((deliver c (tfers s x))\<lparr>t_buffer := pg_ptr q, t_length := ucast len\<rparr>)" for q len k
  proof (rule finish)
    show st: "ca_states ?u = AList.update x q (ca_states s)" using re by (simp add: resubmitted_def)
    show out: "outstanding ?u \<subseteq> outstanding s" using re x by (auto simp: resubmitted_def split: if_splits)
    show "\<forall>(x, p, len) \<in> set (slog ?u). in_buffer ?bs p len"
      using re log slot_in_buffer [OF slot] by (auto simp: resubmitted_def split: if_splits)
    show "caps_ok (cap(x := cap x + k)) ?u"
      by (rule caps_resubmitted [OF caps active x dist])
        (use re cu slot sub out in \<open>auto simp: complete_after_frame resubmitted_def\<close>)
  qed
  show ?thesis
  proof (cases rule: completion_outcome [OF d x ec, of c rc])
    case 1
    have "caps_ok cap ?u"
      by (rule caps_given_up [OF caps disj x])
        (use 1 sub bytes(2) in \<open>simp_all add: given_up_def complete_after_frame del: add_bytes_simps\<close>)
    then show ?thesis using 1 log by (intro finish) (auto simp: given_up_def)
  next
    case 2
    have "slot_ok ?bs (cap x + unat (buf_size (?bs ! ?cur))) (next_buffer (?bs ! ?cur) ?q)
        ((deliver c (tfers s x))\<lparr>t_buffer := pg_ptr (next_buffer (?bs ! ?cur) ?q),
          t_length := ucast (min (buf_size (?bs ! ?cur)) (ca_limit s))\<rparr>)"
      by (rule slot_next) (use 2(2) limit bytes(2) in simp_all)
    from again [OF 2(3) _ this] show ?thesis using 2(2,4) by (simp add: total_size_next)
  next
    case 3
    have "slot_ok ?bs (cap x + 0) (advance c ?q) ((deliver c (tfers s x))\<lparr>
        t_buffer := pg_ptr (advance c ?q),
        t_length := ucast (min (pg_expected ?q - pg_total ?q) (ca_limit s))\<rparr>)"
      unfolding add_0_right
      by (rule slot_advance [where t = "tfers s x"])
        (use caps x cap_small [OF d caps xu] limit conf 3(2) in
          \<open>simp_all add: caps_ok_def io_conforms_def del: add_bytes_simps\<close>)
    from again [OF 3(3) _ this] show ?thesis using 3(4) by simp
  qed
qed

lemma data_step:
  assumes d: "complete_data s" and st: "conforming_step e s = Some t"
  shows "complete_data t"
proof -
  have st': "complete_step e s = Some t" and conf: "io_conforms e s"
    using st by (auto simp: conforming_step_def split: if_splits)
  have l: "complete_stream.latch t"
    using d st' complete_stream.latch_step by (auto simp: complete_data_def)
  show ?thesis
  proof (cases e)
    case (Submit rc)
    then obtain x xs where x: "ca_to_submit s = x # xs" and t:
      "t = s\<lparr>ca_ec := make_transfer_status rc, ca_submitting := False\<rparr>
       \<or> t = (libusb_accept x s)\<lparr>ca_to_submit := xs\<rparr>"
      using st' by (auto split: list.splits if_splits)
    obtain cap where "caps_ok cap s" using d by (auto simp: complete_data_def)
    then have "in_buffer (ca_bufs s) (t_buffer (tfers s x)) (t_length (tfers s x))" and "caps_ok cap t"
      using x t slot_in_buffer by (auto simp: caps_ok_def)
    then show ?thesis
      using d t x l by (auto simp: complete_data_def libusb_accept_def)
  next
    case (Complete x c rc)
    then have "x \<in> outstanding s" "t = complete_after x c rc s" using st' by (auto split: if_splits)
    then show ?thesis
      using data_complete_failed data_complete d l conf Complete by (cases "ec_bool (ca_ec s)") auto
  next
    case Stop
    then obtain xs where "t = s\<lparr>stopped := True, cancels := xs\<rparr>"
      using st' by (auto simp: complete_stop_def split: if_splits)
    then show ?thesis using d l by (auto simp: complete_data_def caps_ok_def)
  qed
qed

interpretation complete_conforming: machine conforming_step complete_data
  by unfold_locales (rule data_step)

lemma start_progress:
  assumes v: "view_ok v" and i: "i < transfers_used bufs v"
  shows "progress_of (complete_start self v bufs limit m) (used_tids bufs v ! i) = fresh_progress (bufs ! i)"
proof -
  let ?s = "complete_start self v bufs limit m" and ?xs = "used_tids bufs v"
  have "(?xs ! i, fresh_progress (bufs ! i)) \<in> set (ca_states ?s)"
    using i length_used_tids [OF v] less_le_trans [OF i used_le_length]
    by (auto simp: set_zip intro!: exI [of _ i])
  moreover have "distinct (map fst (ca_states ?s))"
    using complete_start_keys [OF v] distinct_used_tids [OF v] by simp
  ultimately have "map_of (ca_states ?s) (?xs ! i) = Some (fresh_progress (bufs ! i))"
    by (simp only: map_of_eq_Some_iff)
  then show ?thesis by (simp add: progress_at_def)
qed

lemma start_data:
  assumes args: "complete_args v bufs limit" and ne: "bufs \<noteq> []" "0 < view_size v"
    and iso: "\<And>x. x \<in> set (sv_array v) \<Longrightarrow> t_type (m x) \<noteq> LIBUSB_TRANSFER_TYPE_ISOCHRONOUS"
  shows "complete_data (complete_start self v bufs limit m)"
proof -
  let ?s = "complete_start self v bufs limit m" and ?xs = "used_tids bufs v"
  let ?n = "transfers_used bufs v"
  have v: "view_ok v" using args by (simp add: complete_args_def)
  have len: "length ?xs = ?n" and dist: "distinct ?xs"
    using length_used_tids [OF v] distinct_used_tids [OF v] by simp_all
  define cap where "cap x = unat (pg_expected (progress_of ?s x))" for x
  note prg = start_progress [OF v]
  have t: "tfers ?s (?xs ! i) = complete_prepare self limit (bufs ! i) (m (?xs ! i))" if "i < ?n" for i
    using that len dist by (simp add: prepare_all_nth)
  have "map cap ?xs = map (\<lambda>b. unat (buf_size b)) (take ?n bufs)"
    by (rule nth_equalityI) (use len prg in \<open>simp_all add: cap_def fresh_progress_def del: complete_start_simps(7)\<close>)
  then have sum: "sum_list (map cap ?xs) = total_size (take ?n bufs)" by (simp add: total_size_def)
  have "slot_ok bufs (cap x) (progress_of ?s x) (tfers ?s x)
      \<and> unat (pg_total (progress_of ?s x)) \<le> cap x
      \<and> t_type (tfers ?s x) \<noteq> LIBUSB_TRANSFER_TYPE_ISOCHRONOUS" if "x \<in> set ?xs" for x
  proof -
    obtain i where i: "i < ?n" "x = ?xs ! i" using \<open>x \<in> set ?xs\<close> len by (auto simp: in_set_conv_nth)
    have mem: "x \<in> set (sv_array v)"
      using \<open>x \<in> set ?xs\<close> by (auto simp: used_tids_def dest: in_set_takeD in_set_dropD)
    have b: "bufs ! i \<in> set bufs" using i(1) used_le_length [of bufs v] by (intro nth_mem) linarith
    have cx: "cap (?xs ! i) = unat (buf_size (bufs ! i))"
      unfolding cap_def prg [OF i(1)] by (simp add: fresh_progress_def)
    have "slot_ok bufs (unat (buf_size (bufs ! i))) (fresh_progress (bufs ! i))
        (complete_prepare self limit (bufs ! i) (m (?xs ! i)))"
      using args by (intro slot_first [OF b]) (simp_all add: complete_args_def)
    then show ?thesis
      unfolding i(2) cx prg [OF i(1)] t [OF i(1)]
      using iso [OF mem] i(2) by (simp add: fresh_progress_def complete_prepare_def)
  qed
  then have "caps_ok cap ?s" and "\<forall>x \<in> set ?xs. t_type (tfers ?s x) \<noteq> LIBUSB_TRANSFER_TYPE_ISOCHRONOUS"
    using sum by (simp_all add: caps_ok_def del: complete_start_simps(7) complete_start_simps(17))
  then show ?thesis
    unfolding complete_data_def
    using args complete_start_latch [OF v ne] complete_start_keys [OF v] by auto
qed

end
