(* ===== verification/Complete_Props.thy ===== *)
theory Complete_Props
  imports Complete_Data
begin

text \<open>
  The properties of complete I/O: resumption, the memory handed to libusb, the total reported, what
  a successful operation has read when there are no more buffers than transfers, termination when
  every completion makes progress; and where the code falls short of its contract: failed
  submissions, progress records that are not reset between buffers, completions of zero bytes,
  limits beyond the range of \<open>int\<close>.
\<close>

section \<open>Counting bytes\<close>

definition bytes_counted :: "complete_await \<Rightarrow> nat" where
  "bytes_counted s = (\<Sum>x\<leftarrow>complete_used s. unat (pg_total (progress_of s x)))"

lemma unat_sum_list:
  fixes ws :: "size_t list"
  shows "sum_list (map unat ws) < 2 ^ 64 \<Longrightarrow> unat (sum_list ws) = sum_list (map unat ws)"
proof (induction ws)
  case Nil
  then show ?case by simp
next
  case (Cons w ws)
  then have "unat (sum_list ws) = sum_list (map unat ws)" by simp
  moreover have "unat w + unat (sum_list ws) < 2 ^ LENGTH(64)" using Cons calculation by simp
  ultimately show ?case using unat_add_le_size [of w "sum_list ws"] by simp
qed

lemma sum_totals_keys:
  "distinct (map fst al) \<Longrightarrow> sum_totals al = (\<Sum>x\<leftarrow>map fst al. pg_total (progress_at x al))"
proof -
  assume "distinct (map fst al)"
  then have "map (\<lambda>(x, p). pg_total p) al = map (\<lambda>x. pg_total (progress_at x al)) (map fst al)"
    by (auto simp: progress_at_def)
  then show ?thesis by (simp add: sum_totals_def del: map_map)
qed

lemma sum_totals_add:
  "map_of al x = Some p \<Longrightarrow> pg_total q = pg_total p + n \<Longrightarrow>
   sum_totals (AList.update x q al) = sum_totals al + n"
  by (induction al) (auto simp: sum_totals_def algebra_simps)

lemma bytes_counted_le:
  assumes d: "complete_data s"
  shows "bytes_counted s \<le> total_size (take (ca_buf_current s) (ca_bufs s))"
proof -
  obtain cap where caps: "caps_ok cap s" using d by (auto simp: complete_data_def)
  have "bytes_counted s \<le> sum_list (map cap (complete_used s))"
    unfolding bytes_counted_def using caps by (intro sum_list_mono) (simp add: caps_ok_def)
  then show ?thesis using caps by (simp add: caps_ok_def)
qed

lemma reported_bytes:
  assumes d: "complete_data s"
  shows "unat (sum_totals (ca_states s)) = bytes_counted s"
proof -
  have keys: "map fst (ca_states s) = complete_used s" and v: "view_ok (ca_view s)"
    and small: "total_size (ca_bufs s) < 2 ^ 64"
    using d by (auto simp: complete_data_def complete_args_def)
  have eq: "sum_totals (ca_states s) = (\<Sum>x\<leftarrow>complete_used s. pg_total (progress_of s x))"
    using sum_totals_keys [of "ca_states s"] distinct_used_tids [OF v] by (simp only: keys)
  have "bytes_counted s < 2 ^ 64"
    using bytes_counted_le [OF d] total_size_take_le [of "ca_buf_current s" "ca_bufs s"] small by linarith
  then show ?thesis
    unfolding eq bytes_counted_def
    using unat_sum_list [of "map (\<lambda>x. pg_total (progress_of s x)) (complete_used s)"]
    by (simp add: comp_def)
qed

text \<open>While the error code stays clear the total is the sum of what libusb reported.\<close>

lemma complete_step_bytes:
  assumes d: "complete_data s" and st: "complete_step e s = Some t" and ec: "\<not> ec_bool (ca_ec t)"
  shows "\<not> ec_bool (ca_ec s) \<and> event_completed e
    \<and> sum_totals (ca_states t) = sum_totals (ca_states s) + event_bytes e"
proof (cases e)
  case (Submit rc)
  then show ?thesis using st ec by (auto split: list.splits if_splits)
next
  case (Complete x c rc)
  then have x: "x \<in> outstanding s" and t: "t = complete_after x c rc s"
    using st by (auto split: if_splits)
  have clean: "\<not> ec_bool (ca_ec s)" using ec complete_after_failed(5) unfolding t by metis
  have iso: "t_type (tfers s x) \<noteq> LIBUSB_TRANSFER_TYPE_ISOCHRONOUS"
    using d x by (auto simp: complete_data_def)
  have "event_completed e \<and> (\<exists>q. ca_states t = AList.update x q (ca_states s)
      \<and> pg_total q = pg_total (progress_of s x) + scast (c_actual_length c))"
    using complete_after_cases [OF data_record [OF d x] iso clean, of c rc] ec unfolding Complete t
    by (auto simp: given_up_def resubmitted_def Let_def split: if_splits)
  then show ?thesis using clean sum_totals_add [OF data_record [OF d x]] Complete by auto
next
  case Stop
  then show ?thesis using st ec by (auto simp: complete_stop_def split: if_splits)
qed

lemma complete_run_bytes:
  "run conforming_step es s = Some t \<Longrightarrow> complete_data s \<Longrightarrow> \<not> ec_bool (ca_ec t) \<Longrightarrow>
   \<not> ec_bool (ca_ec s) \<and> list_all event_completed es
   \<and> sum_totals (ca_states t) = sum_totals (ca_states s) + run_bytes es"
proof (induction rule: run_induct)
  case (Cons e es s u t)
  have "complete_step e s = Some u" using Cons(1) by (auto simp: conforming_step_def split: if_splits)
  then show ?case
    using complete_step_bytes [OF Cons.prems(1)] Cons(3) Cons.prems data_step [OF Cons.prems(1) Cons(1)]
    by (simp add: run_bytes_def)
qed (simp add: run_bytes_def)

section \<open>No more buffers than transfers\<close>

text \<open>Every transfer keeps its one buffer; one that libusb gave back without an error has filled it.\<close>

definition one_buffer_each :: "complete_await \<Rightarrow> bool" where
  "one_buffer_each s \<longleftrightarrow> ca_buf_current s = length (ca_bufs s)
     \<and> map (\<lambda>x. pg_expected (progress_of s x)) (complete_used s) = map buf_size (ca_bufs s)
     \<and> (\<not> ec_bool (ca_ec s) \<longrightarrow>
         (\<forall>x \<in> set (complete_used s) - outstanding s - set (ca_to_submit s).
            pg_expected (progress_of s x) \<le> pg_total (progress_of s x)))"

lemma one_buffer_step:
  assumes d: "complete_data s" and one: "one_buffer_each s" and st: "complete_step e s = Some t"
  shows "one_buffer_each t"
proof (cases e)
  case (Submit rc)
  then show ?thesis using st one
    by (auto simp: one_buffer_each_def split: list.splits if_splits)
next
  case (Complete x c rc)
  then have x: "x \<in> outstanding s" and t: "t = complete_after x c rc s"
    using st by (auto split: if_splits)
  have iso: "t_type (tfers s x) \<noteq> LIBUSB_TRANSFER_TYPE_ISOCHRONOUS"
    using d x by (auto simp: complete_data_def)
  have sub: "ca_to_submit t = ca_to_submit s"
    using complete_callback_law [OF x, of rc c] data_record [OF d x] by (simp add: t)
  show ?thesis
  proof (cases "ec_bool (ca_ec s)")
    case True
    then show ?thesis using one
      by (simp add: one_buffer_each_def t complete_after_failed [OF True] complete_after_frame)
  next
    case False
    obtain q where q: "ca_states t = AList.update x q (ca_states s)"
      "pg_expected q = pg_expected (progress_of s x)" "ca_buf_current t = ca_buf_current s"
      "\<not> ec_bool (ca_ec t) \<longrightarrow> outstanding t = insert x (outstanding s)
         \<or> outstanding t = outstanding s - {x} \<and> pg_expected q \<le> pg_total q"
      using complete_after_cases [OF data_record [OF d x] iso False, of c rc] one False unfolding t
      by (auto simp: given_up_def resubmitted_def one_buffer_each_def simp del: add_bytes_simps(3)
          split: if_splits)
    have "(\<lambda>y. pg_expected (progress_of t y)) = (\<lambda>y. pg_expected (progress_of s y))"
      using q(1,2) by auto
    then show ?thesis
      using one False q sub by (auto simp: one_buffer_each_def t complete_after_frame)
  qed
next
  case Stop
  then obtain xs where "t = s\<lparr>stopped := True, cancels := xs\<rparr>"
    using st by (auto simp: complete_stop_def split: if_splits)
  then show ?thesis using one by (simp add: one_buffer_each_def)
qed

interpretation one_buffer: machine conforming_step "\<lambda>s. complete_data s \<and> one_buffer_each s"
proof (unfold_locales, goal_cases)
  case (1 s e t)
  then have "complete_step e s = Some t" by (auto simp: conforming_step_def split: if_splits)
  then show ?case using 1 data_step one_buffer_step by blast
qed

lemma one_buffer_done:
  assumes d: "complete_data s" and one: "one_buffer_each s" and ec: "\<not> ec_bool (ca_ec s)"
    and idle: "outstanding s = {}" "ca_to_submit s = []"
  shows "unat (sum_totals (ca_states s)) = total_size (ca_bufs s)"
proof -
  have "total_size (ca_bufs s) = sum_list (map unat (map buf_size (ca_bufs s)))"
    by (simp add: total_size_def comp_def)
  also have "\<dots> = (\<Sum>x\<leftarrow>complete_used s. unat (pg_expected (progress_of s x)))"
    using one unfolding one_buffer_each_def by (metis (no_types, lifting) list.map_comp comp_def map_eq_conv)
  also have "\<dots> \<le> bytes_counted s"
    unfolding bytes_counted_def using one ec idle
    by (intro sum_list_mono) (simp add: one_buffer_each_def word_le_nat_alt)
  finally have "total_size (ca_bufs s) \<le> bytes_counted s" .
  moreover have "bytes_counted s \<le> total_size (ca_bufs s)"
    using bytes_counted_le [OF d] one by (simp add: one_buffer_each_def)
  ultimately show ?thesis using reported_bytes [OF d] by simp
qed

lemma start_one_buffer:
  assumes v: "view_ok v" and le: "length bufs \<le> view_size v"
  shows "one_buffer_each (complete_start self v bufs limit m)"
proof -
  have n: "transfers_used bufs v = length bufs" using le by (simp add: transfers_used_def)
  have "map (\<lambda>x. pg_expected (progress_of (complete_start self v bufs limit m) x)) (used_tids bufs v)
      = map buf_size bufs"
    by (rule nth_equalityI)
      (use n start_progress [OF v] length_used_tids [OF v] in
        \<open>simp_all add: fresh_progress_def del: complete_start_simps(7)\<close>)
  then show ?thesis using n by (simp add: one_buffer_each_def del: complete_start_simps(7))
qed

section \<open>Termination\<close>

text \<open>A run in which every successful completion of a window that is not empty delivers a byte.\<close>

definition io_progress :: "io_event \<Rightarrow> 'a io_base_scheme \<Rightarrow> bool" where
  "io_progress e s \<longleftrightarrow>
     (case e of Complete x c rc \<Rightarrow>
          c_status c = LIBUSB_TRANSFER_COMPLETED \<longrightarrow> sint (t_length (tfers s x)) \<noteq> 0 \<longrightarrow>
          sint (c_actual_length c) \<noteq> 0
        | _ \<Rightarrow> True)"

definition progress_step :: "io_event \<Rightarrow> complete_await \<Rightarrow> complete_await option" where
  "progress_step e s = (if io_progress e s then conforming_step e s else None)"

text \<open>Steps left: two per transfer to be submitted, one per outstanding transfer, per byte not counted
  yet and per buffer not handed out, one for the stop callback, one for leaving the loop.\<close>

definition complete_budget :: "complete_await \<Rightarrow> nat" where
  "complete_budget s = 2 * length (ca_to_submit s) + card (outstanding s)
     + (total_size (ca_bufs s) - bytes_counted s) + (length (ca_bufs s) - ca_buf_current s)
     + (if stopped s then 0 else 1) + (if ca_submitting s then 1 else 0)"

lemma bytes_counted_update:
  assumes "ca_view t = ca_view s" "ca_bufs t = ca_bufs s" "ca_states t = AList.update x q (ca_states s)"
    and "x \<in> set (complete_used s)" "view_ok (ca_view s)"
  shows "bytes_counted t + unat (pg_total (progress_of s x)) = bytes_counted s + unat (pg_total q)"
proof -
  have "(\<lambda>y. unat (pg_total (progress_of t y))) = (\<lambda>y. unat (pg_total (progress_of s y)))(x := unat (pg_total q))"
    using assms(3) by auto
  then show ?thesis
    using sum_list_upd [OF distinct_used_tids [OF assms(5)] assms(4),
        of "\<lambda>y. unat (pg_total (progress_of s y))" "unat (pg_total q)"] assms(1,2)
    by (simp add: bytes_counted_def del: fun_upd_apply)
qed

lemma resubmitted_effect:
  assumes "resubmitted x q len c rc s u" "x \<in> outstanding s"
  shows "outstanding u = outstanding s \<or> outstanding u = outstanding s - {x}"
    "ca_states u = AList.update x q (ca_states s)"
  using assms by (auto simp: resubmitted_def split: if_splits)

lemma resubmitted_card:
  assumes "resubmitted x q len c rc s u" "x \<in> outstanding s" "finite (outstanding s)"
  shows "card (outstanding u) \<le> card (outstanding s)"
  using resubmitted_effect(1) [OF assms(1,2)] card_mono [OF assms(3), of "outstanding u"] by auto

lemma completion_budget:
  assumes d: "complete_data s" and x: "x \<in> outstanding s"
    and conf: "io_conforms (Complete x c rc) s" and prog: "io_progress (Complete x c rc) s"
  shows "complete_budget (complete_after x c rc s) < complete_budget s"
proof -
  let ?u = "complete_after x c rc s" and ?q = "add_bytes c (progress_of s x)"
  have fin: "finite (outstanding s)" and active: "x \<in> set (complete_used s)"
    and v: "view_ok (ca_view s)"
    using d x by (auto simp: complete_data_def complete_stream.latch_def complete_ok_def complete_args_def)
  have card: "card (outstanding s) = Suc (card (outstanding s - {x}))"
    using x fin by (metis card_Suc_Diff1)
  note law = complete_callback_law [OF x, of rc c]
  have keep: "ca_to_submit ?u = ca_to_submit s" "ca_submitting ?u = ca_submitting s"
    "stopped ?u = stopped s" "ca_bufs ?u = ca_bufs s" "ca_view ?u = ca_view s"
    using law data_record [OF d x] by (simp_all add: complete_after_frame)
  show ?thesis
  proof (cases "ec_bool (ca_ec s)")
    case True
    then show ?thesis
      using keep card by (simp add: complete_budget_def bytes_counted_def complete_after_failed [OF True]
          del: card_Diff_insert card_Diff_singleton)
  next
    case False
    obtain cap where caps: "caps_ok cap s" using d by (auto simp: complete_data_def)
    note bytes = conforming_bytes(1) [OF d caps x conf]
    have du: "complete_data ?u"
      by (rule data_step [OF d, of "Complete x c rc"]) (use x conf in \<open>simp add: conforming_step_def\<close>)
    then have cap: "bytes_counted ?u \<le> total_size (ca_bufs s)"
      using bytes_counted_le [OF du] total_size_take_le [of "ca_buf_current ?u" "ca_bufs s"] keep(4) by simp
    have count: "bytes_counted ?u = bytes_counted s + nat (sint (c_actual_length c))"
      if "ca_states ?u = AList.update x q (ca_states s)" "pg_total q = pg_total ?q" for q
      using bytes_counted_update [OF keep(5,4) that(1) active v] that(2) bytes by simp
    have moving: "0 < nat (sint (c_actual_length c))"
      if "\<not> pg_expected ?q \<le> pg_total ?q" "c_status c = LIBUSB_TRANSFER_COMPLETED"
    proof -
      have slot: "slot_ok (ca_bufs s) (cap x) (progress_of s x) (tfers s x)"
        using caps x by (simp add: caps_ok_def)
      have "unat (pg_total ?q) < unat (pg_expected (progress_of s x))"
        using that(1) by (simp add: word_le_nat_alt)
      then have "\<not> pg_expected (progress_of s x) \<le> pg_total (progress_of s x)"
        using bytes by (simp add: word_le_nat_alt)
      then have "sint (t_length (tfers s x)) \<noteq> 0" using slot by (auto simp: slot_ok_def)
      then show ?thesis using prog conf that(2) by (simp add: io_progress_def io_conforms_def)
    qed
    show ?thesis
    proof (cases rule: completion_outcome [OF d x False, of c rc])
      case 1
      then have "outstanding ?u = outstanding s - {x}" "bytes_counted s \<le> bytes_counted ?u"
        "ca_buf_current ?u = ca_buf_current s" using count by (simp_all add: given_up_def)
      then show ?thesis
        using keep card cap by (simp add: complete_budget_def del: card_Diff_insert card_Diff_singleton)
    next
      case 2
      then have "card (outstanding ?u) \<le> card (outstanding s)" "bytes_counted s \<le> bytes_counted ?u"
        using resubmitted_card [OF 2(3) x fin] count [OF resubmitted_effect(2) [OF 2(3) x]] by simp_all
      then show ?thesis
        using 2(2,4) keep cap unfolding complete_budget_def by simp
    next
      case 3
      then have "card (outstanding ?u) \<le> card (outstanding s)" "bytes_counted s < bytes_counted ?u"
        using resubmitted_card [OF 3(3) x fin] count [OF resubmitted_effect(2) [OF 3(3) x]]
          moving [OF 3(2,1)] by simp_all
      then show ?thesis
        using 3(4) keep cap unfolding complete_budget_def by simp
    qed
  qed
qed

interpretation complete_bounded: bounded_machine progress_step complete_data complete_budget
proof (unfold_locales, goal_cases)
  case (1 s e t)
  then show ?case using data_step by (auto simp: progress_step_def split: if_splits)
next
  case (2 s e t)
  then have st: "complete_step e s = Some t" and conf: "io_conforms e s" and prog: "io_progress e s"
    by (auto simp: progress_step_def conforming_step_def split: if_splits)
  show ?case
  proof (cases e)
    case (Submit rc)
    then obtain x xs where "ca_to_submit s = x # xs" "x \<notin> outstanding s" "finite (outstanding s)"
      using 2(1) st by (auto simp: complete_data_def complete_stream.latch_def split: list.splits)
    then show ?thesis using st Submit by (auto simp: complete_budget_def bytes_counted_def split: if_splits)
  next
    case (Complete x c rc)
    then show ?thesis using completion_budget [OF 2(1)] st conf prog by (auto split: if_splits)
  next
    case Stop
    then obtain xs where "t = s\<lparr>stopped := True, cancels := xs\<rparr>" "\<not> stopped s"
      using st by (auto simp: complete_stop_def split: if_splits)
    then show ?thesis by (simp add: complete_budget_def bytes_counted_def)
  qed
qed

section \<open>Properties\<close>

lemma ex_complete_args: "complete_args ex_view ex_bufs 8" "complete_args ex_view (take 2 ex_bufs) 8"
  using ex_view_ok by (simp_all add: complete_args_def ex_bufs_def total_size_def)

lemma ex_complete_start:
  "complete_submit True False 0 ex_view ex_bufs 8 (ex_store 2) =
     Inr (Suspended (complete_start 0 ex_view ex_bufs 8 (ex_store 2)))"
  "complete_submit True False 0 ex_view (take 2 ex_bufs) 8 (ex_store 2) =
     Inr (Suspended (complete_start 0 ex_view (take 2 ex_bufs) 8 (ex_store 2)))"
  using ex_view_size by (simp_all add: complete_submit_Suspended [OF ex_view_ok] ex_bufs_def)

lemma ex_complete_no_iso: "t_type (ex_store 2 x) \<noteq> LIBUSB_TRANSFER_TYPE_ISOCHRONOUS"
  by (simp add: ex_store_def)

definition ex_complete_run :: "io_event list" where
  "ex_complete_run = [Submit 0, Complete 1 (ex_done 0 8) 0, Submit 0, Complete 2 (ex_done 0 6) 0,
     Stop, Complete 1 (ex_done 0 2) 0, Complete 2 (ex_done 0 4) 0]"

lemma ex_complete_result:
  "\<exists>s. run progress_step ex_complete_run (complete_start 0 ex_view (take 2 ex_bufs) 8 (ex_store 2)) = Some s
     \<and> posts s = 1 \<and> \<not> ec_bool (ca_ec s)"
  by (rule run_satD) code_simp

lemma sum_totals_zero: "(\<forall>(x, p) \<in> set al. pg_total p = 0) \<Longrightarrow> sum_totals al = 0"
  by (induction al) (auto simp: sum_totals_def)

lemma progress_run: "run progress_step es s = Some t \<Longrightarrow> run conforming_step es s = Some t"
  by (erule run_into) (auto simp: progress_step_def split: if_splits)

text \<open>C2: while a complete operation on at least one transfer runs, its counter is the number of transfers libusb holds plus
  those still to be submitted, and every completion finds its progress record; the coroutine is
  resumed at most once, exactly when both are none, and then no callback of it can run any more.\<close>

theorem complete_resumes_at_most_once:
  assumes "view_ok v" "0 < view_size v"
    and "complete_submit checked stop self v bufs limit m = Inr (Suspended s0)"
    and "run complete_step es s0 = Some s"
  shows "unat (ca_in_flight s) = card (outstanding s) + length (ca_to_submit s) \<and> \<not> ca_threw s
    \<and> posts s \<le> 1 \<and> (posts s = 1 \<longleftrightarrow> outstanding s = {} \<and> ca_to_submit s = [])
    \<and> (posts s = 1 \<and> e \<noteq> Stop \<longrightarrow> complete_step e s = None)"
proof -
  have "complete_stream.latch s0"
    using assms(3) complete_start_latch [OF assms(1) _ assms(2)]
    by (simp add: complete_submit_Suspended [OF assms(1)])
  then have l: "complete_stream.latch s" using assms(4) by (rule complete_stream.latch_run)
  then show ?thesis
    using complete_stream.latch_posts [OF l] complete_stream.posted_final [OF l]
    by (auto simp: complete_stream.latch_def complete_ok_def)
qed

theorem complete_resumes_at_most_once_witness:
  "\<exists>s. run complete_step ex_complete_run (complete_start 0 ex_view (take 2 ex_bufs) 8 (ex_store 2)) = Some s
     \<and> posts s = 1 \<and> outstanding s = {}"
  using ex_complete_result complete_resumes_at_most_once [OF ex_view_ok ex_view_size ex_complete_start(2)]
    conforming_run [OF progress_run] by metis

text \<open>C29: a complete operation on transfers that are not isochronous, with a limit from 1 to 2^31 - 1 and
  less than 2^64 bytes, ends if every completion stays within its window and a successful one of a
  window that is not empty delivers a byte: its runs have no more steps than its transfers, its
  buffers and their bytes allow.  (With a limit of 0 every window is empty.)\<close>

theorem complete_terminates:
  assumes "complete_args v bufs limit" "0 < view_size v"
    and "\<And>x. x \<in> set (sv_array v) \<Longrightarrow> t_type (m x) \<noteq> LIBUSB_TRANSFER_TYPE_ISOCHRONOUS"
    and "complete_submit checked stop self v bufs limit m = Inr (Suspended s0)"
    and "run progress_step es s0 = Some s"
  shows "length es \<le> transfers_used bufs v + length bufs + total_size bufs + 2"
proof -
  have v: "view_ok v" using assms(1) by (simp add: complete_args_def)
  have s0: "s0 = complete_start self v bufs limit m" and "bufs \<noteq> []"
    using assms(4) by (simp_all add: complete_submit_Suspended [OF v])
  then have "complete_data s0" using start_data [OF assms(1) _ assms(2,3)] by simp
  then have "length es + complete_budget s \<le> complete_budget s0"
    using complete_bounded.run_budget [OF assms(5)] by blast
  moreover have "complete_budget s0 \<le> transfers_used bufs v + length bufs + total_size bufs + 2"
    by (simp add: s0 complete_budget_def length_used_tids [OF v] transfers_used_def)
  ultimately show ?thesis by simp
qed

theorem complete_terminates_witness:
  "\<exists>s. run progress_step ex_complete_run (complete_start 0 ex_view (take 2 ex_bufs) 8 (ex_store 2)) = Some s
     \<and> length ex_complete_run \<le> 26"
proof -
  obtain s where s: "run progress_step ex_complete_run
      (complete_start 0 ex_view (take 2 ex_bufs) 8 (ex_store 2)) = Some s"
    using ex_complete_result by blast
  have "transfers_used (take 2 ex_bufs) ex_view = 2" "total_size (take 2 ex_bufs) = 20"
    by (simp_all add: transfers_used_def ex_bufs_def ex_view_def total_size_def)
  then show ?thesis
    using s complete_terminates [OF ex_complete_args(2) ex_view_size ex_complete_no_iso
        ex_complete_start(2) s] by (simp add: ex_bufs_def)
qed

text \<open>If one of the initial submissions of a complete operation fails, its coroutine is never
  resumed, however the run goes on.\<close>

theorem complete_failed_submission_hangs:
  assumes "view_ok v" "0 < view_size v"
    and "complete_submit checked stop self v bufs limit m = Inr (Suspended s0)"
    and "run complete_step (es @ Submit rc # fs) s0 = Some s" "rc \<noteq> LIBUSB_SUCCESS"
  shows "posts s = 0 \<and> ca_in_flight s \<noteq> 0"
proof -
  have l0: "complete_stream.latch s0"
    using assms(3) complete_start_latch [OF assms(1) _ assms(2)]
    by (simp add: complete_submit_Suspended [OF assms(1)])
  have "posts s = 0"
    using complete_stream.failed_submit_never_posts [OF l0 assms(4,5)] .
  moreover have "complete_stream.latch s" using l0 assms(4) by (rule complete_stream.latch_run)
  ultimately show ?thesis by (auto simp: complete_stream.latch_def)
qed

lemma ex_complete_failed_run:
  "\<exists>s. run complete_step ([Submit 0] @ Submit (-6) # [Complete 1 (ex_done 0 8) 0])
         (complete_start 0 ex_view ex_bufs 8 (ex_store 2)) = Some s \<and> stopped s = False"
  by (rule run_satD) code_simp

theorem complete_failed_submission_hangs_witness:
  "\<exists>s. run complete_step ([Submit 0] @ Submit (-6) # [Complete 1 (ex_done 0 8) 0])
         (complete_start 0 ex_view ex_bufs 8 (ex_store 2)) = Some s \<and> posts s = 0"
  using ex_complete_failed_run
    complete_failed_submission_hangs [OF ex_view_ok ex_view_size ex_complete_start(1)]
  by fastforce

text \<open>C3: memory safety of complete operations on transfers that are not isochronous, with a limit from 1
  to 2^31 - 1 and less than 2^64 bytes: as long as libusb reports no more bytes than it was asked
  for, every window of memory handed to it, in the first submissions and in all those made
  by the callback, lies inside one of the caller's buffers.\<close>

theorem complete_windows_inside_buffers:
  assumes "complete_args v bufs limit" "0 < view_size v"
    and "\<And>x. x \<in> set (sv_array v) \<Longrightarrow> t_type (m x) \<noteq> LIBUSB_TRANSFER_TYPE_ISOCHRONOUS"
    and "complete_submit checked stop self v bufs limit m = Inr (Suspended s0)"
    and "run conforming_step es s0 = Some s" "(x, p, len) \<in> set (slog s)"
  shows "in_buffer bufs p len"
proof -
  have v: "view_ok v" using assms(1) by (simp add: complete_args_def)
  have s0: "s0 = complete_start self v bufs limit m" and "bufs \<noteq> []"
    using assms(4) by (simp_all add: complete_submit_Suspended [OF v])
  then have "complete_data s0" using start_data [OF assms(1) _ assms(2,3)] by simp
  then have "complete_data s" using complete_conforming.run_inv [OF assms(5)] by blast
  moreover have "ca_bufs s = bufs" using conforming_run_frame [OF conforming_run [OF assms(5)]] s0 by simp
  ultimately show ?thesis using assms(6) by (auto simp: complete_data_def)
qed

lemma ex_complete_log:
  "\<exists>s. run conforming_step ex_complete_run (complete_start 0 ex_view (take 2 ex_bufs) 8 (ex_store 2)) = Some s
     \<and> slog s = [(1, 100, 8), (1, 108, 2), (2, 200, 8), (2, 206, 4)]"
  by (rule run_satD) code_simp

theorem complete_windows_inside_buffers_witness: "in_buffer (take 2 ex_bufs) 206 4"
proof -
  obtain s where s: "run conforming_step ex_complete_run
      (complete_start 0 ex_view (take 2 ex_bufs) 8 (ex_store 2)) = Some s"
    "slog s = [(1, 100, 8), (1, 108, 2), (2, 200, 8), (2, 206, 4)]" using ex_complete_log by blast
  show ?thesis
    by (rule complete_windows_inside_buffers [OF ex_complete_args(2) ex_view_size ex_complete_no_iso
          ex_complete_start(2) s(1), where x = 2]) (simp add: s(2))
qed

text \<open>C25: on transfers that are not isochronous, with a limit from 1 to 2^31 - 1, less than 2^64 bytes and
  as long as libusb reports no more bytes than it was asked for, the number of bytes a complete
  operation reports never exceeds what its buffers hold; if it reports no error it is exactly the sum
  of what libusb reported, and every completion was successful.\<close>

theorem complete_reports_bytes:
  assumes "complete_args v bufs limit" "0 < view_size v"
    and "\<And>x. x \<in> set (sv_array v) \<Longrightarrow> t_type (m x) \<noteq> LIBUSB_TRANSFER_TYPE_ISOCHRONOUS"
    and "complete_submit checked stop self v bufs limit m = Inr (Suspended s0)"
    and "run conforming_step es s0 = Some s"
  shows "unat (snd (complete_await_resume s)) \<le> total_size bufs
    \<and> (\<not> ec_bool (fst (complete_await_resume s)) \<longrightarrow>
        snd (complete_await_resume s) = run_bytes es \<and> list_all event_completed es)"
proof -
  have v: "view_ok v" using assms(1) by (simp add: complete_args_def)
  have s0: "s0 = complete_start self v bufs limit m" and "bufs \<noteq> []"
    using assms(4) by (simp_all add: complete_submit_Suspended [OF v])
  then have d0: "complete_data s0" using start_data [OF assms(1) _ assms(2,3)] by simp
  then have d: "complete_data s" using complete_conforming.run_inv [OF assms(5)] by blast
  have bufs: "ca_bufs s = bufs" using conforming_run_frame [OF conforming_run [OF assms(5)]] s0 by simp
  have zero: "sum_totals (ca_states s0) = 0"
    by (rule sum_totals_zero) (auto simp: s0 fresh_progress_def elim!: in_set_zipE)
  have "unat (sum_totals (ca_states s)) \<le> total_size bufs"
    using reported_bytes [OF d] bytes_counted_le [OF d] total_size_take_le bufs by (metis order_trans)
  then show ?thesis
    using complete_run_bytes [OF assms(5) d0] zero by (auto simp: complete_await_resume_def)
qed

theorem complete_reports_bytes_witness:
  "\<exists>s. run conforming_step ex_complete_run (complete_start 0 ex_view (take 2 ex_bufs) 8 (ex_store 2)) = Some s
     \<and> snd (complete_await_resume s) = 20"
proof -
  obtain s where s: "run progress_step ex_complete_run
      (complete_start 0 ex_view (take 2 ex_bufs) 8 (ex_store 2)) = Some s" "\<not> ec_bool (ca_ec s)"
    using ex_complete_result by blast
  have "snd (complete_await_resume s) = run_bytes ex_complete_run"
    using s(2) complete_reports_bytes [OF ex_complete_args(2) ex_view_size ex_complete_no_iso
        ex_complete_start(2) progress_run [OF s(1)]] by (simp add: complete_await_resume_def)
  also have "\<dots> = 20" by code_simp
  finally show ?thesis using progress_run [OF s(1)] by blast
qed

text \<open>with no more buffers than transfers a complete operation keeps its promise: if it resumes
  without an error it has transferred every byte of every buffer.\<close>

theorem complete_fills_all_buffers:
  assumes "complete_args v bufs limit" "length bufs \<le> view_size v"
    and "\<And>x. x \<in> set (sv_array v) \<Longrightarrow> t_type (m x) \<noteq> LIBUSB_TRANSFER_TYPE_ISOCHRONOUS"
    and "complete_submit checked stop self v bufs limit m = Inr (Suspended s0)"
    and "run conforming_step es s0 = Some s" "posts s = 1" "\<not> ec_bool (ca_ec s)"
  shows "unat (snd (complete_await_resume s)) = total_size bufs"
proof -
  have v: "view_ok v" using assms(1) by (simp add: complete_args_def)
  have s0: "s0 = complete_start self v bufs limit m" and ne: "bufs \<noteq> []"
    using assms(4) by (simp_all add: complete_submit_Suspended [OF v])
  have "0 < view_size v" using ne assms(2) by (cases bufs) auto
  then have "complete_data s0" using start_data [OF assms(1) ne _ assms(3)] s0 by simp
  moreover have "one_buffer_each s0" using start_one_buffer [OF v assms(2)] s0 by simp
  ultimately have d: "complete_data s" "one_buffer_each s"
    using one_buffer.run_inv [OF assms(5)] by blast+
  have bufs: "ca_bufs s = bufs" using conforming_run_frame [OF conforming_run [OF assms(5)]] s0 by simp
  have "complete_stream.latch s" using d(1) by (simp add: complete_data_def)
  then have "outstanding s = {} \<and> ca_to_submit s = []"
    using complete_stream.latch_posts assms(6) by blast
  then show ?thesis
    using one_buffer_done [OF d assms(7)] bufs by (simp add: complete_await_resume_def)
qed

theorem complete_fills_all_buffers_witness:
  "\<exists>s. run conforming_step ex_complete_run (complete_start 0 ex_view (take 2 ex_bufs) 8 (ex_store 2)) = Some s
     \<and> unat (snd (complete_await_resume s)) = 20"
proof -
  obtain s where s: "run progress_step ex_complete_run
      (complete_start 0 ex_view (take 2 ex_bufs) 8 (ex_store 2)) = Some s" "\<not> ec_bool (ca_ec s)" "posts s = 1"
    using ex_complete_result by blast
  have "length (take 2 ex_bufs) \<le> view_size ex_view" "total_size (take 2 ex_bufs) = 20"
    by (simp_all add: ex_bufs_def ex_view_def total_size_def)
  then show ?thesis
    using complete_fills_all_buffers [OF ex_complete_args(2) _ ex_complete_no_iso
        ex_complete_start(2) progress_run [OF s(1)] s(3,2)] progress_run [OF s(1)] by simp
qed

text \<open>With more buffers than transfers a complete operation does not keep its promise: the bytes
  counted for a transfer are not reset when it goes on to the next buffer, so a buffer that is no
  larger than the one before is taken as full after its first completion.  One transfer and two
  buffers: the first is read in full, the second gets a completion of zero bytes, and the
  operation reports success with the bytes of the first buffer only.\<close>

definition stop_short_run :: "tid \<Rightarrow> size_t \<Rightarrow> io_event list" where
  "stop_short_run x n = [Submit 0,
     Complete x \<lparr>c_status = 0, c_actual_length = ucast n, c_packets = []\<rparr> 0,
     Complete x \<lparr>c_status = 0, c_actual_length = 0, c_packets = []\<rparr> 0]"

theorem complete_stops_short:
  assumes "0 < buf_size b2" "buf_size b2 \<le> buf_size b1" "buf_size b1 \<le> limit" "unat (buf_size b1) < 2 ^ 31"
    and "t_type (m x) \<noteq> LIBUSB_TRANSFER_TYPE_ISOCHRONOUS"
  shows "\<exists>s. run conforming_step (stop_short_run x (buf_size b1))
      (complete_start self (make_view (Resource x)) [b1, b2] limit m) = Some s
    \<and> posts s = 1 \<and> complete_await_resume s = (ec_none, buf_size b1)
    \<and> unat (buf_size b1) < total_size [b1, b2]"
proof -
  have n: "sint (ucast (buf_size b1) :: c_int) = int (unat (buf_size b1))"
    using assms(4) by (rule sint_ucast_small)
  then have "unat (scast (ucast (buf_size b1) :: c_int) :: size_t) = unat (buf_size b1)"
    by (subst unat_scast_nonneg) simp_all
  then have w: "scast (ucast (buf_size b1) :: c_int) = buf_size b1" by (rule unsigned_word_eqI)
  have u2: "unat (buf_size b2) < 2 ^ 31" "buf_size b2 \<le> limit"
    using assms(2,3,4) by (auto simp: word_le_nat_alt)
  then have n2: "sint (ucast (buf_size b2) :: c_int) = int (unat (buf_size b2))"
    by (intro sint_ucast_small)
  have used: "used_tids [b1, b2] (make_view (Resource x)) = [x]"
    "transfers_used [b1, b2] (make_view (Resource x)) = 1"
    by (simp_all add: used_tids_def transfers_used_def make_view_def view_size_def view_begin_def view_end_def)
  have m1: "min (buf_size b1) limit = buf_size b1" "min (buf_size b2) limit = buf_size b2"
    using assms(3) u2(2) by (simp_all add: min_def)
  show ?thesis
    using assms(5) assms(1,2)
    by (simp add: stop_short_run_def conforming_step_def io_conforms_def complete_start_def Let_def
        initial_complete_await_def used fresh_progress_def complete_prepare_def m1 n w n2
        libusb_accept_def libusb_complete_def complete_transfer_callback_def subtotal_of_def
        iso_error_of_def set_window_def complete_resubmit_def complete_resume_on_zero_def
        complete_await_resume_def sum_totals_def deliver_def word_less_nat_alt)
qed

theorem complete_stops_short_witness:
  "\<exists>s. run conforming_step (stop_short_run 1 4)
      (complete_start 0 (make_view (Resource 1)) [\<lparr>buf_data = 100, buf_size = 4\<rparr>, \<lparr>buf_data = 200, buf_size = 4\<rparr>]
        8 (ex_store 2)) = Some s
    \<and> posts s = 1 \<and> complete_await_resume s = (ec_none, 4)"
  using complete_stops_short [of "\<lparr>buf_data = 200, buf_size = 4\<rparr>" "\<lparr>buf_data = 100, buf_size = 4\<rparr>" 8 "ex_store 2" 1 0]
  by (auto simp: ex_store_def)

text \<open>A completion of zero bytes is no end of input: as long as a transfer has not filled its
  buffer, each successful completion of zero bytes submits it again with the window unchanged, so
  a device that answers with empty packets keeps the operation going for ever.\<close>

definition empty_completion :: completion where
  "empty_completion = \<lparr>c_status = 0, c_actual_length = 0, c_packets = []\<rparr>"

theorem complete_zero_bytes_never_end:
  assumes "x \<in> outstanding s" "map_of (ca_states s) x = Some p" "\<not> pg_expected p \<le> pg_total p"
    and "t_type (tfers s x) \<noteq> LIBUSB_TRANSFER_TYPE_ISOCHRONOUS" "\<not> ec_bool (ca_ec s)"
  shows "\<exists>t. run complete_step (replicate k (Complete x empty_completion 0)) s = Some t
    \<and> posts t = posts s \<and> x \<in> outstanding t \<and> length (slog t) = length (slog s) + k"
  using assms
proof (induction k arbitrary: s)
  case 0
  then show ?case by simp
next
  case (Suc k)
  let ?u = "complete_after x empty_completion 0 s"
  have q: "add_bytes empty_completion p = p" "advance empty_completion p = p"
    by (simp_all add: add_bytes_def advance_def empty_completion_def)
  have st: "c_status empty_completion = LIBUSB_TRANSFER_COMPLETED" by (simp add: empty_completion_def)
  have "resubmitted x p (min (pg_expected p - pg_total p) (ca_limit s)) empty_completion 0 s ?u"
    using complete_after_cases [OF Suc.prems(2,4,5), of empty_completion 0] Suc.prems(3) q st by simp
  then have u: "outstanding ?u = insert x (outstanding s)" "ca_states ?u = AList.update x p (ca_states s)"
    "ca_ec ?u = ca_ec s" "length (slog ?u) = length (slog s) + 1"
    by (simp_all add: resubmitted_def)
  have po: "posts ?u = posts s"
    using complete_callback_law [OF Suc.prems(1), of 0 empty_completion] Suc.prems(1,2) u(1) by auto
  have "\<exists>t. run complete_step (replicate k (Complete x empty_completion 0)) ?u = Some t
    \<and> posts t = posts ?u \<and> x \<in> outstanding t \<and> length (slog t) = length (slog ?u) + k"
    by (rule Suc.IH) (use u Suc.prems in \<open>simp_all add: complete_after_frame\<close>)
  then show ?case using Suc.prems(1) po u(4) by simp
qed

definition ex_zero_state :: complete_await where
  "ex_zero_state = (complete_start 0 ex_view ex_bufs 8 (ex_store 2))\<lparr>outstanding := {1}\<rparr>"

theorem complete_zero_bytes_never_end_witness:
  "\<exists>t. run complete_step (replicate 1000 (Complete 1 empty_completion 0)) ex_zero_state = Some t
     \<and> posts t = 0"
proof -
  have st: "ca_states ex_zero_state = [(1, \<lparr>pg_ptr = 100, pg_expected = 10, pg_total = 0\<rparr>),
      (2, \<lparr>pg_ptr = 200, pg_expected = 10, pg_total = 0\<rparr>)]" by code_simp
  have "t_type (tfers ex_zero_state 1) = 2 \<and> outstanding ex_zero_state = {1} \<and> posts ex_zero_state = 0
      \<and> \<not> ec_bool (ca_ec ex_zero_state)" by code_simp
  then show ?thesis
    using complete_zero_bytes_never_end [of 1 ex_zero_state "\<lparr>pg_ptr = 100, pg_expected = 10, pg_total = 0\<rparr>" 1000]
      st by auto
qed

text \<open>The length of a libusb transfer is an \<open>int\<close>: a window of 2 GiB or more, which the limit does
  not exclude, comes out as a negative length, both where a complete operation sets up its
  transfers and where a partial operation takes a whole buffer.\<close>

theorem window_length_overflow:
  assumes "2 ^ 31 \<le> unat (min (buf_size b) limit)" "unat (min (buf_size b) limit) < 2 ^ 32"
  shows "sint (t_length (complete_prepare self limit b t)) = int (unat (min (buf_size b) limit)) - 2 ^ 32"
proof -
  let ?w = "min (buf_size b) limit"
  have n: "uint ?w = int (unat ?w)" by simp
  have "int (2 ^ 31) \<le> int (unat ?w)" "int (unat ?w) < int (2 ^ 32)"
    using assms by (simp_all only: of_nat_le_iff of_nat_less_iff)
  then have "2 ^ 31 \<le> uint ?w" "uint ?w < 2 ^ 32" unfolding n by simp_all
  then have "sint (ucast ?w :: c_int) = uint ?w - 2 ^ 32" by (rule sint_ucast_high)
  moreover have "t_length (complete_prepare self limit b t) = ucast ?w" by (simp add: complete_prepare_def)
  ultimately show ?thesis by (simp only: n)
qed

theorem window_length_overflow_witness:
  "sint (t_length (complete_prepare 0 0xFFFFFFFFFFFFFFFF \<lparr>buf_data = 0, buf_size = 0x80000000\<rparr> null_transfer)) < 0"
  using window_length_overflow [of "\<lparr>buf_data = 0, buf_size = 0x80000000\<rparr>" "0xFFFFFFFFFFFFFFFF" 0 null_transfer]
  by (simp add: min_def)

end
