(* ===== verification/Complete_Bytes.thy ===== *)
theory Complete_Bytes
  imports Complete_Props
begin

text \<open>
  Complete I/O, continued: which bytes of memory the completions move.  With no more buffers than
  transfers each transfer walks through its one buffer from the first byte to the last: the memory
  a completion moves starts where the one before ended, so a successful operation moves every byte
  of every buffer once, in order.
\<close>

section \<open>The bytes a completion moves\<close>

definition segment :: "address \<Rightarrow> nat \<Rightarrow> address list" where
  "segment a n = map (\<lambda>k. a + of_nat k) [0..<n]"

lemma segment_0 [simp]: "segment a 0 = []"
  by (simp add: segment_def)

lemma length_segment [simp]: "length (segment a n) = n"
  by (simp add: segment_def)

lemma segment_append: "segment a (m + n) = segment a m @ segment (a + of_nat m) n"
  by (rule nth_equalityI) (auto simp: segment_def nth_append add.assoc simp flip: of_nat_add)

text \<open>The bytes transfer \<open>x\<close> moves in an event: those libusb reports, from the start of the window it
  was given.\<close>

fun io_moved :: "tid \<Rightarrow> io_event \<Rightarrow> 'a io_base_scheme \<Rightarrow> address list" where
  "io_moved x (Complete y c rc) s =
     (if y = x then segment (t_buffer (tfers s x)) (nat (sint (c_actual_length c))) else [])"
| "io_moved x _ s = []"

fun run_moved :: "(io_event \<Rightarrow> 'a io_base_scheme \<Rightarrow> 'a io_base_scheme option) \<Rightarrow> tid \<Rightarrow> io_event list
    \<Rightarrow> 'a io_base_scheme \<Rightarrow> address list" where
  "run_moved step x [] s = []"
| "run_moved step x (e # es) s =
     io_moved x e s @ (case step e s of None \<Rightarrow> [] | Some t \<Rightarrow> run_moved step x es t)"

section \<open>Each transfer at its place in its buffer\<close>

definition in_place :: "complete_await \<Rightarrow> bool" where
  "in_place s \<longleftrightarrow> (\<forall>(x, b) \<in> set (zip (complete_used s) (ca_bufs s)).
     x \<in> outstanding s \<union> set (ca_to_submit s) \<longrightarrow>
     t_buffer (tfers s x) = buf_data b + pg_total (progress_of s x))"

definition placed :: "complete_await \<Rightarrow> bool" where
  "placed s \<longleftrightarrow> complete_data s \<and> one_buffer_each s \<and> in_place s"

lemma in_placeD:
  "in_place s \<Longrightarrow> (x, b) \<in> set (zip (complete_used s) (ca_bufs s)) \<Longrightarrow> x \<in> outstanding s \<union> set (ca_to_submit s) \<Longrightarrow>
   t_buffer (tfers s x) = buf_data b + pg_total (progress_of s x)"
  by (auto simp: in_place_def)

lemma data_window:
  assumes "complete_data s" "x \<in> outstanding s \<union> set (ca_to_submit s)"
  shows "t_buffer (tfers s x) = pg_ptr (progress_of s x)"
  using assms by (auto simp: complete_data_def caps_ok_def slot_ok_def)

text \<open>What a completion leaves of the transfers it is not about, and of its own if that goes on.\<close>

lemma in_place_complete:
  assumes d: "complete_data s" and one: "one_buffer_each s" and p: "in_place s" and x: "x \<in> outstanding s"
    and ec: "\<not> ec_bool (ca_ec s)"
  shows "in_place (complete_after x c rc s)"
proof -
  let ?u = "complete_after x c rc s" and ?q = "add_bytes c (progress_of s x)"
  have sub: "ca_to_submit ?u = ca_to_submit s"
    using complete_callback_law [OF x, of rc c] data_record [OF d x] by simp
  have disj: "x \<notin> set (ca_to_submit s)"
    using d x by (auto simp: complete_data_def complete_stream.latch_def)
  have other: "t_buffer (tfers ?u y) = buf_data b + pg_total (progress_of ?u y)"
    if "ca_states ?u = AList.update x q (ca_states s)" "outstanding ?u \<subseteq> outstanding s" "y \<noteq> x"
      "(y, b) \<in> set (zip (complete_used s) (ca_bufs s))" "y \<in> outstanding ?u \<union> set (ca_to_submit s)" for y b q
    using in_placeD [OF p that(4)] that by (auto simp: complete_after_frame)
  show ?thesis
  proof (cases rule: completion_outcome [OF d x ec, of c rc])
    case 1
    then show ?thesis using disj other [of ?q]
      by (auto simp: in_place_def complete_after_frame sub given_up_def)
  next
    case 2
    then show ?thesis using one by (simp add: one_buffer_each_def)
  next
    case 3
    have out: "outstanding ?u \<subseteq> outstanding s"
      using 3(3) x by (auto simp: resubmitted_def split: if_splits)
    have st: "ca_states ?u = AList.update x (advance c ?q) (ca_states s)"
      "t_buffer (tfers ?u x) = pg_ptr (progress_of s x) + scast (c_actual_length c)"
      using 3(3) by (simp_all add: resubmitted_def)
    have "t_buffer (tfers ?u x) = buf_data b + pg_total (progress_of ?u x)"
      if "(x, b) \<in> set (zip (complete_used s) (ca_bufs s))" for b
      using in_placeD [OF p that] x data_window [OF d, of x] st by simp
    then have "t_buffer (tfers ?u y) = buf_data b + pg_total (progress_of ?u y)"
      if "(y, b) \<in> set (zip (complete_used s) (ca_bufs s))" "y \<in> outstanding ?u \<union> set (ca_to_submit s)" for y b
      using that other [OF st(1) out, of y b] by (cases "y = x") blast+
    then show ?thesis unfolding in_place_def complete_after_frame sub by blast
  qed
qed

lemma in_place_failed:
  assumes p: "in_place s" and x: "x \<in> outstanding s" and ec: "ec_bool (ca_ec s)"
    and sub: "ca_to_submit (complete_after x c rc s) = ca_to_submit s"
  shows "in_place (complete_after x c rc s)"
proof -
  have "t_buffer (tfers (complete_after x c rc s) y) = t_buffer (tfers s y)" for y
    by (cases "y = x") (simp_all add: complete_after_failed [OF ec])
  then show ?thesis
    using p by (auto simp: in_place_def complete_after_failed [OF ec] complete_after_frame sub)
qed

lemma placed_step:
  assumes pl: "placed s" and st: "conforming_step e s = Some t"
  shows "placed t"
proof -
  have d: "complete_data s" and one: "one_buffer_each s" and p: "in_place s"
    using pl by (simp_all add: placed_def)
  have st': "complete_step e s = Some t" using st by (auto simp: conforming_step_def split: if_splits)
  have "in_place t"
  proof (cases e)
    case (Submit rc)
    then show ?thesis using st' p by (auto simp: in_place_def split: list.splits if_splits)
  next
    case (Complete x c rc)
    then have x: "x \<in> outstanding s" and t: "t = complete_after x c rc s"
      using st' by (auto split: if_splits)
    have sub: "ca_to_submit t = ca_to_submit s"
      using complete_callback_law [OF x, of rc c] data_record [OF d x] by (simp add: t)
    show ?thesis
      using in_place_complete [OF d one p x] in_place_failed [OF p x] sub unfolding t
      by (cases "ec_bool (ca_ec s)") blast+
  next
    case Stop
    then obtain xs where "t = s\<lparr>stopped := True, cancels := xs\<rparr>"
      using st' by (auto simp: complete_stop_def split: if_splits)
    then show ?thesis using p by (simp add: in_place_def)
  qed
  then show ?thesis using data_step [OF d st] one_buffer_step [OF d one st'] by (simp add: placed_def)
qed

interpretation placed_machine: machine conforming_step placed
  by unfold_locales (rule placed_step)

section \<open>The bytes of a run\<close>

lemma placed_bytes:
  assumes pl: "placed s" and st: "conforming_step e s = Some t" and ec: "\<not> ec_bool (ca_ec s)"
    and b: "(x, b) \<in> set (zip (complete_used s) (ca_bufs s))"
  shows "unat (pg_total (progress_of t x)) = unat (pg_total (progress_of s x)) + length (io_moved x e s)"
    and "io_moved x e s = segment (buf_data b + pg_total (progress_of s x)) (length (io_moved x e s))"
proof -
  have d: "complete_data s" and p: "in_place s" using pl by (simp_all add: placed_def)
  have st': "complete_step e s = Some t" and conf: "io_conforms e s"
    using st by (auto simp: conforming_step_def split: if_splits)
  have "unat (pg_total (progress_of t x)) = unat (pg_total (progress_of s x)) + length (io_moved x e s)
    \<and> io_moved x e s = segment (buf_data b + pg_total (progress_of s x)) (length (io_moved x e s))"
  proof (cases e)
    case (Submit rc)
    then show ?thesis using st' by (auto split: list.splits if_splits)
  next
    case (Complete y c rc)
    then have y: "y \<in> outstanding s" and t: "t = complete_after y c rc s" using st' by (auto split: if_splits)
    obtain cap where caps: "caps_ok cap s" using d by (auto simp: complete_data_def)
    have "\<exists>q. ca_states t = AList.update y q (ca_states s) \<and> pg_total q = pg_total (add_bytes c (progress_of s y))"
      by (cases rule: completion_outcome [OF d y ec, of c rc]) (auto simp: t given_up_def resubmitted_def)
    then have "unat (pg_total (progress_of t x)) =
        unat (pg_total (progress_of s x)) + (if x = y then nat (sint (c_actual_length c)) else 0)"
      using conforming_bytes(1) [OF d caps y, of c rc] conf Complete by auto
    moreover have "t_buffer (tfers s y) = buf_data b + pg_total (progress_of s y)" if "x = y"
      using in_placeD [OF p, of y b] b y that by simp
    ultimately show ?thesis using Complete by auto
  next
    case Stop
    then show ?thesis using st' by (auto simp: complete_stop_def split: if_splits)
  qed
  then show "unat (pg_total (progress_of t x)) = unat (pg_total (progress_of s x)) + length (io_moved x e s)"
    "io_moved x e s = segment (buf_data b + pg_total (progress_of s x)) (length (io_moved x e s))"
    by blast+
qed

lemma placed_run_bytes:
  "run conforming_step es s = Some t \<Longrightarrow> placed s \<Longrightarrow> \<not> ec_bool (ca_ec t) \<Longrightarrow>
   (x, b) \<in> set (zip (complete_used s) (ca_bufs s)) \<Longrightarrow>
   unat (pg_total (progress_of t x)) = unat (pg_total (progress_of s x)) + length (run_moved conforming_step x es s)
   \<and> run_moved conforming_step x es s =
      segment (buf_data b + pg_total (progress_of s x)) (length (run_moved conforming_step x es s))"
proof (induction rule: run_induct)
  case (Cons e es s u t)
  note u = Cons(1,2)
  have pu: "placed u" using Cons.prems(1) u(1) by (rule placed_step)
  then have "\<not> ec_bool (ca_ec u)"
    using complete_run_bytes [OF u(2)] Cons.prems(2) by (simp add: placed_def)
  moreover have "complete_step e s = Some u" using u(1) by (auto simp: conforming_step_def split: if_splits)
  ultimately have clean: "\<not> ec_bool (ca_ec s)"
    using complete_step_bytes Cons.prems(1) by (auto simp: placed_def)
  have frame: "complete_used u = complete_used s" "ca_bufs u = ca_bufs s"
    using conforming_run_frame [OF conforming_run, of "[e]" s u] u(1) by auto
  note one = placed_bytes [OF Cons.prems(1) u(1) clean Cons.prems(3)]
  have rest: "unat (pg_total (progress_of t x)) = unat (pg_total (progress_of u x)) + length (run_moved conforming_step x es u)"
    "run_moved conforming_step x es u =
      segment (buf_data b + pg_total (progress_of u x)) (length (run_moved conforming_step x es u))"
    using Cons.IH [OF pu Cons.prems(2)] Cons.prems(3) frame by simp_all
  have "pg_total (progress_of u x) = pg_total (progress_of s x) + of_nat (length (io_moved x e s))"
    using arg_cong [OF one(1), of "of_nat :: nat \<Rightarrow> size_t"] by simp
  then show ?case
    using one rest u(1) segment_append [of "buf_data b + pg_total (progress_of s x)"]
    by (simp add: add.assoc)
qed simp

section \<open>Every byte once\<close>

lemma start_placed:
  assumes args: "complete_args v bufs limit" and ne: "bufs \<noteq> []" and le: "length bufs \<le> view_size v"
    and iso: "\<And>x. x \<in> set (sv_array v) \<Longrightarrow> t_type (m x) \<noteq> LIBUSB_TRANSFER_TYPE_ISOCHRONOUS"
  shows "placed (complete_start self v bufs limit m)"
proof -
  let ?s = "complete_start self v bufs limit m"
  have v: "view_ok v" using args by (simp add: complete_args_def)
  have n: "transfers_used bufs v = length bufs" using le by (simp add: transfers_used_def)
  have len: "length (used_tids bufs v) = length bufs" using length_used_tids [OF v] n by simp
  have "t_buffer (tfers ?s (used_tids bufs v ! i)) =
      buf_data (bufs ! i) + pg_total (progress_of ?s (used_tids bufs v ! i))" if "i < length bufs" for i
    using that len n start_progress [OF v, of i bufs self limit m] distinct_used_tids [OF v]
    by (simp add: prepare_all_nth complete_prepare_def fresh_progress_def del: complete_start_simps(7))
  then have "in_place ?s"
    unfolding in_place_def by (fastforce simp: in_set_zip len simp del: complete_start_simps(7,17))
  then show ?thesis
    using start_data [OF args ne _ iso] start_one_buffer [OF v le] ne le by (cases bufs) (auto simp: placed_def)
qed

lemma totals_are_sizes:
  assumes d: "complete_data s" and one: "one_buffer_each s" and clean: "\<not> ec_bool (ca_ec s)"
    and idle: "outstanding s = {}" "ca_to_submit s = []" and frame: "ca_view s = v" "ca_bufs s = bufs"
    and len: "length (used_tids bufs v) = length bufs" and i: "i < length bufs"
  shows "unat (buf_size (bufs ! i)) = unat (pg_total (progress_of s (used_tids bufs v ! i)))"
proof -
  have exp: "map (\<lambda>x. pg_expected (progress_of s x)) (used_tids bufs v) = map buf_size bufs"
    and full: "\<forall>x \<in> set (used_tids bufs v). pg_expected (progress_of s x) \<le> pg_total (progress_of s x)"
    using one clean idle frame by (auto simp: one_buffer_each_def)
  have "(\<Sum>j<length bufs. unat (pg_total (progress_of s (used_tids bufs v ! j)))) = bytes_counted s"
    by (simp add: bytes_counted_def frame sum_list_sum_nth len atLeast0LessThan)
  also have "\<dots> = total_size bufs"
    using one_buffer_done [OF d one clean idle] reported_bytes [OF d] frame by simp
  also have "\<dots> = (\<Sum>j<length bufs. unat (buf_size (bufs ! j)))"
    by (simp add: total_size_def sum_list_sum_nth atLeast0LessThan)
  finally have sum: "(\<Sum>j<length bufs. unat (buf_size (bufs ! j))) =
      (\<Sum>j<length bufs. unat (pg_total (progress_of s (used_tids bufs v ! j))))" by (rule sym)
  have le: "unat (buf_size (bufs ! j)) \<le> unat (pg_total (progress_of s (used_tids bufs v ! j)))"
    if "j < length bufs" for j
  proof -
    have "pg_expected (progress_of s (used_tids bufs v ! j)) = buf_size (bufs ! j)"
      using that len arg_cong [OF exp, of "\<lambda>xs. xs ! j"] by simp
    then show ?thesis using full that len by (metis nth_mem word_le_nat_alt)
  qed
  show ?thesis
    using sum_mono_inv [OF sum] le i by (metis (no_types, lifting) finite_lessThan lessThan_iff)
qed

text \<open>C5: with no more buffers than transfers, transfers that are not isochronous, a limit from 1 to
  2^31 - 1, less than 2^64 bytes, and as long as libusb reports no more bytes than it was asked for, a
  complete operation that resumes without an error has moved every byte of every buffer exactly once and in order: the memory its completions moved
  through the transfer of a buffer, one after the other, is that buffer from its first byte to its
  last.\<close>

theorem complete_moves_every_byte_once:
  assumes "complete_args v bufs limit" "length bufs \<le> view_size v"
    and "\<And>x. x \<in> set (sv_array v) \<Longrightarrow> t_type (m x) \<noteq> LIBUSB_TRANSFER_TYPE_ISOCHRONOUS"
    and "complete_submit checked stop self v bufs limit m = Inr (Suspended s0)"
    and "run conforming_step es s0 = Some s" "posts s = 1" "\<not> ec_bool (ca_ec s)"
    and "i < length bufs"
  shows "run_moved conforming_step (used_tids bufs v ! i) es s0 =
    segment (buf_data (bufs ! i)) (unat (buf_size (bufs ! i)))"
proof -
  have v: "view_ok v" using assms(1) by (simp add: complete_args_def)
  have s0: "s0 = complete_start self v bufs limit m" and ne: "bufs \<noteq> []"
    using assms(4) by (simp_all add: complete_submit_Suspended [OF v])
  have n: "transfers_used bufs v = length bufs" using assms(2) by (simp add: transfers_used_def)
  let ?x = "used_tids bufs v ! i" and ?b = "bufs ! i"
  have b: "(?x, ?b) \<in> set (zip (used_tids bufs v) bufs)"
    using assms(8) length_used_tids [OF v] n by (auto simp: set_zip)
  have pl0: "placed s0" unfolding s0 using assms(1) ne assms(2,3) by (rule start_placed)
  then have pl: "placed s" using assms(5) by (metis placed_machine.run_inv)
  have frame: "ca_view s = v" "ca_bufs s = bufs"
    using conforming_run_frame [OF conforming_run [OF assms(5)]] s0 by simp_all
  have idle: "outstanding s = {}" "ca_to_submit s = []"
    using pl assms(6) complete_stream.latch_posts by (auto simp: placed_def complete_data_def)
  have "pg_total (progress_of s0 ?x) = 0"
    using start_progress [OF v, of i bufs self limit m] assms(8) n
    by (simp add: s0 fresh_progress_def del: complete_start_simps(7))
  with placed_run_bytes [OF assms(5) pl0 assms(7), of ?x ?b] b
  have moved: "unat (pg_total (progress_of s ?x)) = length (run_moved conforming_step ?x es s0)"
    "run_moved conforming_step ?x es s0 = segment (buf_data ?b) (length (run_moved conforming_step ?x es s0))"
    by (simp_all add: s0)
  have one: "one_buffer_each s" and d: "complete_data s" using pl by (simp_all add: placed_def)
  have len: "length (used_tids bufs v) = length bufs" using length_used_tids [OF v] n by simp
  have "unat (buf_size ?b) = unat (pg_total (progress_of s ?x))"
    by (rule totals_are_sizes [OF d one assms(7) idle frame len assms(8)])
  then show ?thesis using moved by simp
qed

theorem complete_moves_every_byte_once_witness:
  "\<exists>s. run conforming_step ex_complete_run (complete_start 0 ex_view (take 2 ex_bufs) 8 (ex_store 2)) = Some s
     \<and> run_moved conforming_step 2 ex_complete_run (complete_start 0 ex_view (take 2 ex_bufs) 8 (ex_store 2))
       = segment 200 10"
proof -
  obtain s where s: "run progress_step ex_complete_run
      (complete_start 0 ex_view (take 2 ex_bufs) 8 (ex_store 2)) = Some s" "\<not> ec_bool (ca_ec s)" "posts s = 1"
    using ex_complete_result by blast
  have ex: "length (take 2 ex_bufs) \<le> view_size ex_view" "used_tids (take 2 ex_bufs) ex_view = [1, 2]"
    by (simp_all add: ex_bufs_def ex_view_def used_tids_def transfers_used_def make_view_def view_size_def)
  show ?thesis
    using complete_moves_every_byte_once [OF ex_complete_args(2) ex(1) ex_complete_no_iso ex_complete_start(2)
        progress_run [OF s(1)] s(3,2), of 1] progress_run [OF s(1)] ex(2)
    by (simp add: ex_bufs_def)
qed

end
