(* ===== verification/Ownership.thy ===== *)
theory Ownership
  imports Prelude
begin

text \<open>
  The RAII wrappers of the library own a token: an open device handle, a claimed interface, a
  detached driver.  This theory holds the machine of a program that makes, moves, assigns, empties
  and destroys such objects, the interface \<open>owner\<close> of the operations of a wrapper, and the
  accounting that follows: every token that was acquired is owned by exactly one object, was
  handed out by \<open>release\<close>, or was disposed of exactly once.  The second part counts the objects
  that refer to a shared target, for the reference counted wrappers.
\<close>

section \<open>Objects that own a token\<close>

record ('g, 't) owner_world =
  objs :: "nat \<Rightarrow> 'g option"
  acquired :: "'t list"
  disposed :: "'t list"
  given_up :: "'t list"

text \<open>
  The operations of a wrapper type.  \<open>op_dispose\<close>, \<open>op_destroy\<close> and \<open>op_assign\<close> give the tokens
  they disposed of, that is the calls they made to libusb; the integer argument is what such a call
  returns.  \<open>None\<close>: the call does not return, or the wrapper has no such operation.
  \<open>op_emplace\<close> gives an existing object a new token.
\<close>

record ('g, 't) owner_ops =
  op_make :: "'t \<Rightarrow> 'g"
  op_move :: "'g \<Rightarrow> 'g \<times> 'g"
  op_assign :: "int \<Rightarrow> 'g \<Rightarrow> 'g \<Rightarrow> ('g \<times> 'g \<times> 't list) option"
  op_dispose :: "int \<Rightarrow> 'g \<Rightarrow> ('g \<times> 't list) option"
  op_give_up :: "'g \<Rightarrow> 'g \<times> 't list"
  op_destroy :: "int \<Rightarrow> 'g \<Rightarrow> 't list option"
  op_emplace :: "'t \<Rightarrow> 'g \<Rightarrow> ('g \<times> 't list) option"

text \<open>
  \<open>Acquire o t\<close>: a successful acquisition constructs object \<open>o\<close> for \<open>t\<close>; \<open>Move o p\<close>: \<open>o\<close> is move
  constructed from \<open>p\<close>; \<open>Move_Assign o p rc\<close>; \<open>Dispose o rc\<close>; \<open>Give_Up o\<close>; \<open>Destroy o rc\<close>.
  Assigning an object to itself does nothing, for the wrappers by their test of \<open>this\<close>, for a
  \<open>unique_ptr\<close> by the standard.
\<close>

datatype 't owner_event =
    Acquire nat 't | Move nat nat | Move_Assign nat nat int | Dispose nat int | Give_Up nat
  | Destroy nat int | Emplace nat 't

fun owner_step :: "('g, 't) owner_ops \<Rightarrow> 't owner_event \<Rightarrow> ('g, 't) owner_world \<Rightarrow> ('g, 't) owner_world option" where
  "owner_step ops (Acquire i t) w =
     (if objs w i = None
      then Some (w\<lparr>objs := (objs w)(i := Some (op_make ops t)), acquired := acquired w @ [t]\<rparr>) else None)"
| "owner_step ops (Move i j) w =
     (case (objs w i, objs w j) of
        (None, Some g) \<Rightarrow>
          let (n, m) = op_move ops g in Some (w\<lparr>objs := (objs w)(j := Some m, i := Some n)\<rparr>)
      | _ \<Rightarrow> None)"
| "owner_step ops (Move_Assign i j rc) w =
     (case (objs w i, objs w j) of
        (Some g, Some h) \<Rightarrow>
          if i = j then Some w
          else map_option (\<lambda>(g', h', ts).
            w\<lparr>objs := (objs w)(i := Some g', j := Some h'), disposed := disposed w @ ts\<rparr>) (op_assign ops rc g h)
      | _ \<Rightarrow> None)"
| "owner_step ops (Dispose i rc) w =
     (case objs w i of
        Some g \<Rightarrow> map_option (\<lambda>(g', ts).
          w\<lparr>objs := (objs w)(i := Some g'), disposed := disposed w @ ts\<rparr>) (op_dispose ops rc g)
      | None \<Rightarrow> None)"
| "owner_step ops (Give_Up i) w =
     (case objs w i of
        Some g \<Rightarrow> let (g', ts) = op_give_up ops g in
          Some (w\<lparr>objs := (objs w)(i := Some g'), given_up := given_up w @ ts\<rparr>)
      | None \<Rightarrow> None)"
| "owner_step ops (Destroy i rc) w =
     (case objs w i of
        Some g \<Rightarrow> map_option (\<lambda>ts.
          w\<lparr>objs := (objs w)(i := None), disposed := disposed w @ ts\<rparr>) (op_destroy ops rc g)
      | None \<Rightarrow> None)"
| "owner_step ops (Emplace i t) w =
     (case objs w i of
        Some g \<Rightarrow>
          map_option (\<lambda>(g', ts).
            w\<lparr>objs := (objs w)(i := Some g'), acquired := acquired w @ [t], disposed := disposed w @ ts\<rparr>)
            (op_emplace ops t g)
      | None \<Rightarrow> None)"

definition owner_init :: "('g, 't) owner_world" where
  "owner_init = \<lparr>objs = (\<lambda>_. None), acquired = [], disposed = [], given_up = []\<rparr>"

section \<open>Sums over objects\<close>

definition held_by :: "('g \<Rightarrow> 't list) \<Rightarrow> 'g option \<Rightarrow> 't multiset" where
  "held_by toks x = (case x of None \<Rightarrow> {#} | Some g \<Rightarrow> mset (toks g))"

definition held :: "('g \<Rightarrow> 't list) \<Rightarrow> (nat \<Rightarrow> 'g option) \<Rightarrow> 't multiset" where
  "held toks m = (\<Sum>i \<in> dom m. held_by toks (m i))"

lemma held_by_simps [simp]:
  "held_by toks None = {#}"
  "held_by toks (Some g) = mset (toks g)"
  by (simp_all add: held_by_def)

lemma held_superset:
  assumes "finite A" "dom m \<subseteq> A"
  shows "held toks m = (\<Sum>i \<in> A. held_by toks (m i))"
  unfolding held_def by (rule sum.mono_neutral_left) (use assms in \<open>auto simp: held_by_def split: option.splits\<close>)

lemma held_update:
  assumes "finite (dom m)"
  shows "held toks (m(i := v)) + held_by toks (m i) = held toks m + held_by toks v"
proof -
  let ?A = "insert i (dom m)"
  have "held toks (m(i := v)) = (\<Sum>k \<in> ?A. held_by toks ((m(i := v)) k))"
    using assms by (intro held_superset) auto
  also have "\<dots> = held_by toks v + (\<Sum>k \<in> dom m - {i}. held_by toks (m k))"
    using assms by (simp add: sum.insert_remove)
  moreover have "held toks m = held_by toks (m i) + (\<Sum>k \<in> dom m - {i}. held_by toks (m k))"
    using assms held_superset [of ?A m toks] by (simp add: sum.insert_remove insert_absorb subset_insertI)
  ultimately show ?thesis by (simp add: add_ac)
qed

lemma count_held_zero:
  assumes "finite (dom m)"
  shows "count (held toks m) x = 0 \<longleftrightarrow> (\<forall>i g. m i = Some g \<longrightarrow> x \<notin> set (toks g))"
proof -
  have "count (held toks m) x = 0 \<longleftrightarrow> (\<forall>i \<in> dom m. count (held_by toks (m i)) x = 0)"
    unfolding held_def count_sum using assms by simp
  then show ?thesis by (auto simp: held_by_def count_mset_0_iff split: option.splits)
qed

section \<open>The interface\<close>

locale owner =
  fixes ops :: "('g, 't) owner_ops"
    and tokens :: "'g \<Rightarrow> 't list"
  assumes make_law: "tokens (op_make ops t) = [t]"
    and move_law: "op_move ops g = (n, m) \<Longrightarrow> tokens n = tokens g \<and> tokens m = []"
    and assign_law:
      "op_assign ops rc g h = Some (g', h', ts) \<Longrightarrow>
        ts = tokens g \<and> (tokens g' = tokens h \<and> tokens h' = [] \<or> tokens g' = [] \<and> tokens h' = tokens h)"
    and dispose_law: "op_dispose ops rc g = Some (g', ts) \<Longrightarrow> ts = tokens g \<and> tokens g' = []"
    and give_up_law: "op_give_up ops g = (g', ts) \<Longrightarrow> mset ts + mset (tokens g') = mset (tokens g)"
    and destroy_law: "op_destroy ops rc g = Some ts \<Longrightarrow> ts = tokens g"
    and emplace_law: "op_emplace ops t g = Some (g', ts) \<Longrightarrow> ts = tokens g \<and> tokens g' = [t]"
begin

definition accounted :: "('g, 't) owner_world \<Rightarrow> bool" where
  "accounted w \<longleftrightarrow> finite (dom (objs w))
     \<and> mset (acquired w) = mset (disposed w) + mset (given_up w) + held tokens (objs w)"

lemma accounted_init: "accounted owner_init"
  by (simp add: accounted_def owner_init_def held_def)

lemma accounted_step:
  assumes a: "accounted w" and st: "owner_step ops e w = Some u"
  shows "accounted u"
proof -
  have fin: "finite (dom (objs w))" and eq: "mset (acquired w) =
      mset (disposed w) + mset (given_up w) + held tokens (objs w)"
    using a by (simp_all add: accounted_def)
  note upd = held_update [OF fin, of tokens]
  have two: "held tokens ((objs w)(i := v, j := v')) + held_by tokens (objs w i) + held_by tokens (objs w j) =
      held tokens (objs w) + held_by tokens v + held_by tokens v'" if "i \<noteq> j" for i j v v'
  proof -
    have "finite (dom ((objs w)(i := v)))" using fin by simp
    from held_update [OF this, of tokens j v'] upd [of i v] that show ?thesis by (simp add: add_ac)
  qed
  show ?thesis
  proof (cases e)
    case (Acquire i t)
    then show ?thesis using st fin eq upd [of i "Some (op_make ops t)"]
      by (auto simp: accounted_def make_law split: if_splits)
  next
    case (Move i j)
    then obtain g n m where g: "objs w i = None" "objs w j = Some g" "op_move ops g = (n, m)"
      and u: "u = w\<lparr>objs := (objs w)(j := Some m, i := Some n)\<rparr>"
      using st by (auto split: option.splits prod.splits)
    then have "i \<noteq> j" by auto
    then show ?thesis using two [of j i "Some m" "Some n"] g(1,2) move_law [OF g(3)] fin eq
      by (simp add: u accounted_def)
  next
    case (Move_Assign i j rc)
    show ?thesis
    proof (cases "i = j")
      case True
      then show ?thesis using st a Move_Assign by (auto split: option.splits)
    next
      case False
      then obtain g h g' h' ts where g: "objs w i = Some g" "objs w j = Some h"
          "op_assign ops rc g h = Some (g', h', ts)"
        and u: "u = w\<lparr>objs := (objs w)(i := Some g', j := Some h'), disposed := disposed w @ ts\<rparr>"
        using st Move_Assign by (auto split: option.splits prod.splits)
      have "held tokens (objs u) + mset ts = held tokens (objs w)"
        using two [OF False, of "Some g'" "Some h'"] g(1,2) assign_law [OF g(3)]
        by (auto simp: u ac_simps)
      then show ?thesis using fin eq by (simp add: u accounted_def ac_simps)
    qed
  next
    case (Dispose i rc)
    then obtain g g' ts where g: "objs w i = Some g" "op_dispose ops rc g = Some (g', ts)"
      and u: "u = w\<lparr>objs := (objs w)(i := Some g'), disposed := disposed w @ ts\<rparr>"
      using st by (auto split: option.splits prod.splits)
    show ?thesis using upd [of i "Some g'"] g(1) dispose_law [OF g(2)] fin eq
      by (simp add: u accounted_def ac_simps)
  next
    case (Give_Up i)
    then obtain g g' ts where g: "objs w i = Some g" "op_give_up ops g = (g', ts)"
      and u: "u = w\<lparr>objs := (objs w)(i := Some g'), given_up := given_up w @ ts\<rparr>"
      using st by (auto split: option.splits prod.splits)
    have "held tokens (objs u) + (mset ts + mset (tokens g')) = held tokens (objs w) + mset (tokens g')"
      unfolding give_up_law [OF g(2)] using upd [of i "Some g'"] g(1) by (simp add: u)
    then have "held tokens (objs u) + mset ts = held tokens (objs w)"
      by (simp only: add.assoc [symmetric] add_right_cancel)
    then show ?thesis using fin eq by (simp add: u accounted_def ac_simps)
  next
    case (Destroy i rc)
    then obtain g ts where g: "objs w i = Some g" "op_destroy ops rc g = Some ts"
      and u: "u = w\<lparr>objs := (objs w)(i := None), disposed := disposed w @ ts\<rparr>"
      using st by (auto split: option.splits)
    show ?thesis using upd [of i None] g(1) destroy_law [OF g(2)] fin eq by (simp add: u accounted_def ac_simps)
  next
    case (Emplace i t)
    then obtain g g' ts where g: "objs w i = Some g" "op_emplace ops t g = Some (g', ts)"
      and u: "u = w\<lparr>objs := (objs w)(i := Some g'), acquired := acquired w @ [t], disposed := disposed w @ ts\<rparr>"
      using st by (auto split: option.splits prod.splits)
    show ?thesis using upd [of i "Some g'"] g(1) emplace_law [OF g(2)] fin eq
      by (simp add: u accounted_def ac_simps)
  qed
qed

sublocale accounting: machine "owner_step ops" accounted
  by unfold_locales (rule accounted_step)

lemma tokens_accounted:
  assumes "run (owner_step ops) es owner_init = Some w"
  shows "mset (acquired w) = mset (disposed w) + mset (given_up w) + held tokens (objs w)"
  using accounting.run_inv [OF assms accounted_init] by (simp add: accounted_def)

text \<open>Once every object is gone nothing is left: all tokens were disposed of or given up.\<close>

lemma nothing_left:
  assumes "run (owner_step ops) es owner_init = Some w" "dom (objs w) = {}"
  shows "mset (acquired w) = mset (disposed w) + mset (given_up w)"
  using tokens_accounted [OF assms(1)] assms(2) by (simp add: held_def)

text \<open>A wrapper without \<open>release\<close> gives nothing up.\<close>

lemma never_given_up:
  assumes "\<And>g. snd (op_give_up ops g) = []"
  shows "run (owner_step ops) es w = Some u \<Longrightarrow> given_up u = given_up w"
proof (erule run_frame)
  fix e w v
  assume "owner_step ops e w = Some v"
  then show "given_up v = given_up w"
    using assms by (cases e) (auto split: option.splits prod.splits if_splits, metis snd_conv)
qed

end

end
