(* ===== verification/Event_Handler.thy ===== *)
theory Event_Handler
  imports Errors Ownership
begin

text \<open>
  Event handlers: the two types of \<open>ev/handlers.hpp\<close> with their event loops, the owning wrapper
  \<open>any_event_handler\<close> and the counting reference \<open>event_handler_ref\<close>.  A handler of a type outside
  of the library is in \<open>Custom_Handler\<close>.  The handler's counter is an atomic of the width of \<open>size_t\<close>;
  each operation on it is one step here.
\<close>

section \<open>Outcomes\<close>

text \<open>
  An operation returns, blocks (it waits for a thread to end; the caller is where it was and the
  operation is tried again later), throws, or ends the process (\<open>std::terminate\<close>).
\<close>

datatype 'a act = Returned 'a | Blocked | Terminated | Threw error_code

lemma map_act_Returned: "map_act f r = Returned y \<longleftrightarrow> (\<exists>x. r = Returned x \<and> y = f x)"
  by (cases r) auto

text \<open>
  A \<open>std::thread\<close> that runs the event loop on a libusb context with a stop token; \<open>Ended\<close> is a
  thread whose function has returned and that was not joined.
\<close>

type_synonym usb_ctx = "nat option"

datatype thread = No_Thread | Running usb_ctx nat | Ended

definition joinable :: "thread \<Rightarrow> bool" where
  "joinable t \<longleftrightarrow> t \<noteq> No_Thread"

definition join_thread :: "thread \<Rightarrow> thread act" where
  "join_thread t = (case t of Running c k \<Rightarrow> Blocked | _ \<Rightarrow> Returned No_Thread)"

section \<open>handlers.hpp\<close>

record trivial_event_handler =
  th_thread :: thread

record refcounted_event_handler =
  rh_counter :: size_t
  rh_thread :: thread

text \<open>
  \<open>start\<close>; \<open>spawn\<close>: whether the thread could be created, if not the constructor of \<open>std::thread\<close>
  throws.  Assigning to a thread that is joinable ends the process.
\<close>

definition trivial_start ::
  "bool \<Rightarrow> usb_ctx \<Rightarrow> nat \<Rightarrow> trivial_event_handler \<Rightarrow> (trivial_event_handler \<times> bool) act" where
  "trivial_start spawn ctx stop h =
     (if \<not> spawn then Threw (std_make_error_code Resource_Unavailable)
      else if joinable (th_thread h) then Terminated
      else Returned (h\<lparr>th_thread := Running ctx stop\<rparr>, True))"

definition trivial_ref :: "trivial_event_handler \<Rightarrow> trivial_event_handler" where
  "trivial_ref h = h"

definition trivial_unref :: "trivial_event_handler \<Rightarrow> trivial_event_handler" where
  "trivial_unref h = h"

definition trivial_stop :: "trivial_event_handler \<Rightarrow> trivial_event_handler act" where
  "trivial_stop h =
     (if joinable (th_thread h) then
        (case join_thread (th_thread h) of
           Returned t \<Rightarrow> Returned (h\<lparr>th_thread := t\<rparr>)
         | Blocked \<Rightarrow> Blocked | Terminated \<Rightarrow> Terminated | Threw ec \<Rightarrow> Threw ec)
      else Returned h)"

text \<open>One turn of the loop of the thread, in which \<open>libusb_handle_events_timeout\<close> returns \<open>r\<close>; an
  exception that leaves the function of a thread ends the process.\<close>

definition trivial_turn :: "nat set \<Rightarrow> int \<Rightarrow> trivial_event_handler \<Rightarrow> trivial_event_handler act" where
  "trivial_turn requested r h =
     (case th_thread h of
        Running c k \<Rightarrow>
          if k \<in> requested then Returned (h\<lparr>th_thread := Ended\<rparr>)
          else if r \<noteq> LIBUSB_SUCCESS then Terminated
          else Returned h
      | _ \<Rightarrow> Blocked)"

definition refcounted_start ::
  "bool \<Rightarrow> usb_ctx \<Rightarrow> nat \<Rightarrow> refcounted_event_handler \<Rightarrow> (refcounted_event_handler \<times> bool) act" where
  "refcounted_start spawn ctx stop h =
     (if \<not> spawn then Returned (h, False)
      else if joinable (rh_thread h) then Terminated
      else Returned (h\<lparr>rh_thread := Running ctx stop\<rparr>, True))"

definition refcounted_ref :: "refcounted_event_handler \<Rightarrow> refcounted_event_handler" where
  "refcounted_ref h = h\<lparr>rh_counter := rh_counter h + 1\<rparr>"

definition refcounted_unref :: "refcounted_event_handler \<Rightarrow> refcounted_event_handler" where
  "refcounted_unref h = h\<lparr>rh_counter := rh_counter h - 1\<rparr>"

definition refcounted_stop :: "refcounted_event_handler \<Rightarrow> refcounted_event_handler act" where
  "refcounted_stop h =
     (if joinable (rh_thread h) then
        (case join_thread (rh_thread h) of
           Returned t \<Rightarrow> Returned (h\<lparr>rh_thread := t\<rparr>)
         | Blocked \<Rightarrow> Blocked | Terminated \<Rightarrow> Terminated | Threw ec \<Rightarrow> Threw ec)
      else Returned h)"

definition refcounted_turn :: "nat set \<Rightarrow> int \<Rightarrow> refcounted_event_handler \<Rightarrow> refcounted_event_handler act" where
  "refcounted_turn requested r h =
     (case rh_thread h of
        Running c k \<Rightarrow>
          if r \<noteq> LIBUSB_SUCCESS then Terminated
          else if k \<in> requested \<and> rh_counter h = 0 then Returned (h\<lparr>rh_thread := Ended\<rparr>)
          else Returned h
      | _ \<Rightarrow> Blocked)"

section \<open>any_event_handler.hpp\<close>

text \<open>
  The vtable is the type it was made for, which also gives the size and the alignment the storage
  is deallocated with.  The storage is a block of a memory resource with the handler in it.
\<close>

datatype handler = Trivial trivial_event_handler | Refcounted refcounted_event_handler

datatype handler_type = Trivial_Type | Refcounted_Type

record any_event_handler =
  ah_vtable :: handler_type
  ah_memres :: nat
  ah_storage :: "(nat \<times> handler) option"

fun construct_handler :: "handler_type \<Rightarrow> handler" where
  "construct_handler Trivial_Type = Trivial \<lparr>th_thread = No_Thread\<rparr>"
| "construct_handler Refcounted_Type = Refcounted \<lparr>rh_counter = 0, rh_thread = No_Thread\<rparr>"

fun handler_type_of :: "handler \<Rightarrow> handler_type" where
  "handler_type_of (Trivial _) = Trivial_Type"
| "handler_type_of (Refcounted _) = Refcounted_Type"

fun handler_start :: "bool \<Rightarrow> usb_ctx \<Rightarrow> nat \<Rightarrow> handler \<Rightarrow> (handler \<times> bool) act" where
  "handler_start spawn ctx stop (Trivial h) =
     map_act (\<lambda>(h, ok). (Trivial h, ok)) (trivial_start spawn ctx stop h)"
| "handler_start spawn ctx stop (Refcounted h) =
     map_act (\<lambda>(h, ok). (Refcounted h, ok)) (refcounted_start spawn ctx stop h)"

fun handler_ref :: "handler \<Rightarrow> handler" where
  "handler_ref (Trivial h) = Trivial (trivial_ref h)"
| "handler_ref (Refcounted h) = Refcounted (refcounted_ref h)"

fun handler_unref :: "handler \<Rightarrow> handler" where
  "handler_unref (Trivial h) = Trivial (trivial_unref h)"
| "handler_unref (Refcounted h) = Refcounted (refcounted_unref h)"

fun handler_stop :: "handler \<Rightarrow> handler act" where
  "handler_stop (Trivial h) = map_act Trivial (trivial_stop h)"
| "handler_stop (Refcounted h) = map_act Refcounted (refcounted_stop h)"

fun handler_turn :: "nat set \<Rightarrow> int \<Rightarrow> handler \<Rightarrow> handler act" where
  "handler_turn req r (Trivial h) = map_act Trivial (trivial_turn req r h)"
| "handler_turn req r (Refcounted h) = map_act Refcounted (refcounted_turn req r h)"

definition any_default :: any_event_handler where
  "any_default = \<lparr>ah_vtable = Trivial_Type, ah_memres = 0, ah_storage = None\<rparr>"

text \<open>The constructor from a memory resource; \<open>blk\<close> is the block the resource allocates.\<close>

definition any_make :: "nat \<Rightarrow> nat \<Rightarrow> handler_type \<Rightarrow> any_event_handler" where
  "any_make memres blk ty =
     \<lparr>ah_vtable = ty, ah_memres = memres, ah_storage = Some (blk, construct_handler ty)\<rparr>"

definition any_valid :: "any_event_handler \<Rightarrow> bool" where
  "any_valid a \<longleftrightarrow> ah_storage a \<noteq> None"

definition any_start :: "bool \<Rightarrow> usb_ctx \<Rightarrow> nat \<Rightarrow> any_event_handler \<Rightarrow> (any_event_handler \<times> bool) act" where
  "any_start spawn ctx stop a =
     (case ah_storage a of
        None \<Rightarrow> Returned (a, False)
      | Some (b, h) \<Rightarrow>
          map_act (\<lambda>(h, ok). (a\<lparr>ah_storage := Some (b, h)\<rparr>, ok)) (handler_start spawn ctx stop h))"

definition any_ref :: "any_event_handler \<Rightarrow> any_event_handler" where
  "any_ref a =
     (case ah_storage a of None \<Rightarrow> a | Some (b, h) \<Rightarrow> a\<lparr>ah_storage := Some (b, handler_ref h)\<rparr>)"

definition any_unref :: "any_event_handler \<Rightarrow> any_event_handler" where
  "any_unref a =
     (case ah_storage a of None \<Rightarrow> a | Some (b, h) \<Rightarrow> a\<lparr>ah_storage := Some (b, handler_unref h)\<rparr>)"

definition any_stop :: "any_event_handler \<Rightarrow> any_event_handler act" where
  "any_stop a =
     (case ah_storage a of
        None \<Rightarrow> Returned a
      | Some (b, h) \<Rightarrow> map_act (\<lambda>h. a\<lparr>ah_storage := Some (b, h)\<rparr>) (handler_stop h))"

definition any_turn :: "nat set \<Rightarrow> int \<Rightarrow> any_event_handler \<Rightarrow> any_event_handler act" where
  "any_turn req r a =
     (case ah_storage a of
        None \<Rightarrow> Blocked
      | Some (b, h) \<Rightarrow> map_act (\<lambda>h. a\<lparr>ah_storage := Some (b, h)\<rparr>) (handler_turn req r h))"

text \<open>
  \<open>destroy\<close>: the destructor of the handler, which is its \<open>stop\<close>, and the deallocation: the block
  goes back to the resource with the size and alignment of the vtable.
\<close>

definition any_deallocate :: "any_event_handler \<Rightarrow> any_event_handler \<times> (nat \<times> nat \<times> handler_type) list" where
  "any_deallocate a =
     (case ah_storage a of
        None \<Rightarrow> (a, [])
      | Some (b, h) \<Rightarrow> (a\<lparr>ah_storage := None\<rparr>, [(ah_memres a, b, ah_vtable a)]))"

definition any_destroy :: "any_event_handler \<Rightarrow> (any_event_handler \<times> (nat \<times> nat \<times> handler_type) list) act" where
  "any_destroy a = map_act any_deallocate (any_stop a)"

text \<open>\<open>emplace\<close>; the block is the one allocated for the new handler.\<close>

definition any_construct :: "nat \<Rightarrow> nat \<Rightarrow> handler_type \<Rightarrow> any_event_handler \<Rightarrow> any_event_handler" where
  "any_construct memres blk ty a =
     a\<lparr>ah_memres := memres, ah_storage := Some (blk, construct_handler ty), ah_vtable := ty\<rparr>"

definition any_emplace ::
  "nat \<Rightarrow> nat \<Rightarrow> handler_type \<Rightarrow> any_event_handler \<Rightarrow> (any_event_handler \<times> (nat \<times> nat \<times> handler_type) list) act" where
  "any_emplace memres blk ty a =
     map_act (\<lambda>(a, freed). (any_construct memres blk ty a, freed)) (any_destroy a)"

definition any_move :: "any_event_handler \<Rightarrow> any_event_handler \<times> any_event_handler" where
  "any_move other =
     (\<lparr>ah_vtable = ah_vtable other, ah_memres = ah_memres other, ah_storage = ah_storage other\<rparr>,
      other\<lparr>ah_storage := None\<rparr>)"

definition any_move_assign ::
  "any_event_handler \<Rightarrow> any_event_handler
     \<Rightarrow> (any_event_handler \<times> any_event_handler \<times> (nat \<times> nat \<times> handler_type) list) act" where
  "any_move_assign this other =
     map_act (\<lambda>(this, freed).
        (this\<lparr>ah_vtable := ah_vtable other, ah_memres := ah_memres other, ah_storage := ah_storage other\<rparr>,
         other\<lparr>ah_storage := None\<rparr>, freed)) (any_destroy this)"

section \<open>event_handler_ref.hpp\<close>

text \<open>
  A reference holds the address of its original: here a slot, where an \<open>any_event_handler\<close> lives.
  The operations change the slots through \<open>ref\<close> and \<open>unref\<close>.
\<close>

record event_handler_ref =
  er_original :: "nat option"

type_synonym slots = "nat \<Rightarrow> any_event_handler"

definition er_ref :: "event_handler_ref \<Rightarrow> slots \<Rightarrow> slots" where
  "er_ref r s = (case er_original r of None \<Rightarrow> s | Some a \<Rightarrow> s(a := any_ref (s a)))"

definition er_unref :: "event_handler_ref \<Rightarrow> slots \<Rightarrow> slots" where
  "er_unref r s = (case er_original r of None \<Rightarrow> s | Some a \<Rightarrow> s(a := any_unref (s a)))"

definition er_default :: event_handler_ref where
  "er_default = \<lparr>er_original = None\<rparr>"

definition er_from_handler :: "nat \<Rightarrow> slots \<Rightarrow> event_handler_ref \<times> slots" where
  "er_from_handler a s = (let r = \<lparr>er_original = Some a\<rparr> in (r, er_ref r s))"

definition er_assign_handler :: "event_handler_ref \<Rightarrow> nat \<Rightarrow> slots \<Rightarrow> event_handler_ref \<times> slots" where
  "er_assign_handler this a s =
     (if er_original this = Some a then (this, s)
      else let this = this\<lparr>er_original := Some a\<rparr> in (this, er_ref this s))"

definition er_copy :: "event_handler_ref \<Rightarrow> slots \<Rightarrow> event_handler_ref \<times> slots" where
  "er_copy other s = (let r = \<lparr>er_original = er_original other\<rparr> in (r, er_ref r s))"

definition er_copy_assign ::
  "bool \<Rightarrow> event_handler_ref \<Rightarrow> event_handler_ref \<Rightarrow> slots \<Rightarrow> event_handler_ref \<times> slots" where
  "er_copy_assign same this other s =
     (if same then (this, s)
      else
        let s = (if er_original this \<noteq> None then er_unref this s else s);
            this = this\<lparr>er_original := er_original other\<rparr>
        in (this, er_ref this s))"

definition er_move :: "event_handler_ref \<Rightarrow> event_handler_ref \<times> event_handler_ref" where
  "er_move other = (\<lparr>er_original = er_original other\<rparr>, other\<lparr>er_original := None\<rparr>)"

definition er_move_assign ::
  "bool \<Rightarrow> event_handler_ref \<Rightarrow> event_handler_ref \<Rightarrow> slots
     \<Rightarrow> event_handler_ref \<times> event_handler_ref \<times> slots" where
  "er_move_assign same this other s =
     (if same then (this, other, s)
      else
        let s = (if er_original this \<noteq> None then er_unref this s else s)
        in (this\<lparr>er_original := er_original other\<rparr>, other\<lparr>er_original := None\<rparr>, s))"

definition er_dtor :: "event_handler_ref \<Rightarrow> slots \<Rightarrow> slots" where
  "er_dtor r s = er_unref r s"

definition er_valid :: "event_handler_ref \<Rightarrow> bool" where
  "er_valid r \<longleftrightarrow> er_original r \<noteq> None"

definition er_start :: "bool \<Rightarrow> usb_ctx \<Rightarrow> nat \<Rightarrow> event_handler_ref \<Rightarrow> slots \<Rightarrow> (slots \<times> bool) act" where
  "er_start spawn ctx stop r s =
     (case er_original r of
        None \<Rightarrow> Returned (s, False)
      | Some a \<Rightarrow> map_act (\<lambda>(h, ok). (s(a := h), ok)) (any_start spawn ctx stop (s a)))"

definition er_stop :: "event_handler_ref \<Rightarrow> slots \<Rightarrow> slots act" where
  "er_stop r s =
     (case er_original r of
        None \<Rightarrow> Returned s
      | Some a \<Rightarrow> map_act (\<lambda>h. s(a := h)) (any_stop (s a)))"

end
