(* ===== verification/Handler_Refs.thy ===== *)
theory Handler_Refs
  imports Event_Handler
begin

text \<open>
  The machine of a program that makes, copies, moves and destroys references to event handlers
  while the event loops turn.  The counter of a reference counted handler is the number of live
  references to it plus the number of references that an assignment from a handler wrote over; so
  its loop runs on as long as either is there.
\<close>

section \<open>The machine\<close>

text \<open>\<open>eh_stops\<close>: the stop sources that were requested; \<open>eh_over\<close>: the originals of the references
  that an assignment from a handler wrote over; \<open>eh_dead\<close>: the process was terminated.\<close>

record eh_world =
  eh_refs :: "nat \<Rightarrow> event_handler_ref option"
  eh_slots :: slots
  eh_stops :: "nat set"
  eh_over :: "nat list"
  eh_dead :: bool

datatype eh_event =
    EH_Default nat | EH_From nat nat | EH_Assign_Handler nat nat | EH_Copy nat nat
  | EH_Copy_Assign nat nat | EH_Move nat nat | EH_Move_Assign nat nat | EH_Destroy nat
  | EH_Start nat bool usb_ctx nat | EH_Stop nat | EH_Request nat | EH_Turn nat int

definition orig_list :: "event_handler_ref \<Rightarrow> nat list" where
  "orig_list r = (case er_original r of None \<Rightarrow> [] | Some a \<Rightarrow> [a])"

text \<open>The world after an operation of a handler in slot \<open>a\<close>.\<close>

definition slot_act :: "nat \<Rightarrow> any_event_handler act \<Rightarrow> eh_world \<Rightarrow> eh_world option" where
  "slot_act a r w =
     (case r of
        Returned x \<Rightarrow> Some (w\<lparr>eh_slots := (eh_slots w)(a := x)\<rparr>)
      | Blocked \<Rightarrow> None
      | Terminated \<Rightarrow> Some (w\<lparr>eh_dead := True\<rparr>)
      | Threw ec \<Rightarrow> Some w)"

fun eh_event_step :: "eh_event \<Rightarrow> eh_world \<Rightarrow> eh_world option" where
  "eh_event_step (EH_Default i) w =
     (if eh_refs w i = None then Some (w\<lparr>eh_refs := (eh_refs w)(i := Some er_default)\<rparr>) else None)"
| "eh_event_step (EH_From i a) w =
     (if eh_refs w i = None then
        let (r, s) = er_from_handler a (eh_slots w)
        in Some (w\<lparr>eh_refs := (eh_refs w)(i := Some r), eh_slots := s\<rparr>)
      else None)"
| "eh_event_step (EH_Assign_Handler i a) w =
     (case eh_refs w i of
        None \<Rightarrow> None
      | Some this \<Rightarrow>
          let (r, s) = er_assign_handler this a (eh_slots w)
          in Some (w\<lparr>eh_refs := (eh_refs w)(i := Some r), eh_slots := s,
                     eh_over := eh_over w @ (if er_original this = Some a then [] else orig_list this)\<rparr>))"
| "eh_event_step (EH_Copy i j) w =
     (case (eh_refs w i, eh_refs w j) of
        (None, Some other) \<Rightarrow>
          let (r, s) = er_copy other (eh_slots w)
          in Some (w\<lparr>eh_refs := (eh_refs w)(i := Some r), eh_slots := s\<rparr>)
      | _ \<Rightarrow> None)"
| "eh_event_step (EH_Copy_Assign i j) w =
     (case (eh_refs w i, eh_refs w j) of
        (Some this, Some other) \<Rightarrow>
          let (r, s) = er_copy_assign (i = j) this other (eh_slots w)
          in Some (w\<lparr>eh_refs := (eh_refs w)(i := Some r), eh_slots := s\<rparr>)
      | _ \<Rightarrow> None)"
| "eh_event_step (EH_Move i j) w =
     (case (eh_refs w i, eh_refs w j) of
        (None, Some other) \<Rightarrow>
          let (r, q) = er_move other in Some (w\<lparr>eh_refs := (eh_refs w)(j := Some q, i := Some r)\<rparr>)
      | _ \<Rightarrow> None)"
| "eh_event_step (EH_Move_Assign i j) w =
     (case (eh_refs w i, eh_refs w j) of
        (Some this, Some other) \<Rightarrow>
          let (r, q, s) = er_move_assign (i = j) this other (eh_slots w)
          in Some (w\<lparr>eh_refs := (eh_refs w)(j := Some q, i := Some r), eh_slots := s\<rparr>)
      | _ \<Rightarrow> None)"
| "eh_event_step (EH_Destroy i) w =
     (case eh_refs w i of
        None \<Rightarrow> None
      | Some this \<Rightarrow>
          Some (w\<lparr>eh_refs := (eh_refs w)(i := None), eh_slots := er_dtor this (eh_slots w)\<rparr>))"
| "eh_event_step (EH_Start a spawn ctx k) w =
     slot_act a (map_act fst (any_start spawn ctx k (eh_slots w a))) w"
| "eh_event_step (EH_Stop a) w = slot_act a (any_stop (eh_slots w a)) w"
| "eh_event_step (EH_Request k) w = Some (w\<lparr>eh_stops := insert k (eh_stops w)\<rparr>)"
| "eh_event_step (EH_Turn a r) w = slot_act a (any_turn (eh_stops w) r (eh_slots w a)) w"

definition eh_step :: "eh_event \<Rightarrow> eh_world \<Rightarrow> eh_world option" where
  "eh_step e w = (if eh_dead w then None else eh_event_step e w)"

section \<open>Counters\<close>

definition slot_counter :: "any_event_handler \<Rightarrow> size_t option" where
  "slot_counter a =
     (case ah_storage a of Some (b, Refcounted h) \<Rightarrow> Some (rh_counter h) | _ \<Rightarrow> None)"

fun handler_thread :: "handler \<Rightarrow> thread" where
  "handler_thread (Trivial h) = th_thread h"
| "handler_thread (Refcounted h) = rh_thread h"

definition slot_thread :: "any_event_handler \<Rightarrow> thread" where
  "slot_thread a = (case ah_storage a of None \<Rightarrow> No_Thread | Some (b, h) \<Rightarrow> handler_thread h)"

lemma slot_counter_ref [simp]:
  "slot_counter (any_ref x) = map_option (\<lambda>c. c + 1) (slot_counter x)"
  "slot_counter (any_unref x) = map_option (\<lambda>c. c - 1) (slot_counter x)"
  by (auto simp: slot_counter_def any_ref_def any_unref_def refcounted_ref_def refcounted_unref_def
      split: option.splits handler.splits)

lemma map_act_other [simp]:
  "map_act f r = Blocked \<longleftrightarrow> r = Blocked"
  "map_act f r = Terminated \<longleftrightarrow> r = Terminated"
  "map_act f r = Threw ec \<longleftrightarrow> r = Threw ec"
  by (cases r; simp)+

lemma slot_counter_other:
  "any_start spawn ctx k x = Returned (y, ok) \<Longrightarrow> slot_counter y = slot_counter x"
  "any_stop x = Returned y \<Longrightarrow> slot_counter y = slot_counter x"
  "any_turn req r x = Returned y \<Longrightarrow> slot_counter y = slot_counter x"
  by (auto simp: slot_counter_def any_start_def any_stop_def any_turn_def map_act_Returned
      refcounted_start_def refcounted_stop_def refcounted_turn_def join_thread_def
      elim!: handler_start.elims handler_stop.elims handler_turn.elims
      split: option.splits handler.splits thread.splits if_splits act.splits)

lemma slot_counter_er:
  "slot_counter (er_ref r s a) =
     (if er_original r = Some a then map_option (\<lambda>c. c + 1) (slot_counter (s a)) else slot_counter (s a))"
  "slot_counter (er_unref r s a) =
     (if er_original r = Some a then map_option (\<lambda>c. c - 1) (slot_counter (s a)) else slot_counter (s a))"
  by (auto simp: er_ref_def er_unref_def split: option.splits)

definition eh_count :: "eh_world \<Rightarrow> nat \<Rightarrow> nat" where
  "eh_count w a = count (held orig_list (eh_refs w)) a + count (mset (eh_over w)) a"

definition counters_ok :: "eh_world \<Rightarrow> bool" where
  "counters_ok w \<longleftrightarrow> finite (dom (eh_refs w))
     \<and> (\<forall>a c. slot_counter (eh_slots w a) = Some c \<longrightarrow> c = of_nat (eh_count w a))"

text \<open>A step that changes the counters by \<open>d\<close> and the references in the same way.\<close>

lemma counters_change:
  assumes "counters_ok w" "finite (dom (eh_refs u))"
    and "\<And>a. slot_counter (eh_slots u a) = map_option (\<lambda>c. c + d a) (slot_counter (eh_slots w a))"
    and "\<And>a. (of_nat (eh_count u a) :: size_t) = of_nat (eh_count w a) + d a"
  shows "counters_ok u"
  using assms by (fastforce simp: counters_ok_def)

lemma count_held_update:
  assumes "finite (dom m)"
  shows "count (held toks (m(i := v))) a + count (held_by toks (m i)) a =
    count (held toks m) a + count (held_by toks v) a"
  by (metis assms count_union held_update)

lemma word_count:
  assumes "n + x = m + (y :: nat)"
  shows "(of_nat n :: 'a::len word) = of_nat m + (of_nat y - of_nat x)"
proof -
  have "(of_nat n + of_nat x :: 'a word) = of_nat m + of_nat y" using assms by (metis of_nat_add)
  then show ?thesis by (simp add: algebra_simps)
qed

definition delta :: "event_handler_ref option \<Rightarrow> nat \<Rightarrow> size_t" where
  "delta v a = of_nat (count (held_by orig_list v) a)"

lemma delta_simps [simp]:
  "delta None a = 0"
  "delta (Some r) a = (if er_original r = Some a then 1 else 0)"
  by (auto simp: delta_def orig_list_def split: option.splits)

text \<open>One reference changes from \<open>eh_refs w i\<close> to \<open>v\<close>, and \<open>over\<close> is written over.\<close>

lemma counters_one:
  assumes ok: "counters_ok w"
    and u: "eh_refs u = (eh_refs w)(i := v)" "eh_over u = eh_over w @ over"
    and s: "\<And>a. slot_counter (eh_slots u a) =
        map_option (\<lambda>c. c + (delta v a - delta (eh_refs w i) a + of_nat (count (mset over) a)))
          (slot_counter (eh_slots w a))"
  shows "counters_ok u"
proof (rule counters_change [OF ok _ s])
  have fin: "finite (dom (eh_refs w))" using ok by (simp add: counters_ok_def)
  then show "finite (dom (eh_refs u))" by (simp add: u)
  show "(of_nat (eh_count u a) :: size_t) =
      of_nat (eh_count w a) + (delta v a - delta (eh_refs w i) a + of_nat (count (mset over) a))" for a
    using word_count [OF count_held_update [OF fin, of orig_list i v a], where 'a = 64]
    by (simp add: eh_count_def u delta_def algebra_simps)
qed

lemma counters_two:
  assumes ok: "counters_ok w" and ij: "i \<noteq> j"
    and u: "eh_refs u = (eh_refs w)(j := v', i := v)" "eh_over u = eh_over w"
    and s: "\<And>a. slot_counter (eh_slots u a) =
        map_option (\<lambda>c. c + (delta v a + delta v' a - delta (eh_refs w i) a - delta (eh_refs w j) a))
          (slot_counter (eh_slots w a))"
  shows "counters_ok u"
proof (rule counters_change [OF ok _ s])
  have fin: "finite (dom (eh_refs w))" "finite (dom ((eh_refs w)(j := v')))"
    using ok by (simp_all add: counters_ok_def)
  then show "finite (dom (eh_refs u))" by (simp add: u)
  show "(of_nat (eh_count u a) :: size_t) = of_nat (eh_count w a)
      + (delta v a + delta v' a - delta (eh_refs w i) a - delta (eh_refs w j) a)" for a
  proof -
    have "count (held orig_list (eh_refs u)) a
        + (count (held_by orig_list (eh_refs w i)) a + count (held_by orig_list (eh_refs w j)) a) =
      count (held orig_list (eh_refs w)) a + (count (held_by orig_list v) a + count (held_by orig_list v') a)"
      using count_held_update [OF fin(1), of orig_list j v' a]
        count_held_update [OF fin(2), of orig_list i v a] ij by (simp add: u)
    from word_count [OF this, where 'a = 64] show ?thesis
      by (simp add: eh_count_def u delta_def algebra_simps)
  qed
qed

lemma counters_slot_act:
  assumes "counters_ok w" "slot_act a r w = Some u"
    and "\<And>y. r = Returned y \<Longrightarrow> slot_counter y = slot_counter (eh_slots w a)"
  shows "counters_ok u"
  using assms by (auto simp: slot_act_def counters_ok_def eh_count_def split: act.splits if_splits)

lemmas er_defs = er_from_handler_def er_assign_handler_def er_copy_def er_copy_assign_def
  er_move_def er_move_assign_def er_dtor_def er_default_def

lemma map_option_shift:
  "map_option (\<lambda>c. c + (0::'a::len word)) x = x"
  "map_option (\<lambda>c. c - (0::'a::len word)) x = x"
  "map_option (\<lambda>c::'a word. c) x = x"
  by (cases x; simp)+

lemma counters_step:
  assumes ok: "counters_ok w" and st: "eh_step e w = Some u"
  shows "counters_ok u"
proof -
  have st': "eh_event_step e w = Some u" using st by (simp add: eh_step_def split: if_splits)
  show ?thesis
  proof (cases e)
    case (EH_Default i)
    then have "u = w\<lparr>eh_refs := (eh_refs w)(i := Some er_default)\<rparr>" "eh_refs w i = None"
      using st' by (simp_all split: if_splits)
    then show ?thesis
      by (intro counters_one [OF ok, where i = i and v = "Some er_default" and over = "[]"])
        (simp_all add: er_defs map_option_shift)
  next
    case (EH_From i a)
    then have "u = w\<lparr>eh_refs := (eh_refs w)(i := Some \<lparr>er_original = Some a\<rparr>),
        eh_slots := er_ref \<lparr>er_original = Some a\<rparr> (eh_slots w)\<rparr>" "eh_refs w i = None"
      using st' by (simp_all add: er_defs Let_def split: if_splits)
    then show ?thesis
      by (intro counters_one [OF ok, where i = i and v = "Some \<lparr>er_original = Some a\<rparr>" and over = "[]"])
        (simp_all add: slot_counter_er map_option_shift)
  next
    case (EH_Assign_Handler i a)
    then obtain r where r: "eh_refs w i = Some r" using st' by (auto split: option.splits)
    show ?thesis
    proof (cases "er_original r = Some a")
      case True
      then show ?thesis using st' EH_Assign_Handler r ok
        by (auto simp: er_defs counters_ok_def eh_count_def fun_upd_idem)
    next
      case False
      then have "u = w\<lparr>eh_refs := (eh_refs w)(i := Some (r\<lparr>er_original := Some a\<rparr>)),
          eh_slots := er_ref (r\<lparr>er_original := Some a\<rparr>) (eh_slots w), eh_over := eh_over w @ orig_list r\<rparr>"
        using st' EH_Assign_Handler r by (simp add: er_defs Let_def)
      then show ?thesis using False r
        by (intro counters_one [OF ok, where i = i and v = "Some (r\<lparr>er_original := Some a\<rparr>)" and over = "orig_list r"])
          (auto simp: slot_counter_er map_option_shift orig_list_def split: option.splits)
    qed
  next
    case (EH_Copy i j)
    then obtain r where r: "eh_refs w i = None" "eh_refs w j = Some r" using st' by (auto split: option.splits)
    then have "u = w\<lparr>eh_refs := (eh_refs w)(i := Some \<lparr>er_original = er_original r\<rparr>),
        eh_slots := er_ref \<lparr>er_original = er_original r\<rparr> (eh_slots w)\<rparr>"
      using st' EH_Copy by (simp add: er_defs Let_def)
    with r show ?thesis
      by (intro counters_one [OF ok, where i = i and v = "Some \<lparr>er_original = er_original r\<rparr>" and over = "[]"])
        (simp_all add: slot_counter_er map_option_shift)
  next
    case (EH_Copy_Assign i j)
    then obtain r q where r: "eh_refs w i = Some r" "eh_refs w j = Some q" using st' by (auto split: option.splits)
    show ?thesis
    proof (cases "i = j")
      case True
      then show ?thesis using st' EH_Copy_Assign r ok
        by (auto simp: er_defs counters_ok_def eh_count_def fun_upd_idem)
    next
      case False
      let ?r = "r\<lparr>er_original := er_original q\<rparr>"
      have "u = w\<lparr>eh_refs := (eh_refs w)(i := Some ?r), eh_slots := er_ref ?r (er_unref r (eh_slots w))\<rparr>"
        using False st' EH_Copy_Assign r by (auto simp: er_defs Let_def er_unref_def)
      then show ?thesis using r
        by (intro counters_one [OF ok, where i = i and v = "Some ?r" and over = "[]"])
          (auto simp: slot_counter_er map_option_shift option.map_comp comp_def)
    qed
  next
    case (EH_Move i j)
    then obtain r where r: "eh_refs w i = None" "eh_refs w j = Some r"
      "u = w\<lparr>eh_refs := (eh_refs w)(j := Some (r\<lparr>er_original := None\<rparr>), i := Some \<lparr>er_original = er_original r\<rparr>)\<rparr>"
      using st' by (auto simp: er_defs Let_def split: option.splits)
    then have "i \<noteq> j" by auto
    with r show ?thesis
      by (intro counters_two [OF ok, where i = i and j = j and v = "Some \<lparr>er_original = er_original r\<rparr>"
            and v' = "Some (r\<lparr>er_original := None\<rparr>)"]) (simp_all add: map_option_shift)
  next
    case (EH_Move_Assign i j)
    then obtain r q where r: "eh_refs w i = Some r" "eh_refs w j = Some q" using st' by (auto split: option.splits)
    show ?thesis
    proof (cases "i = j")
      case True
      then show ?thesis using st' EH_Move_Assign r ok
        by (auto simp: er_defs counters_ok_def eh_count_def fun_upd_idem)
    next
      case False
      let ?r = "r\<lparr>er_original := er_original q\<rparr>" and ?q = "q\<lparr>er_original := None\<rparr>"
      have "u = w\<lparr>eh_refs := (eh_refs w)(j := Some ?q, i := Some ?r), eh_slots := er_unref r (eh_slots w)\<rparr>"
        using False st' EH_Move_Assign r by (auto simp: er_defs Let_def er_unref_def)
      then show ?thesis using r False
        by (intro counters_two [OF ok False, where v = "Some ?r" and v' = "Some ?q"])
          (auto simp: slot_counter_er map_option_shift)
    qed
  next
    case (EH_Destroy i)
    then obtain r where "eh_refs w i = Some r"
      "u = w\<lparr>eh_refs := (eh_refs w)(i := None), eh_slots := er_unref r (eh_slots w)\<rparr>"
      using st' by (auto simp: er_defs split: option.splits)
    then show ?thesis
      by (intro counters_one [OF ok, where i = i and v = None and over = "[]"])
        (auto simp: slot_counter_er map_option_shift)
  next
    case (EH_Start a spawn ctx k)
    then show ?thesis using st' slot_counter_other(1)
      by (intro counters_slot_act [OF ok, of a]) (auto simp: map_act_Returned)
  next
    case (EH_Stop a)
    then show ?thesis using st' slot_counter_other(2) by (intro counters_slot_act [OF ok, of a]) auto
  next
    case (EH_Request k)
    then show ?thesis using st' ok by (auto simp: counters_ok_def eh_count_def)
  next
    case (EH_Turn a r)
    then show ?thesis using st' slot_counter_other(3) by (intro counters_slot_act [OF ok, of a]) auto
  qed
qed

interpretation handler_refs: machine eh_step counters_ok
  by unfold_locales (rule counters_step)

section \<open>An \<open>any_event_handler\<close> as an owner of its storage\<close>

definition any_tokens :: "any_event_handler \<Rightarrow> (nat \<times> nat \<times> handler_type) list" where
  "any_tokens a = (case ah_storage a of None \<Rightarrow> [] | Some (b, h) \<Rightarrow> [(ah_memres a, b, ah_vtable a)])"

fun act_option :: "'a act \<Rightarrow> 'a option" where
  "act_option (Returned x) = Some x"
| "act_option _ = None"

definition any_handler_ops :: "(any_event_handler, nat \<times> nat \<times> handler_type) owner_ops" where
  "any_handler_ops =
     \<lparr>op_make = (\<lambda>(m, b, ty). any_make m b ty), op_move = any_move,
      op_assign = (\<lambda>rc g h. act_option (any_move_assign g h)), op_dispose = (\<lambda>rc g. None),
      op_give_up = (\<lambda>g. (g, [])), op_destroy = (\<lambda>rc g. map_option snd (act_option (any_destroy g))),
      op_emplace = (\<lambda>(m, b, ty) g. act_option (any_emplace m b ty g))\<rparr>"

lemma act_option_eq: "act_option r = Some y \<longleftrightarrow> r = Returned y"
  by (cases r) auto

lemma any_stop_tokens: "any_stop a = Returned b \<Longrightarrow> any_tokens b = any_tokens a"
  by (auto simp: any_stop_def any_tokens_def map_act_Returned split: option.splits)

lemma any_deallocate_tokens: "any_deallocate a = (b, ts) \<Longrightarrow> ts = any_tokens a \<and> any_tokens b = []"
  by (auto simp: any_deallocate_def any_tokens_def split: option.splits)

lemma any_destroy_tokens: "any_destroy a = Returned (b, ts) \<Longrightarrow> ts = any_tokens a \<and> any_tokens b = []"
proof -
  assume "any_destroy a = Returned (b, ts)"
  then obtain a' where a': "any_stop a = Returned a'" "any_deallocate a' = (b, ts)"
    by (auto simp: any_destroy_def map_act_Returned)
  show ?thesis using any_deallocate_tokens [OF a'(2)] any_stop_tokens [OF a'(1)] by simp
qed

interpretation any_owner: owner any_handler_ops any_tokens
proof (unfold_locales, goal_cases)
  case (1 t)
  then show ?case by (auto simp: any_handler_ops_def any_make_def any_tokens_def split: prod.splits)
next
  case (2 g n m)
  then show ?case by (auto simp: any_handler_ops_def any_move_def any_tokens_def split: option.splits)
next
  case (3 rc g h g' h' ts)
  then have "any_move_assign g h = Returned (g', h', ts)" by (simp add: any_handler_ops_def act_option_eq)
  then obtain a where a: "any_destroy g = Returned (a, ts)" and "h' = h\<lparr>ah_storage := None\<rparr>"
    "g' = a\<lparr>ah_vtable := ah_vtable h, ah_memres := ah_memres h, ah_storage := ah_storage h\<rparr>"
    by (auto simp: any_move_assign_def map_act_Returned)
  then have "any_tokens g' = any_tokens h" "any_tokens h' = []"
    by (simp_all add: any_tokens_def split: option.splits)
  then show ?case using any_destroy_tokens [OF a] by simp
next
  case (4 rc g g' ts)
  then show ?case by (simp add: any_handler_ops_def)
next
  case (5 g g' ts)
  then show ?case by (auto simp: any_handler_ops_def)
next
  case (6 rc g ts)
  then show ?case using any_destroy_tokens by (auto simp: any_handler_ops_def act_option_eq)
next
  case (7 t g g' ts)
  obtain m b ty where t: "t = (m, b, ty)" by (cases t)
  from 7 obtain a where "any_destroy g = Returned (a, ts)" "g' = any_construct m b ty a"
    by (auto simp: any_handler_ops_def act_option_eq any_emplace_def map_act_Returned t)
  then show ?case using any_destroy_tokens by (simp add: any_construct_def any_tokens_def t)
qed

section \<open>Properties\<close>

definition eh_init :: "slots \<Rightarrow> eh_world" where
  "eh_init s = \<lparr>eh_refs = (\<lambda>_. None), eh_slots = s, eh_stops = {}, eh_over = [], eh_dead = False\<rparr>"

text \<open>Slots with handlers just constructed, or none.\<close>

definition fresh_slots :: "slots \<Rightarrow> bool" where
  "fresh_slots s \<longleftrightarrow> (\<forall>a. slot_counter (s a) = None \<or> slot_counter (s a) = Some 0)"

lemma counters_init: "fresh_slots s \<Longrightarrow> counters_ok (eh_init s)"
  by (auto simp: counters_ok_def eh_init_def fresh_slots_def eh_count_def held_def) (metis option.distinct(1) option.inject)

text \<open>C16: the counter of a reference counted handler is, as a \<open>size_t\<close>, the number of live references
  to it, whatever copies, moves and assignments there were, plus the references an assignment
  from a handler wrote over.\<close>

theorem counter_counts_references:
  assumes "fresh_slots s" "run eh_step es (eh_init s) = Some w" "slot_counter (eh_slots w a) = Some c"
  shows "c = of_nat (count (held orig_list (eh_refs w)) a + count (mset (eh_over w)) a)"
  using handler_refs.run_inv [OF assms(2) counters_init [OF assms(1)]] assms(3)
  unfolding counters_ok_def eh_count_def by blast

definition ex_slots :: slots where
  "ex_slots = (\<lambda>a. any_make 0 a Refcounted_Type)"

lemma ex_fresh_slots: "fresh_slots ex_slots"
  by (simp add: fresh_slots_def ex_slots_def any_make_def slot_counter_def)

lemma ex_counter_run:
  "\<exists>w. run eh_step [EH_From 0 7, EH_Copy 1 0, EH_Move 2 0, EH_From 3 8, EH_Copy_Assign 3 1, EH_Destroy 2] (eh_init ex_slots)
     = Some w \<and> slot_counter (eh_slots w 7) = Some 2"
  by (rule run_satD) code_simp

theorem counter_counts_references_witness:
  "\<exists>w. run eh_step [EH_From 0 7, EH_Copy 1 0, EH_Move 2 0, EH_From 3 8, EH_Copy_Assign 3 1, EH_Destroy 2] (eh_init ex_slots)
     = Some w \<and> (2 :: size_t) = of_nat (count (held orig_list (eh_refs w)) 7 + count (mset (eh_over w)) 7)"
  using ex_counter_run counter_counts_references [OF ex_fresh_slots] by blast

lemma orig_list_mem: "a \<in> set (orig_list r) \<longleftrightarrow> er_original r = Some a"
  by (auto simp: orig_list_def split: option.splits)

lemma small_multiple: "2 ^ LENGTH(64) dvd n \<Longrightarrow> n < 2 ^ 64 \<Longrightarrow> n = (0 :: nat)"
  using nat_dvd_not_less [of n "2 ^ 64"] by auto

text \<open>C17: while the loop of a reference counted handler runs, a turn without an error ends it exactly if
  its stop token was requested, no reference refers to the handler, and none that did was written over
  by the assignment that does not release it (fewer than 2^64 of them in all); a turn that does not
  end the loop changes nothing, and while the loop runs, joining its thread blocks.  So a reference
  that was written over keeps the loop running for ever, though nobody holds it.\<close>

theorem loop_waits_for_references:
  assumes "fresh_slots s" "run eh_step es (eh_init s) = Some w" "\<not> eh_dead w"
    and "ah_storage (eh_slots w a) = Some (b, Refcounted h)" "rh_thread h = Running ctx k"
    and "count (held orig_list (eh_refs w)) a + count (mset (eh_over w)) a < 2 ^ 64"
  shows "(\<exists>u. eh_step (EH_Turn a LIBUSB_SUCCESS) w = Some u
      \<and> (slot_thread (eh_slots u a) = Ended \<longleftrightarrow>
          k \<in> eh_stops w \<and> a \<notin> set (eh_over w) \<and> (\<forall>i r. eh_refs w i = Some r \<longrightarrow> er_original r \<noteq> Some a))
      \<and> (slot_thread (eh_slots u a) \<noteq> Ended \<longrightarrow> u = w))
    \<and> eh_step (EH_Stop a) w = None"
proof -
  define n where "n = count (held orig_list (eh_refs w)) a + count (mset (eh_over w)) a"
  have ok: "counters_ok w" using handler_refs.run_inv [OF assms(2) counters_init [OF assms(1)]] .
  have c: "rh_counter h = of_nat n"
    unfolding n_def using ok assms(4) by (simp only: counters_ok_def eh_count_def) (simp add: slot_counter_def)
  have "rh_counter h = 0 \<longleftrightarrow> n = 0"
  proof
    assume "rh_counter h = 0"
    then have "(of_nat n :: size_t) = 0" using c by (simp only:)
    then have "2 ^ LENGTH(64) dvd n" by (simp only: word_of_nat_eq_0_iff)
    then show "n = 0" using assms(6) [folded n_def] by (rule small_multiple)
  next
    assume "n = 0"
    then show "rh_counter h = 0" by (simp add: c)
  qed
  also have "\<dots> \<longleftrightarrow> a \<notin> set (eh_over w) \<and> (\<forall>i r. eh_refs w i = Some r \<longrightarrow> er_original r \<noteq> Some a)"
    unfolding n_def using count_held_zero [of "eh_refs w" orig_list a] ok
    by (simp add: counters_ok_def orig_list_mem count_mset_0_iff) blast
  finally have zero: "rh_counter h = 0 \<longleftrightarrow>
      a \<notin> set (eh_over w) \<and> (\<forall>i r. eh_refs w i = Some r \<longrightarrow> er_original r \<noteq> Some a)" .
  let ?over = "k \<in> eh_stops w \<and> rh_counter h = 0"
  let ?x = "(eh_slots w a)\<lparr>ah_storage := Some (b, Refcounted (h\<lparr>rh_thread := Ended\<rparr>))\<rparr>"
  have same: "(eh_slots w a)\<lparr>ah_storage := Some (b, Refcounted h)\<rparr> = eh_slots w a"
    using assms(4) by (metis any_event_handler.surjective any_event_handler.update_convs(3) any_event_handler.select_convs(3))
  have turn: "eh_step (EH_Turn a LIBUSB_SUCCESS) w =
      Some (if ?over then w\<lparr>eh_slots := (eh_slots w)(a := ?x)\<rparr> else w)"
    using assms(3,4,5)
    by (simp add: eh_step_def any_turn_def refcounted_turn_def slot_act_def same)
  have "eh_step (EH_Stop a) w = None"
    using assms(3,4,5)
    by (simp add: eh_step_def any_stop_def refcounted_stop_def joinable_def join_thread_def slot_act_def)
  moreover have "slot_thread (eh_slots w a) \<noteq> Ended" using assms(4,5) by (simp add: slot_thread_def)
  moreover have "slot_thread ?x = Ended" by (simp add: slot_thread_def)
  ultimately show ?thesis
    unfolding turn using zero by auto
qed

definition ex_leak_events :: "eh_event list" where
  "ex_leak_events =
     [EH_From 0 7, EH_Start 7 True (Some 1) 3, EH_Request 3, EH_Assign_Handler 0 8, EH_Destroy 0]"

lemma ex_leak_run:
  "\<exists>w. run eh_step ex_leak_events (eh_init ex_slots) = Some w \<and> \<not> eh_dead w \<and> eh_over w = [7]
     \<and> ah_storage (eh_slots w 7) = Some (7, Refcounted \<lparr>rh_counter = 1, rh_thread = Running (Some 1) 3\<rparr>)
     \<and> eh_refs w = (\<lambda>_. None)"
  by (simp add: ex_leak_events_def eh_step_def eh_init_def ex_slots_def er_from_handler_def er_ref_def
      any_ref_def any_make_def refcounted_ref_def any_start_def refcounted_start_def joinable_def
      slot_act_def er_assign_handler_def er_dtor_def er_unref_def any_unref_def refcounted_unref_def
      orig_list_def Let_def fun_eq_iff)

theorem loop_waits_for_references_witness:
  "\<exists>w. run eh_step ex_leak_events (eh_init ex_slots) = Some w
     \<and> eh_step (EH_Turn 7 LIBUSB_SUCCESS) w = Some w \<and> eh_step (EH_Stop 7) w = None"
proof -
  obtain w where w: "run eh_step ex_leak_events (eh_init ex_slots) = Some w" "\<not> eh_dead w" "eh_over w = [7]"
    "ah_storage (eh_slots w 7) = Some (7, Refcounted \<lparr>rh_counter = 1, rh_thread = Running (Some 1) 3\<rparr>)"
    "eh_refs w = (\<lambda>_. None)"
    using ex_leak_run by blast
  have "count (held orig_list (eh_refs w)) 7 + count (mset (eh_over w)) 7 < 2 ^ 64"
    by (simp add: w(3,5) held_def)
  from loop_waits_for_references [OF ex_fresh_slots w(1,2,4) _ this, of "Some 1" 3]
  show ?thesis using w(1,3) by auto
qed

text \<open>the storage of an \<open>any_event_handler\<close> is deallocated exactly once, with the resource it came
  from and the size and alignment it was allocated with, whatever moves, assignments and changes
  of the handler there were.\<close>

theorem handler_storage_freed_once:
  assumes "run (owner_step any_handler_ops) es owner_init = Some w"
  shows "mset (acquired w) = mset (disposed w) + held any_tokens (objs w)
    \<and> (dom (objs w) = {} \<longrightarrow> mset (disposed w) = mset (acquired w))"
proof -
  have "given_up w = []"
    using any_owner.never_given_up [OF _ assms] by (simp add: any_handler_ops_def owner_init_def)
  then show ?thesis using any_owner.tokens_accounted [OF assms] any_owner.nothing_left [OF assms] by auto
qed

lemma ex_any_run:
  "\<exists>w. run (owner_step any_handler_ops)
      [Acquire 0 (1, 10, Trivial_Type), Emplace 0 (2, 20, Refcounted_Type), Move 1 0, Destroy 0 0, Destroy 1 0] owner_init
     = Some w \<and> disposed w = [(1, 10, Trivial_Type), (2, 20, Refcounted_Type)]"
  by (rule run_satD) code_simp

theorem handler_storage_freed_once_witness:
  "\<exists>w. run (owner_step any_handler_ops)
      [Acquire 0 (1, 10, Trivial_Type), Emplace 0 (2, 20, Refcounted_Type), Move 1 0, Destroy 0 0, Destroy 1 0] owner_init
     = Some w \<and> mset (acquired w) = {#(1, 10, Trivial_Type), (2, 20, Refcounted_Type)#} + held any_tokens (objs w)"
  using ex_any_run handler_storage_freed_once by fastforce

end
