(* ===== verification/Error_Protocol.thy ===== *)
theory Error_Protocol
  imports Errors
begin

text \<open>
  The error protocols of the wrapper functions (\<open>wrapper/error_protocol.hpp\<close>,
  \<open>wrapper/concepts/error_protocol.hpp\<close>): how a function that opens or claims something tells its
  caller the outcome.  The concept \<open>ErrorProtocol\<close> is the locale \<open>error_protocol\<close>; the four eager
  protocols are interpretations of it, \<open>as_task\<close> is not.
\<close>

section \<open>The protocols\<close>

text \<open>
  The second argument and the second component of the result are the \<open>std::error_code\<close> variable
  of the caller, which only \<open>as_optional\<close> refers to.
\<close>

record ('v, 'r) protocol =
  with_error :: "error_code \<Rightarrow> error_code \<Rightarrow> 'r \<times> error_code"
  with_success :: "'v \<Rightarrow> error_code \<Rightarrow> 'r \<times> error_code"

text \<open>\<open>as_exception\<close>: \<open>Inl\<close> is the \<open>std::system_error\<close> thrown.\<close>

definition as_exception :: "('v, error_code + 'v) protocol" where
  "as_exception = \<lparr>with_error = (\<lambda>ec var. (Inl ec, var)), with_success = (\<lambda>v var. (Inr v, var))\<rparr>"

definition as_optional :: "('v, 'v option) protocol" where
  "as_optional = \<lparr>with_error = (\<lambda>ec var. (None, ec)), with_success = (\<lambda>v var. (Some v, ec_none))\<rparr>"

text \<open>\<open>std::expected\<close>: a value or an error code.\<close>

datatype 'v expected = Unexpected error_code | Expected 'v

definition as_expected :: "('v, 'v expected) protocol" where
  "as_expected =
     \<lparr>with_error = (\<lambda>ec var. (Unexpected ec, var)), with_success = (\<lambda>v var. (Expected v, var))\<rparr>"

definition as_results :: "('v, error_code \<times> 'v option) protocol" where
  "as_results = \<lparr>with_error = (\<lambda>ec var. ((ec, None), var)), with_success = (\<lambda>v var. ((ec_none, Some v), var))\<rparr>"

lemmas protocol_defs = as_exception_def as_optional_def as_expected_def as_results_def

text \<open>
  \<open>as_task\<close>: its functions are coroutines, so their bodies run when the task is awaited.
  \<open>with_success\<close> takes its arguments by reference and keeps the references: the value is read
  from the address at that time, from the memory there is then; \<open>None\<close> as the result is a read of
  an object that is no longer alive.
\<close>

type_synonym 'v memory = "nat \<Rightarrow> 'v option"
type_synonym 'v task = "'v memory \<Rightarrow> (error_code \<times> 'v option) option"

definition as_task_with_error :: "error_code \<Rightarrow> 'v task" where
  "as_task_with_error ec = (\<lambda>mem. Some (ec, None))"

definition as_task_with_success :: "nat \<Rightarrow> 'v task" where
  "as_task_with_success ref = (\<lambda>mem. map_option (\<lambda>v. (ec_none, Some v)) (mem ref))"

section \<open>The interface\<close>

text \<open>
  \<open>report\<close> is what the caller learns from the result and its error code variable.  A function of
  the library that got \<open>rc\<close> from libusb reports through the protocol; what the caller learns does
  not depend on the protocol.
\<close>

definition report_rc :: "('v, 'r) protocol \<Rightarrow> int \<Rightarrow> 'v \<Rightarrow> error_code \<Rightarrow> 'r \<times> error_code" where
  "report_rc P rc v var =
     (if rc \<noteq> LIBUSB_SUCCESS then with_error P (make_usb_error_code rc) var else with_success P v var)"

locale error_protocol =
  fixes P :: "('v, 'r) protocol"
    and outcome :: "'r \<times> error_code \<Rightarrow> error_code + 'v"
  assumes error_law: "ec_bool ec \<Longrightarrow> outcome (with_error P ec var) = Inl ec"
    and success_law: "outcome (with_success P v var) = Inr v"
begin

lemma outcome_report_rc:
  "outcome (report_rc P rc v var) = (if rc \<noteq> LIBUSB_SUCCESS then Inl (make_usb_error_code rc) else Inr v)"
  by (simp add: report_rc_def error_law success_law)

lemma error_is_not_success: "ec_bool ec \<Longrightarrow> with_error P ec var \<noteq> with_success P v var'"
  using error_law [of ec var] success_law [of v var'] by (metis sum.distinct(1))

lemma success_inj: "with_success P v var = with_success P w var' \<Longrightarrow> v = w"
  using success_law [of v var] success_law [of w var'] by simp

end

definition exception_outcome :: "(error_code + 'v) \<times> error_code \<Rightarrow> error_code + 'v" where
  "exception_outcome r = fst r"

definition optional_outcome :: "'v option \<times> error_code \<Rightarrow> error_code + 'v" where
  "optional_outcome r = (case fst r of None \<Rightarrow> Inl (snd r) | Some v \<Rightarrow> Inr v)"

definition expected_outcome :: "'v expected \<times> error_code \<Rightarrow> error_code + 'v" where
  "expected_outcome r = (case fst r of Unexpected ec \<Rightarrow> Inl ec | Expected v \<Rightarrow> Inr v)"

definition results_outcome :: "(error_code \<times> 'v option) \<times> error_code \<Rightarrow> error_code + 'v" where
  "results_outcome r = (case snd (fst r) of None \<Rightarrow> Inl (fst (fst r)) | Some v \<Rightarrow> Inr v)"

lemmas outcome_defs = exception_outcome_def optional_outcome_def expected_outcome_def results_outcome_def

interpretation exception_protocol: error_protocol as_exception exception_outcome
  by unfold_locales (simp_all add: protocol_defs outcome_defs)

interpretation optional_protocol: error_protocol as_optional optional_outcome
  by unfold_locales (simp_all add: protocol_defs outcome_defs)

interpretation expected_protocol: error_protocol as_expected expected_outcome
  by unfold_locales (simp_all add: protocol_defs outcome_defs)

interpretation results_protocol: error_protocol as_results results_outcome
  by unfold_locales (simp_all add: protocol_defs outcome_defs)

section \<open>Properties\<close>

text \<open>C38: the eager protocols are equivalent: whatever libusb returned and whatever the caller's error
  code variable held before, the caller learns the same outcome from an exception, an optional,
  an expected and a results; and \<open>as_optional\<close> leaves the variable clear on success and holding
  the code of libusb on failure.\<close>

theorem protocols_agree:
  "exception_outcome (report_rc as_exception rc v var) = optional_outcome (report_rc as_optional rc v var)
   \<and> optional_outcome (report_rc as_optional rc v var) = expected_outcome (report_rc as_expected rc v var)
   \<and> expected_outcome (report_rc as_expected rc v var) = results_outcome (report_rc as_results rc v var)
   \<and> (ec_bool (snd (report_rc as_optional rc v var)) \<longleftrightarrow> rc \<noteq> LIBUSB_SUCCESS)
   \<and> (rc \<noteq> LIBUSB_SUCCESS \<longleftrightarrow> (\<exists>ec. exception_outcome (report_rc as_exception rc v var) = Inl ec))"
  by (simp add: exception_protocol.outcome_report_rc optional_protocol.outcome_report_rc
      expected_protocol.outcome_report_rc results_protocol.outcome_report_rc)
    (simp add: report_rc_def as_optional_def)

text \<open>\<open>as_task\<close> does not fit: the task it returns for a success reads the value, a local variable
  of the function that returned the task, when it is awaited.  By then the local is gone: whatever
  else is in memory, the read is of a dead object; only the error task is well defined, and the
  success task only if it is awaited while the local is alive.\<close>

theorem as_task_success_dangles:
  "as_task_with_success ref (mem(ref := None)) = None
   \<and> as_task_with_success ref (mem(ref := Some v)) = Some (ec_none, Some v)
   \<and> as_task_with_error ec mem = Some (ec, None)"
  by (simp add: as_task_with_success_def as_task_with_error_def)

end
