(* ===== verification/Handler_Service.thy ===== *)
theory Handler_Service
  imports Handler_Refs Error_Protocol
begin

text \<open>
  The execution context service that owns the libusb context and the event handler
  (\<open>ev/detail/handler_service.hpp\<close>), and the factories for it (\<open>ev/context.hpp\<close>).
\<close>

section \<open>handler_service\<close>

text \<open>
  A stop source is a number; \<open>sv_requested\<close> are those on which stop was requested, \<open>sv_next\<close> is
  the next one to be made.  \<open>sv_live\<close> are the libusb contexts initialised and not yet exited.
\<close>

record service =
  sv_handler :: any_event_handler
  sv_stop :: nat
  sv_usb_ctx :: usb_ctx
  sv_started :: bool
  sv_requested :: "nat set"
  sv_next :: nat
  sv_live :: "nat set"

definition service_init :: service where
  "service_init = \<lparr>sv_handler = any_default, sv_stop = 0, sv_usb_ctx = None, sv_started = False,
     sv_requested = {}, sv_next = 1, sv_live = {}\<rparr>"

text \<open>An operation gives the state and how it ends; \<open>Blocked\<close> is a state in which it waits.\<close>

type_synonym 'a service_op = "service \<Rightarrow> service \<times> 'a act"

definition libusb_exit :: "usb_ctx \<Rightarrow> service \<Rightarrow> service" where
  "libusb_exit ctx s = (case ctx of None \<Rightarrow> s | Some c \<Rightarrow> s\<lparr>sv_live := sv_live s - {c}\<rparr>)"

text \<open>\<open>init_context\<close>: \<open>libusb_init\<close> is given by its result and the context it made.\<close>

definition init_context :: "int \<times> nat \<Rightarrow> service \<Rightarrow> error_code \<times> service" where
  "init_context libusb_init s =
     (let (r, ctx) = libusb_init in
      if r \<noteq> LIBUSB_SUCCESS then (make_usb_error_code r, s)
      else
        let s = s\<lparr>sv_live := insert ctx (sv_live s)\<rparr>;
            s = (if sv_usb_ctx s \<noteq> None then libusb_exit (sv_usb_ctx s) s else s)
        in (ec_none, s\<lparr>sv_usb_ctx := Some ctx\<rparr>))"

definition init_context_options :: "('o list \<Rightarrow> int \<times> nat) \<Rightarrow> 'o list \<Rightarrow> service \<Rightarrow> error_code \<times> service" where
  "init_context_options libusb_init_context options s =
     (let (r, ctx) = libusb_init_context options in
      if r \<noteq> LIBUSB_SUCCESS then (make_usb_error_code r, s)
      else
        let s = s\<lparr>sv_live := insert ctx (sv_live s)\<rparr>;
            s = (if sv_usb_ctx s \<noteq> None then libusb_exit (sv_usb_ctx s) s else s)
        in (ec_none, s\<lparr>sv_usb_ctx := Some ctx\<rparr>))"

definition request_source :: "service \<Rightarrow> service" where
  "request_source s = s\<lparr>sv_requested := insert (sv_stop s) (sv_requested s)\<rparr>"

lemma request_source_simps [simp]:
  "sv_handler (request_source s) = sv_handler s"
  "sv_stop (request_source s) = sv_stop s"
  "sv_usb_ctx (request_source s) = sv_usb_ctx s"
  "sv_started (request_source s) = sv_started s"
  "sv_next (request_source s) = sv_next s"
  "sv_live (request_source s) = sv_live s"
  by (simp_all add: request_source_def)

text \<open>\<open>emplace_handler\<close>; the reference it returns counts.\<close>

definition emplace_part :: "nat \<Rightarrow> nat \<Rightarrow> handler_type \<Rightarrow> unit service_op" where
  "emplace_part memres blk ty s =
     (case any_emplace memres blk ty (sv_handler s) of
        Returned (h, freed) \<Rightarrow> (s\<lparr>sv_handler := any_ref h\<rparr>, Returned ())
      | Blocked \<Rightarrow> (s, Blocked) | Terminated \<Rightarrow> (s, Terminated) | Threw ec \<Rightarrow> (s, Threw ec))"

definition emplace_handler :: "nat \<Rightarrow> nat \<Rightarrow> handler_type \<Rightarrow> unit service_op" where
  "emplace_handler memres blk ty s =
     (if any_valid (sv_handler s) then
        let s = request_source s in
        (case any_stop (sv_handler s) of
           Returned h \<Rightarrow>
             emplace_part memres blk ty (s\<lparr>sv_handler := h, sv_stop := sv_next s, sv_next := sv_next s + 1\<rparr>)
         | Blocked \<Rightarrow> (s, Blocked) | Terminated \<Rightarrow> (s, Terminated) | Threw ec \<Rightarrow> (s, Threw ec))
      else emplace_part memres blk ty s)"

definition get_token :: "service \<Rightarrow> nat" where
  "get_token s = sv_stop s"

text \<open>\<open>request_stop\<close>; that it also interrupts the event handling is the next turn of the loop.\<close>

definition service_request_stop :: "service \<Rightarrow> service" where
  "service_request_stop s = request_source s"

text \<open>\<open>handler\<close>: a reference to the slot; taking it counts.\<close>

definition service_handler :: "service \<Rightarrow> service" where
  "service_handler s = s\<lparr>sv_handler := any_ref (sv_handler s)\<rparr>"

definition drop_reference :: "service \<Rightarrow> service" where
  "drop_reference s = s\<lparr>sv_handler := any_unref (sv_handler s)\<rparr>"

definition service_start :: "bool \<Rightarrow> bool service_op" where
  "service_start spawn s =
     (if sv_started s then (s, Returned True)
      else
        (case any_start spawn (sv_usb_ctx s) (sv_stop s) (sv_handler s) of
           Returned (h, ok) \<Rightarrow> (s\<lparr>sv_handler := h, sv_started := ok\<rparr>, Returned ok)
         | Blocked \<Rightarrow> (s, Blocked) | Terminated \<Rightarrow> (s, Terminated) | Threw ec \<Rightarrow> (s, Threw ec)))"

definition service_is_started :: "service \<Rightarrow> bool" where
  "service_is_started s = sv_started s"

definition shutdown :: "unit service_op" where
  "shutdown s =
     (let s = request_source s in
      (case any_stop (sv_handler s) of
         Returned h \<Rightarrow> (s\<lparr>sv_handler := h\<rparr>, Returned ())
       | Blocked \<Rightarrow> (s, Blocked) | Terminated \<Rightarrow> (s, Terminated) | Threw ec \<Rightarrow> (s, Threw ec)))"

definition service_dtor :: "unit service_op" where
  "service_dtor s =
     (case shutdown s of
        (s, Returned _) \<Rightarrow> (libusb_exit (sv_usb_ctx s) s, Returned ())
      | r \<Rightarrow> r)"

definition service_usb_context :: "service \<Rightarrow> usb_ctx" where
  "service_usb_context s = sv_usb_ctx s"

text \<open>One turn of the event loop of the service's handler.\<close>

definition service_turn :: "int \<Rightarrow> unit service_op" where
  "service_turn r s =
     (case any_turn (sv_requested s) r (sv_handler s) of
        Returned h \<Rightarrow> (s\<lparr>sv_handler := h\<rparr>, Returned ())
      | Blocked \<Rightarrow> (s, Blocked) | Terminated \<Rightarrow> (s, Terminated) | Threw ec \<Rightarrow> (s, Threw ec))"

section \<open>The factories\<close>

text \<open>
  What follows \<open>init_context\<close> in the factories; the reference that \<open>emplace_handler\<close> returns is
  dropped, the result of \<open>start\<close> too.  When it is \<open>Blocked\<close> the caller waits in
  \<open>emplace_handler\<close>, and goes on by trying this part again.
\<close>

definition emplace_and_start :: "bool \<Rightarrow> nat \<Rightarrow> nat \<Rightarrow> handler_type \<Rightarrow> unit service_op" where
  "emplace_and_start spawn memres blk ty s =
     (case emplace_handler memres blk ty s of
        (s, Returned _) \<Rightarrow>
          (case service_start spawn (drop_reference s) of (s, r) \<Rightarrow> (s, map_act (\<lambda>_. ()) r))
      | r \<Rightarrow> r)"

text \<open>\<open>get_handler_service\<close>; the default memory resource is number 0.\<close>

definition get_handler_service :: "int \<times> nat \<Rightarrow> bool \<Rightarrow> nat \<Rightarrow> unit service_op" where
  "get_handler_service libusb_init spawn blk s =
     (if sv_started s then (s, Returned ())
      else
        (case init_context libusb_init s of
           (ec, s) \<Rightarrow>
             if ec_bool ec then (s, Threw ec)
             else emplace_and_start spawn 0 blk Refcounted_Type s))"

text \<open>\<open>make_context\<close> and \<open>make_context_with_options\<close>; a context is a handle to the service and
  carries nothing else.\<close>

definition make_context_rest ::
  "(unit, 'r) protocol \<Rightarrow> bool \<Rightarrow> nat \<Rightarrow> nat \<Rightarrow> handler_type \<Rightarrow> error_code \<Rightarrow> ('r \<times> error_code) service_op" where
  "make_context_rest P spawn memres blk ty var s =
     (case emplace_and_start spawn memres blk ty s of
        (s, r) \<Rightarrow> (s, map_act (\<lambda>_. with_success P () var) r))"

definition make_context ::
  "(unit, 'r) protocol \<Rightarrow> int \<times> nat \<Rightarrow> bool \<Rightarrow> nat \<Rightarrow> nat \<Rightarrow> handler_type \<Rightarrow> error_code
     \<Rightarrow> ('r \<times> error_code) service_op" where
  "make_context P libusb_init spawn memres blk ty var s =
     (case init_context libusb_init s of
        (ec, s) \<Rightarrow>
          if ec_bool ec then (s, Returned (with_error P ec var))
          else make_context_rest P spawn memres blk ty var s)"

definition make_context_with_options ::
  "(unit, 'r) protocol \<Rightarrow> ('o list \<Rightarrow> int \<times> nat) \<Rightarrow> 'o list \<Rightarrow> bool \<Rightarrow> nat \<Rightarrow> nat \<Rightarrow> handler_type \<Rightarrow> error_code
     \<Rightarrow> ('r \<times> error_code) service_op" where
  "make_context_with_options P libusb_init_context options spawn memres blk ty var s =
     (case init_context_options libusb_init_context options s of
        (ec, s) \<Rightarrow>
          if ec_bool ec then (s, Returned (with_error P ec var))
          else make_context_rest P spawn memres blk ty var s)"

text \<open>The overloads: the default memory resource is number 0, the default protocol \<open>as_exception\<close>.\<close>

definition make_context_in where
  "make_context_in libusb_init spawn memres blk ty s =
     make_context as_exception libusb_init spawn memres blk ty ec_none s"

definition make_context_reporting where
  "make_context_reporting P libusb_init spawn blk ty var s =
     make_context P libusb_init spawn 0 blk ty var s"

definition make_context_default where
  "make_context_default libusb_init spawn blk ty s =
     make_context as_exception libusb_init spawn 0 blk ty ec_none s"

definition make_context_with_options_in where
  "make_context_with_options_in libusb_init_context options spawn memres blk ty s =
     make_context_with_options as_exception libusb_init_context options spawn memres blk ty ec_none s"

definition make_context_with_options_reporting where
  "make_context_with_options_reporting P libusb_init_context options spawn blk ty var s =
     make_context_with_options P libusb_init_context options spawn 0 blk ty var s"

definition make_context_with_options_default where
  "make_context_with_options_default libusb_init_context options spawn blk ty s =
     make_context_with_options as_exception libusb_init_context options spawn 0 blk ty ec_none s"

text \<open>The operations of a context are those of its service.\<close>

definition context_get_token :: "service \<Rightarrow> nat" where
  "context_get_token s = get_token s"

definition context_request_stop :: "service \<Rightarrow> service" where
  "context_request_stop s = service_request_stop s"

definition context_handler :: "service \<Rightarrow> service" where
  "context_handler s = service_handler s"

definition context_usb_context :: "service \<Rightarrow> usb_ctx" where
  "context_usb_context s = service_usb_context s"

section \<open>The service as a machine\<close>

datatype service_event =
    Sv_Get "int \<times> nat" bool nat | Sv_Make "int \<times> nat" bool nat nat handler_type
  | Sv_Make_Rest bool nat nat handler_type | Sv_Start bool | Sv_Request | Sv_Shutdown
  | Sv_Ref | Sv_Unref | Sv_Turn int

text \<open>\<open>libusb_init\<close> gives a context that is not in use; after \<open>Terminated\<close> there is no state.\<close>

definition sv_result :: "service \<times> 'a act \<Rightarrow> service option" where
  "sv_result r = (case snd r of Terminated \<Rightarrow> None | _ \<Rightarrow> Some (fst r))"

fun service_step :: "service_event \<Rightarrow> service \<Rightarrow> service option" where
  "service_step (Sv_Get i spawn blk) s =
     (if snd i \<in> sv_live s then None else sv_result (get_handler_service i spawn blk s))"
| "service_step (Sv_Make i spawn m blk ty) s =
     (if snd i \<in> sv_live s then None else sv_result (make_context as_exception i spawn m blk ty ec_none s))"
| "service_step (Sv_Make_Rest spawn m blk ty) s =
     sv_result (make_context_rest as_exception spawn m blk ty ec_none s)"
| "service_step (Sv_Start spawn) s = sv_result (service_start spawn s)"
| "service_step Sv_Request s = Some (service_request_stop s)"
| "service_step Sv_Shutdown s = sv_result (shutdown s)"
| "service_step Sv_Ref s = Some (service_handler s)"
| "service_step Sv_Unref s = Some (drop_reference s)"
| "service_step (Sv_Turn r) s = sv_result (service_turn r s)"

section \<open>Invariant\<close>

text \<open>The service has exactly one live context, the one it stores; a running loop has the token of
  the current stop source, and then the service counts as started.\<close>

definition service_ok :: "service \<Rightarrow> bool" where
  "service_ok s \<longleftrightarrow> sv_live s = set_option (sv_usb_ctx s)
     \<and> (\<forall>c k. slot_thread (sv_handler s) = Running c k \<longrightarrow> k = sv_stop s \<and> sv_started s)
     \<and> sv_stop s < sv_next s \<and> (\<forall>k \<in> sv_requested s. k < sv_next s)"

lemma handler_thread_ref [simp]:
  "handler_thread (handler_ref h) = handler_thread h"
  "handler_thread (handler_unref h) = handler_thread h"
  by (cases h; simp add: trivial_ref_def trivial_unref_def refcounted_ref_def refcounted_unref_def)+

lemma handler_thread_construct [simp]: "handler_thread (construct_handler ty) = No_Thread"
  by (cases ty) simp_all

lemma slot_thread_simps [simp]:
  "slot_thread (any_ref a) = slot_thread a"
  "slot_thread (any_unref a) = slot_thread a"
  "slot_thread (any_construct m b ty a) = No_Thread"
  by (auto simp: slot_thread_def any_ref_def any_unref_def any_construct_def split: option.splits)

lemma handler_stop_thread:
  "handler_stop h = Returned g \<Longrightarrow> handler_thread g = No_Thread"
  "handler_stop h \<noteq> Terminated" "handler_stop h \<noteq> Threw ec"
  "handler_stop h = Blocked \<longleftrightarrow> (\<exists>c k. handler_thread h = Running c k)"
  by (cases h; auto simp: map_act_Returned trivial_stop_def refcounted_stop_def joinable_def join_thread_def
      split: thread.splits if_splits)+

lemma handler_start_thread:
  "handler_start spawn c k h = Returned (g, ok) \<Longrightarrow>
   handler_thread g = (if ok then Running c k else handler_thread h)"
  by (cases h) (auto simp: map_act_Returned trivial_start_def refcounted_start_def split: if_splits)

lemma handler_turn_thread:
  "handler_turn req r h = Returned g \<Longrightarrow> handler_thread g = Ended \<or> handler_thread g = handler_thread h"
  by (cases h) (auto simp: map_act_Returned trivial_turn_def refcounted_turn_def split: if_splits thread.splits)

lemma any_stop_cases:
  "any_stop a = Returned b \<Longrightarrow> slot_thread b = No_Thread"
  "any_stop a \<noteq> Terminated" "any_stop a \<noteq> Threw ec"
  by (auto simp: any_stop_def slot_thread_def map_act_Returned handler_stop_thread split: option.splits)

lemma any_stop_blocked: "any_stop a = Blocked \<longleftrightarrow> (\<exists>c k. slot_thread a = Running c k)"
  by (auto simp: any_stop_def slot_thread_def handler_stop_thread split: option.splits)

lemma any_start_thread:
  "any_start spawn c k a = Returned (b, ok) \<Longrightarrow>
   slot_thread b = (if ok then Running c k else slot_thread a)"
  by (auto simp: any_start_def slot_thread_def map_act_Returned handler_start_thread split: option.splits)

lemma any_turn_thread:
  "any_turn req r a = Returned b \<Longrightarrow> slot_thread b = Ended \<or> slot_thread b = slot_thread a"
  using handler_turn_thread
  by (fastforce simp: any_turn_def slot_thread_def map_act_Returned split: option.splits)

lemma any_emplace_thread:
  "any_emplace m b ty a = Returned (a', freed) \<Longrightarrow> slot_thread a' = No_Thread"
  by (auto simp: any_emplace_def map_act_Returned)

lemma init_context_ok:
  assumes "service_ok s" "snd i \<notin> sv_live s" "init_context i s = (ec, t)"
  shows "service_ok t \<and> sv_handler t = sv_handler s \<and> sv_started t = sv_started s"
  using assms
  by (auto simp: init_context_def libusb_exit_def service_ok_def Let_def split: prod.splits if_splits option.splits)

lemma request_ok: "service_ok s \<Longrightarrow> service_ok (request_source s)"
  by (auto simp: service_ok_def request_source_def)

lemma emplace_part_ok:
  assumes "service_ok s" "emplace_part m b ty s = (t, r)"
  shows "service_ok t"
  using assms any_emplace_thread
  by (auto simp: emplace_part_def service_ok_def split: act.splits prod.splits)

lemma emplace_handler_ok:
  assumes ok: "service_ok s" and e: "emplace_handler m b ty s = (t, r)"
  shows "service_ok t"
proof (cases "any_valid (sv_handler s)")
  case True
  let ?s = "request_source s"
  show ?thesis
  proof (cases "any_stop (sv_handler s)")
    case (Returned h)
    then have "service_ok (?s\<lparr>sv_handler := h, sv_stop := sv_next ?s, sv_next := sv_next ?s + 1\<rparr>)"
      using request_ok [OF ok] any_stop_cases(1) [OF Returned] by (auto simp: service_ok_def request_source_def less_SucI)
    then show ?thesis using e True Returned emplace_part_ok
      by (auto simp: emplace_handler_def Let_def request_source_def)
  qed (use True e request_ok [OF ok] in \<open>auto simp: emplace_handler_def Let_def request_source_def\<close>)
next
  case False
  then show ?thesis using e emplace_part_ok [OF ok] by (simp add: emplace_handler_def)
qed

lemma drop_ok: "service_ok s \<Longrightarrow> service_ok (drop_reference s)"
  by (simp add: service_ok_def drop_reference_def)

lemma start_ok:
  assumes ok: "service_ok s" and st: "service_start spawn s = (t, r)"
  shows "service_ok t"
proof (cases "sv_started s")
  case True
  then show ?thesis using ok st by (simp add: service_start_def)
next
  case False
  show ?thesis
  proof (cases "any_start spawn (sv_usb_ctx s) (sv_stop s) (sv_handler s)")
    case (Returned x)
    then obtain h b where x: "any_start spawn (sv_usb_ctx s) (sv_stop s) (sv_handler s) = Returned (h, b)"
      by (cases x) auto
    then have t: "t = s\<lparr>sv_handler := h, sv_started := b\<rparr>" using False st by (simp add: service_start_def)
    show ?thesis using any_start_thread [OF x] ok False by (auto simp: t service_ok_def split: if_splits)
  qed (use False ok st in \<open>simp_all add: service_start_def\<close>)
qed

lemma emplace_and_start_ok:
  assumes ok: "service_ok s" and e: "emplace_and_start spawn m b ty s = (t, r)"
  shows "service_ok t"
proof -
  obtain u q where u: "emplace_handler m b ty s = (u, q)" by fastforce
  have uok: "service_ok u" using ok u by (rule emplace_handler_ok)
  obtain v p where v: "service_start spawn (drop_reference u) = (v, p)" by fastforce
  have "service_ok v" using start_ok [OF drop_ok [OF uok] v] .
  show ?thesis
  proof (cases q)
    case (Returned x)
    then show ?thesis using e \<open>service_ok v\<close> by (simp add: emplace_and_start_def u v)
  qed (use e uok in \<open>simp_all add: emplace_and_start_def u\<close>)
qed

lemma get_service_ok:
  assumes ok: "service_ok s" and fresh: "snd i \<notin> sv_live s" and g: "get_handler_service i spawn blk s = (t, r)"
  shows "service_ok t"
proof (cases "sv_started s")
  case True
  then show ?thesis using ok g by (simp add: get_handler_service_def)
next
  case False
  obtain ec u where u: "init_context i s = (ec, u)" by fastforce
  have uok: "service_ok u" using init_context_ok [OF ok fresh u] by blast
  show ?thesis
  proof (cases "ec_bool ec")
    case True
    then show ?thesis using g False uok by (simp add: get_handler_service_def u)
  next
    case False
    then show ?thesis using g \<open>\<not> sv_started s\<close> emplace_and_start_ok [OF uok]
      by (simp add: get_handler_service_def u)
  qed
qed

lemma make_rest_ok:
  assumes ok: "service_ok s" and m: "make_context_rest P spawn memres blk ty var s = (t, r)"
  shows "service_ok t"
proof -
  obtain u q where u: "emplace_and_start spawn memres blk ty s = (u, q)" by fastforce
  show ?thesis using m emplace_and_start_ok [OF ok u] by (simp add: make_context_rest_def u)
qed

lemma make_context_ok:
  assumes ok: "service_ok s" and fresh: "snd i \<notin> sv_live s"
    and m: "make_context P i spawn memres blk ty var s = (t, r)"
  shows "service_ok t"
proof -
  obtain ec u where u: "init_context i s = (ec, u)" by fastforce
  have uok: "service_ok u" using init_context_ok [OF ok fresh u] by blast
  show ?thesis
  proof (cases "ec_bool ec")
    case True
    then show ?thesis using m uok by (simp add: make_context_def u)
  next
    case False
    then show ?thesis using m make_rest_ok [OF uok] by (simp add: make_context_def u)
  qed
qed

lemma shutdown_ok:
  assumes ok: "service_ok s" and sh: "shutdown s = (t, r)"
  shows "service_ok t"
proof (cases "any_stop (sv_handler s)")
  case (Returned h)
  then have t: "t = (request_source s)\<lparr>sv_handler := h\<rparr>"
    using sh by (simp add: shutdown_def Let_def request_source_def)
  show ?thesis using request_ok [OF ok] any_stop_cases(1) [OF Returned] by (simp add: t service_ok_def)
qed (use sh request_ok [OF ok] in \<open>simp_all add: shutdown_def Let_def request_source_def\<close>)

lemma turn_ok:
  assumes ok: "service_ok s" and tn: "service_turn x s = (t, r)"
  shows "service_ok t"
proof (cases "any_turn (sv_requested s) x (sv_handler s)")
  case (Returned h)
  then have t: "t = s\<lparr>sv_handler := h\<rparr>" using tn by (simp add: service_turn_def)
  show ?thesis using ok any_turn_thread [OF Returned] by (auto simp: t service_ok_def)
qed (use tn ok in \<open>simp_all add: service_turn_def\<close>)

lemma sv_result_ok:
  assumes "sv_result r = Some t" "\<And>u q. r = (u, q) \<Longrightarrow> service_ok u"
  shows "service_ok t"
  using assms by (cases r) (auto simp: sv_result_def split: act.splits)

lemma service_step_ok:
  assumes ok: "service_ok s" and st: "service_step e s = Some t"
  shows "service_ok t"
proof (cases e)
  case (Sv_Get i spawn blk)
  then have i: "snd i \<notin> sv_live s" "sv_result (get_handler_service i spawn blk s) = Some t"
    using st by (simp_all split: if_splits)
  show ?thesis by (rule sv_result_ok [OF i(2) get_service_ok [OF ok i(1)]])
next
  case (Sv_Make i spawn m blk ty)
  then have i: "snd i \<notin> sv_live s"
      "sv_result (make_context as_exception i spawn m blk ty ec_none s) = Some t"
    using st by (simp_all split: if_splits)
  show ?thesis by (rule sv_result_ok [OF i(2) make_context_ok [OF ok i(1)]])
next
  case (Sv_Make_Rest spawn m blk ty)
  then have "sv_result (make_context_rest as_exception spawn m blk ty ec_none s) = Some t"
    using st by simp
  then show ?thesis by (rule sv_result_ok) (rule make_rest_ok [OF ok])
next
  case (Sv_Start spawn)
  then have "sv_result (service_start spawn s) = Some t" using st by simp
  then show ?thesis by (rule sv_result_ok) (rule start_ok [OF ok])
next
  case Sv_Request
  then show ?thesis using st request_ok [OF ok] by (auto simp: service_request_stop_def)
next
  case Sv_Shutdown
  then have "sv_result (shutdown s) = Some t" using st by simp
  then show ?thesis by (rule sv_result_ok) (rule shutdown_ok [OF ok])
next
  case Sv_Ref
  then show ?thesis using st ok by (auto simp: service_handler_def service_ok_def)
next
  case Sv_Unref
  then show ?thesis using st drop_ok [OF ok] by simp
next
  case (Sv_Turn r)
  then have "sv_result (service_turn r s) = Some t" using st by simp
  then show ?thesis by (rule sv_result_ok) (rule turn_ok [OF ok])
qed

interpretation service_machine: machine service_step service_ok
  by unfold_locales (rule service_step_ok)

section \<open>Properties\<close>

lemma service_init_ok: "service_ok service_init"
  by (simp add: service_ok_def service_init_def any_default_def slot_thread_def)

lemmas service_run_ok = service_machine.run_inv [OF _ service_init_ok]

lemma dtor_cases:
  assumes "service_dtor s = (t, Returned ())"
  obtains h where "any_stop (sv_handler s) = Returned h"
    "t = libusb_exit (sv_usb_ctx s) ((request_source s)\<lparr>sv_handler := h\<rparr>)"
proof (cases "any_stop (sv_handler s)")
  case (Returned h)
  then show ?thesis using assms that
    by (simp add: service_dtor_def shutdown_def Let_def request_source_def)
qed (use assms in \<open>simp_all add: service_dtor_def shutdown_def Let_def\<close>)

text \<open>C18: whatever the program does with the service, there is exactly one live libusb context, the
  one the service stores, none before the first; a running loop has the token of the current stop
  source; and when the destructor returns, no loop runs and no context is left.\<close>

theorem service_owns_one_context:
  assumes "run service_step es service_init = Some s"
  shows "sv_live s = set_option (service_usb_context s)
    \<and> (\<forall>c k. slot_thread (sv_handler s) = Running c k \<longrightarrow> k = get_token s \<and> sv_started s)
    \<and> (\<forall>t. service_dtor s = (t, Returned ()) \<longrightarrow>
          sv_live t = {} \<and> slot_thread (sv_handler t) = No_Thread
          \<and> \<not> (\<exists>c k. slot_thread (sv_handler s) = Running c k))"
proof -
  have ok: "service_ok s" using assms by (rule service_run_ok)
  have "sv_live t = {} \<and> slot_thread (sv_handler t) = No_Thread
      \<and> \<not> (\<exists>c k. slot_thread (sv_handler s) = Running c k)" if "service_dtor s = (t, Returned ())" for t
    using that
  proof (cases rule: dtor_cases)
    case (1 h)
    have "\<not> (\<exists>c k. slot_thread (sv_handler s) = Running c k)"
      using any_stop_blocked [of "sv_handler s"] 1(1) by auto
    then show ?thesis using ok any_stop_cases(1) [OF 1(1)]
      by (auto simp: 1(2) service_ok_def libusb_exit_def request_source_def split: option.splits)
  qed
  then show ?thesis using ok by (auto simp: service_ok_def service_usb_context_def get_token_def)
qed

text \<open>A program that gets the service, holds a reference for a while, requests stop and shuts it down.\<close>

definition ex_service_events :: "service_event list" where
  "ex_service_events =
     [Sv_Get (0, 5) True 10, Sv_Ref, Sv_Turn 0, Sv_Request, Sv_Turn 0, Sv_Unref, Sv_Turn 0, Sv_Shutdown]"

lemma ex_service_run:
  "\<exists>s. run service_step ex_service_events service_init = Some s \<and> sv_usb_ctx s = Some 5"
  unfolding ex_service_events_def service_init_def by (rule run_satD) code_simp

theorem service_owns_one_context_witness:
  "\<exists>s. run service_step ex_service_events service_init = Some s \<and> sv_live s = {5}"
  using ex_service_run service_owns_one_context by (fastforce simp: service_usb_context_def)

text \<open>What the factories do with a service that has no handler yet.\<close>

lemma service_init_simps [simp]:
  "sv_handler service_init = any_default" "\<not> sv_started service_init" "sv_stop service_init = 0"
  "sv_usb_ctx service_init = None" "sv_live service_init = {}"
  by (simp_all add: service_init_def)

lemma emplace_first:
  assumes "sv_handler s = any_default" "\<not> sv_started s"
  shows "emplace_and_start spawn memres blk Refcounted_Type s =
    (s\<lparr>sv_handler := \<lparr>ah_vtable = Refcounted_Type, ah_memres = memres, ah_storage = Some (blk,
         Refcounted \<lparr>rh_counter = 0, rh_thread = (if spawn then Running (sv_usb_ctx s) (sv_stop s) else No_Thread)\<rparr>)\<rparr>,
       sv_started := spawn\<rparr>, Returned ())"
  using assms
  by (cases spawn) (simp_all add: emplace_and_start_def emplace_handler_def emplace_part_def any_emplace_def
      any_destroy_def any_stop_def any_deallocate_def any_construct_def any_valid_def any_default_def
      any_ref_def refcounted_ref_def drop_reference_def any_unref_def refcounted_unref_def service_start_def
      any_start_def refcounted_start_def joinable_def)

lemma init_first:
  "init_context (r, c) service_init =
     (if r \<noteq> LIBUSB_SUCCESS then (make_usb_error_code r, service_init)
      else (ec_none, service_init\<lparr>sv_live := {c}, sv_usb_ctx := Some c\<rparr>))"
  by (simp add: init_context_def)

text \<open>the first use of the service: it fails with the error of \<open>libusb_init\<close> and changes nothing,
  or makes a context and a reference counted handler nobody refers to, whose loop runs on that
  context with the service's token if the thread could be created; if not, the service is handed
  out all the same, and the next use makes another context.\<close>

theorem get_handler_service_first_use:
  "get_handler_service (r, c) spawn blk service_init =
     (if r \<noteq> LIBUSB_SUCCESS then (service_init, Threw (make_usb_error_code r))
      else (service_init\<lparr>sv_live := {c}, sv_usb_ctx := Some c, sv_started := spawn,
              sv_handler := \<lparr>ah_vtable = Refcounted_Type, ah_memres = 0, ah_storage = Some (blk,
                Refcounted \<lparr>rh_counter = 0, rh_thread = (if spawn then Running (Some c) 0 else No_Thread)\<rparr>)\<rparr>\<rparr>,
            Returned ()))"
  by (simp add: get_handler_service_def init_first emplace_first)

text \<open>\<open>make_context\<close> reports the failure of \<open>libusb_init\<close> through the protocol, and success also
  when the event loop could not be started.\<close>

theorem make_context_reports_init_only:
  "make_context P (r, c) spawn memres blk Refcounted_Type var service_init =
     (if r \<noteq> LIBUSB_SUCCESS then (service_init, Returned (with_error P (make_usb_error_code r) var))
      else (service_init\<lparr>sv_live := {c}, sv_usb_ctx := Some c, sv_started := spawn,
              sv_handler := \<lparr>ah_vtable = Refcounted_Type, ah_memres = memres, ah_storage = Some (blk,
                Refcounted \<lparr>rh_counter = 0, rh_thread = (if spawn then Running (Some c) 0 else No_Thread)\<rparr>)\<rparr>\<rparr>,
            Returned (with_success P () var)))"
  by (simp add: make_context_def make_context_rest_def init_first emplace_first)

section \<open>Started, and never again\<close>

text \<open>The service counts as started and its handler has no thread: no operation changes that.\<close>

definition spent :: "service \<Rightarrow> bool" where
  "spent s \<longleftrightarrow> sv_started s \<and> slot_thread (sv_handler s) = No_Thread"

lemma spent_start: "spent s \<Longrightarrow> service_start spawn s = (s, Returned True)"
  by (simp add: spent_def service_start_def)

lemma spent_drop: "spent s \<Longrightarrow> spent (drop_reference s)"
  by (simp add: spent_def drop_reference_def)

lemma stop_no_thread:
  assumes "slot_thread a = No_Thread"
  obtains b where "any_stop a = Returned b" "slot_thread b = No_Thread"
  using assms any_stop_cases any_stop_blocked [of a] by (cases "any_stop a") auto

lemma emplace_part_started:
  assumes "sv_started s" "slot_thread (sv_handler s) = No_Thread"
  obtains t where "emplace_part memres blk ty s = (t, Returned ())" "spent t"
proof -
  obtain b where b: "any_stop (sv_handler s) = Returned b" using stop_no_thread [OF assms(2)] by blast
  obtain c freed where c: "any_deallocate b = (c, freed)" by fastforce
  show ?thesis
    by (rule that [of "s\<lparr>sv_handler := any_ref (any_construct memres blk ty c)\<rparr>"])
      (simp_all add: emplace_part_def any_emplace_def any_destroy_def b c spent_def assms(1))
qed

lemma emplace_started:
  assumes st: "sv_started s" and nr: "\<not> (\<exists>c k. slot_thread (sv_handler s) = Running c k)"
  obtains t where "emplace_and_start spawn memres blk ty s = (t, Returned ())" "spent t"
proof -
  have "\<exists>t. emplace_handler memres blk ty s = (t, Returned ()) \<and> spent t"
  proof (cases "any_valid (sv_handler s)")
    case True
    obtain h where h: "any_stop (sv_handler s) = Returned h"
      using nr any_stop_cases(2,3) any_stop_blocked [of "sv_handler s"] by (cases "any_stop (sv_handler s)") auto
    let ?s = "(request_source s)\<lparr>sv_handler := h, sv_stop := sv_next s, sv_next := sv_next s + 1\<rparr>"
    have "sv_started ?s" "slot_thread (sv_handler ?s) = No_Thread"
      using st any_stop_cases(1) [OF h] by simp_all
    then obtain t where "emplace_part memres blk ty ?s = (t, Returned ())" "spent t"
      by (rule emplace_part_started)
    then show ?thesis using True h by (simp add: emplace_handler_def Let_def)
  next
    case False
    then have "slot_thread (sv_handler s) = No_Thread"
      by (cases "ah_storage (sv_handler s)") (simp_all add: slot_thread_def any_valid_def)
    then obtain t where "emplace_part memres blk ty s = (t, Returned ())" "spent t"
      by (rule emplace_part_started [OF st])
    then show ?thesis using False by (simp add: emplace_handler_def)
  qed
  then obtain t where t: "emplace_handler memres blk ty s = (t, Returned ())" "spent t" by blast
  then have "emplace_and_start spawn memres blk ty s = (drop_reference t, Returned ())"
    using spent_start [OF spent_drop [OF t(2)]] by (simp add: emplace_and_start_def)
  then show ?thesis using spent_drop [OF t(2)] by (rule that)
qed

lemma spent_rest:
  assumes "spent s"
  obtains t where "make_context_rest P spawn memres blk ty var s = (t, Returned (with_success P () var))" "spent t"
proof -
  have "sv_started s" "\<not> (\<exists>c k. slot_thread (sv_handler s) = Running c k)"
    using assms by (simp_all add: spent_def)
  then obtain t where "emplace_and_start spawn memres blk ty s = (t, Returned ())" "spent t"
    by (rule emplace_started)
  then show ?thesis by (intro that [of t]) (simp_all add: make_context_rest_def)
qed

lemma spent_init:
  assumes "spent s" "init_context i s = (ec, t)"
  shows "spent t"
  using assms by (auto simp: init_context_def libusb_exit_def spent_def Let_def split: prod.splits if_splits option.splits)

lemma spent_shutdown: "spent s \<Longrightarrow> shutdown s = (t, r) \<Longrightarrow> spent t"
  by (rule stop_no_thread [of "sv_handler s"]) (auto simp: spent_def shutdown_def Let_def)

lemma spent_turn:
  assumes "spent s" shows "service_turn r s = (s, Blocked)"
proof -
  have "any_turn (sv_requested s) r (sv_handler s) = Blocked"
  proof (cases "ah_storage (sv_handler s)")
    case (Some x)
    then obtain b h where "ah_storage (sv_handler s) = Some (b, h)" by (cases x) auto
    then show ?thesis using assms
      by (cases h) (simp_all add: spent_def slot_thread_def any_turn_def trivial_turn_def refcounted_turn_def)
  qed (simp add: any_turn_def)
  then show ?thesis by (simp add: service_turn_def)
qed

lemma sv_resultD: "sv_result (t, Returned x) = Some u \<Longrightarrow> u = t"
  by (simp add: sv_result_def)

lemma spent_step:
  assumes sp: "spent s" and st: "service_step e s = Some t"
  shows "spent t"
proof (cases e)
  case (Sv_Get i spawn blk)
  then show ?thesis using st sp
    by (simp add: get_handler_service_def spent_def sv_result_def split: if_splits)
next
  case (Sv_Make i spawn m blk ty)
  obtain ec u where u: "init_context i s = (ec, u)" by fastforce
  obtain v where v: "make_context_rest as_exception spawn m blk ty ec_none u
      = (v, Returned (with_success as_exception () ec_none))" "spent v"
    using spent_rest [OF spent_init [OF sp u]] by blast
  show ?thesis
    using st v spent_init [OF sp u] unfolding Sv_Make
    by (cases "ec_bool ec") (auto simp: make_context_def u sv_result_def split: if_splits)
next
  case (Sv_Make_Rest spawn m blk ty)
  then show ?thesis using st by (rule_tac spent_rest [OF sp, of as_exception spawn m blk ty ec_none]) (auto simp: sv_result_def)
next
  case (Sv_Start spawn)
  then show ?thesis using st spent_start [OF sp] sp by (simp add: sv_result_def)
next
  case Sv_Request
  then show ?thesis using st sp by (auto simp: service_request_stop_def spent_def)
next
  case Sv_Shutdown
  obtain u r where u: "shutdown s = (u, r)" by fastforce
  then show ?thesis using st Sv_Shutdown spent_shutdown [OF sp u] by (auto simp: sv_result_def split: act.splits)
next
  case Sv_Ref
  then show ?thesis using st sp by (auto simp: service_handler_def spent_def)
next
  case Sv_Unref
  then show ?thesis using st spent_drop [OF sp] by auto
next
  case (Sv_Turn r)
  then show ?thesis using st sp by (simp add: spent_turn sv_result_def)
qed

interpretation spent_machine: machine service_step spent
  by unfold_locales (rule spent_step)

text \<open>\<open>m_started\<close> is never reset: a handler that replaces the one that was started (for a second
  \<open>make_context\<close>, after the loop has ended) is reported as a success, and its loop does not run
  then, nor after any later operation; \<open>start\<close> answers \<open>true\<close> to each of them.\<close>

theorem replaced_handler_never_runs:
  assumes "run service_step es service_init = Some s" "sv_started s"
    and "\<not> (\<exists>c k. slot_thread (sv_handler s) = Running c k)"
  shows "\<exists>t. make_context_rest P spawn memres blk ty var s = (t, Returned (with_success P () var))
    \<and> (\<forall>fs u. run service_step fs t = Some u \<longrightarrow>
          slot_thread (sv_handler u) = No_Thread \<and> (\<forall>sp. service_start sp u = (u, Returned True)))"
proof -
  obtain t where t: "emplace_and_start spawn memres blk ty s = (t, Returned ())" "spent t"
    using assms(2,3) by (rule emplace_started)
  have "slot_thread (sv_handler u) = No_Thread \<and> (\<forall>sp. service_start sp u = (u, Returned True))"
    if "run service_step fs t = Some u" for fs u
    using spent_machine.run_inv [OF that t(2)] spent_start by (auto simp: spent_def)
  then show ?thesis using t(1) by (auto simp: make_context_rest_def)
qed

definition ex_ended_events :: "service_event list" where
  "ex_ended_events = [Sv_Get (0, 5) True 10, Sv_Request, Sv_Turn 0]"

lemma ex_ended_run:
  "\<exists>s. run service_step ex_ended_events service_init = Some s \<and>
     (sv_started s \<and> slot_thread (sv_handler s) = Ended)"
  unfolding ex_ended_events_def service_init_def by (rule run_satD) code_simp

theorem replaced_handler_never_runs_witness:
  "\<exists>s t. run service_step ex_ended_events service_init = Some s
     \<and> make_context_rest as_optional True 0 20 Trivial_Type ec_none s = (t, Returned (Some (), ec_none))
     \<and> slot_thread (sv_handler t) = No_Thread"
proof -
  obtain s where s: "run service_step ex_ended_events service_init = Some s"
      "sv_started s" "slot_thread (sv_handler s) = Ended"
    using ex_ended_run by blast
  obtain t where t: "make_context_rest as_optional True 0 20 Trivial_Type ec_none s
        = (t, Returned (with_success as_optional () ec_none))"
      "\<forall>fs u. run service_step fs t = Some u \<longrightarrow> slot_thread (sv_handler u) = No_Thread
          \<and> (\<forall>sp. service_start sp u = (u, Returned True))"
    using replaced_handler_never_runs [OF s(1,2), of as_optional True 0 20 Trivial_Type ec_none] s(3) by auto
  have "slot_thread (sv_handler t) = No_Thread" using t(2) [rule_format, of "[]" t] by simp
  then show ?thesis using s(1) t(1) by (auto simp: as_optional_def)
qed

text \<open>a second \<open>make_context\<close> while the loop runs exits the context the loop runs on, then waits
  for the loop, which goes on calling libusb with that context until its references are gone.\<close>

theorem running_loop_loses_its_context:
  assumes "run service_step es service_init = Some s" "slot_thread (sv_handler s) = Running (Some c) k"
    and "service_usb_context s = Some c" "c' \<notin> sv_live s"
  shows "\<exists>t. make_context P (LIBUSB_SUCCESS, c') spawn memres blk ty var s = (t, Blocked)
    \<and> slot_thread (sv_handler t) = Running (Some c) k \<and> k \<in> sv_requested t
    \<and> c \<notin> sv_live t \<and> sv_live t = {c'}"
proof -
  have ok: "service_ok s" using assms(1) by (rule service_run_ok)
  let ?u = "s\<lparr>sv_live := {c'}, sv_usb_ctx := Some c'\<rparr>"
  have live: "sv_live s = {c}" and k: "k = sv_stop s"
    using ok assms(2,3) by (auto simp: service_ok_def service_usb_context_def)
  have u: "init_context (LIBUSB_SUCCESS, c') s = (ec_none, ?u)"
    using assms(3,4) live by (auto simp: init_context_def libusb_exit_def service_usb_context_def insert_commute)
  have valid: "any_valid (sv_handler s)" using assms(2) by (auto simp: slot_thread_def any_valid_def split: option.splits)
  have "any_stop (sv_handler ?u) = Blocked" using assms(2) by (simp add: any_stop_blocked)
  then have "emplace_handler memres blk ty ?u = (request_source ?u, Blocked)"
    using valid by (simp add: emplace_handler_def Let_def)
  then have "make_context P (LIBUSB_SUCCESS, c') spawn memres blk ty var s = (request_source ?u, Blocked)"
    by (simp add: make_context_def u make_context_rest_def emplace_and_start_def)
  then show ?thesis using assms(2,4) live k by (auto simp: request_source_def)
qed

lemma ex_running:
  "\<exists>s. run service_step [Sv_Get (0, 5) True 10] service_init = Some s \<and>
     (slot_thread (sv_handler s) = Running (Some 5) 0 \<and> sv_usb_ctx s = Some 5 \<and> sv_live s = {5})"
  unfolding service_init_def by (rule run_satD) code_simp

theorem running_loop_loses_its_context_witness:
  "\<exists>s t. run service_step [Sv_Get (0, 5) True 10] service_init = Some s
     \<and> make_context as_exception (0, 6) True 0 20 Trivial_Type ec_none s = (t, Blocked)
     \<and> slot_thread (sv_handler t) = Running (Some 5) 0 \<and> 5 \<notin> sv_live t"
proof -
  obtain s where s: "run service_step [Sv_Get (0, 5) True 10] service_init = Some s"
      "slot_thread (sv_handler s) = Running (Some 5) 0" "sv_usb_ctx s = Some 5" "sv_live s = {5}"
    using ex_running by blast
  from running_loop_loses_its_context [OF s(1,2), of 6 as_exception True 0 20 Trivial_Type ec_none] s(3,4)
  show ?thesis using s(1) by (auto simp: service_usb_context_def)
qed

end
