(* ===== verification/Partial_IO.thy ===== *)
theory Partial_IO
  imports Transfer_Stream
begin

text \<open>
  Partial I/O: \<open>transfer/detail/sequence_awaitable.hpp\<close> and the coroutine \<open>submit\<close> of
  \<open>transfer/partial_io.hpp\<close> that awaits it.  One record holds the awaitable (view, buffer
  iterator, submission size) and its \<open>await_state_t\<close>; each member function is one definition.
\<close>

section \<open>State\<close>

text \<open>
  \<open>pa_to_submit\<close> and \<open>pa_submitting\<close> are the program counter of the submission loop: the
  transfers from \<open>iter\<close> to \<open>end\<close>, and whether the loop is still running (a failed submission
  breaks out of it).  \<open>pa_self\<close> is the address of the awaitable, stored as user data.
\<close>

record partial_await = io_base +
  pa_self :: nat
  pa_view :: sequence_view
  pa_bufs :: "buffer list"
  pa_buf_current :: nat
  pa_submission_size :: nat
  pa_ec :: error_code
  pa_total :: size_t
  pa_in_flight :: size_t
  pa_to_submit :: "tid list"
  pa_submitting :: bool

definition sequence_awaitable ::
  "nat \<Rightarrow> sequence_view \<Rightarrow> buffer list \<Rightarrow> nat \<Rightarrow> tfer_store \<Rightarrow> partial_await" where
  "sequence_awaitable self v bufs n m =
     \<lparr>tfers = m, outstanding = {}, slog = [], posts = 0, stopped = False, cancels = [],
      pa_self = self, pa_view = v, pa_bufs = bufs, pa_buf_current = 0, pa_submission_size = n,
      pa_ec = ec_none, pa_total = 0, pa_in_flight = 0, pa_to_submit = [], pa_submitting = False\<rparr>"

section \<open>The completion callback\<close>

definition partial_resume_on_zero :: "partial_await \<Rightarrow> partial_await" where
  "partial_resume_on_zero s = (if pa_in_flight s = 0 then s\<lparr>posts := posts s + 1\<rparr> else s)"

text \<open>
  The loop over the packets of an isochronous transfer: it adds each packet's bytes to the total
  and returns early, with the packet's status, if the status of the transfer is not completed.
\<close>

fun partial_iso_loop :: "int \<Rightarrow> iso_packet list \<Rightarrow> size_t \<Rightarrow> size_t \<times> int option" where
  "partial_iso_loop st [] tot = (tot, None)"
| "partial_iso_loop st (p # ps) tot =
     (let tot' = tot + ucast (ip_actual_length p) in
      if st \<noteq> LIBUSB_TRANSFER_COMPLETED then (tot', Some (ip_status p))
      else partial_iso_loop st ps tot')"

definition iso_packets :: "libusb_transfer \<Rightarrow> iso_packet list" where
  "iso_packets t = take (nat (t_num_iso_packets t)) (t_iso_packet_desc t)"

definition partial_account :: "libusb_transfer \<Rightarrow> size_t \<Rightarrow> size_t \<times> int option" where
  "partial_account t tot =
     (if t_type t = LIBUSB_TRANSFER_TYPE_ISOCHRONOUS
      then partial_iso_loop (t_status t) (iso_packets t) tot
      else (tot + scast (t_actual_length t), None))"

text \<open>\<open>rc\<close> is what \<open>libusb_submit_transfer\<close> returns, if the callback gets that far.\<close>

definition partial_transfer_callback :: "tid \<Rightarrow> int \<Rightarrow> partial_await \<Rightarrow> partial_await" where
  "partial_transfer_callback x rc s0 =
     (let s = s0\<lparr>pa_in_flight := pa_in_flight s0 - 1\<rparr> in
      if ec_bool (pa_ec s) then partial_resume_on_zero s
      else
        (case partial_account (tfers s x) (pa_total s) of (tot, err) \<Rightarrow>
          let s = s\<lparr>pa_total := tot\<rparr> in
          (case err of
             Some st \<Rightarrow> partial_resume_on_zero (s\<lparr>pa_ec := make_transfer_status st\<rparr>)
           | None \<Rightarrow>
               if t_status (tfers s x) \<noteq> LIBUSB_TRANSFER_COMPLETED
               then partial_resume_on_zero
                      (s\<lparr>pa_ec := make_transfer_status (t_status (tfers s x))\<rparr>)
               else if pa_buf_current s = length (pa_bufs s) then partial_resume_on_zero s
               else
                 let buf = pa_bufs s ! pa_buf_current s;
                     s = s\<lparr>pa_buf_current := pa_buf_current s + 1,
                           tfers := (tfers s)(x := (tfers s x)\<lparr>t_buffer := buf_data buf,
                             t_length := ucast (buf_size buf)\<rparr>)\<rparr>
                 in if rc \<noteq> LIBUSB_SUCCESS
                    then partial_resume_on_zero (s\<lparr>pa_ec := make_usb_error_code rc\<rparr>)
                    else (libusb_accept x s)\<lparr>pa_in_flight := pa_in_flight s + 1\<rparr>)))"

section \<open>Awaiting\<close>

definition partial_await_ready :: "partial_await \<Rightarrow> bool" where
  "partial_await_ready s \<longleftrightarrow> pa_buf_current s \<ge> length (pa_bufs s)"

text \<open>The first loop of \<open>await_suspend\<close>; \<open>None\<close>: \<open>*buf_current\<close> past the last buffer.\<close>

fun partial_fill :: "tid list \<Rightarrow> partial_await \<Rightarrow> partial_await option" where
  "partial_fill [] s = Some s"
| "partial_fill (x # xs) s =
     (if pa_buf_current s < length (pa_bufs s) then
        let buf = pa_bufs s ! pa_buf_current s in
        partial_fill xs
          (s\<lparr>pa_buf_current := pa_buf_current s + 1,
             tfers := (tfers s)(x := (tfers s x)\<lparr>t_buffer := buf_data buf,
               t_length := ucast (buf_size buf), t_user_data := Some (pa_self s),
               t_callback := Some Partial_Callback\<rparr>)\<rparr>)
      else None)"

definition partial_await_suspend :: "bool \<Rightarrow> partial_await \<Rightarrow> partial_await suspension option" where
  "partial_await_suspend stop_requested s =
     (if stop_requested
      then Some (Not_Suspended (s\<lparr>pa_ec := make_transfer_status (status_value St_cancelled)\<rparr>))
      else
        (case iter_tids (sv_array (pa_view s)) (view_begin (pa_view s))
                (view_end (pa_view s) + pa_submission_size s) of
           None \<Rightarrow> None
         | Some xs \<Rightarrow>
             map_option (\<lambda>s. Suspended (s\<lparr>pa_in_flight := of_nat (pa_submission_size s),
                                          pa_to_submit := xs, pa_submitting := True\<rparr>))
               (partial_fill xs s)))"

definition partial_await_resume :: "partial_await \<Rightarrow> error_code \<times> size_t" where
  "partial_await_resume s = (pa_ec s, pa_total s)"

text \<open>The stop callback of \<open>submit\<close>: \<open>cancel_transfer\<close> on each transfer used.\<close>

definition partial_stop :: "partial_await \<Rightarrow> partial_await option" where
  "partial_stop s =
     map_option (\<lambda>xs. s\<lparr>stopped := True, cancels := cancels s @ xs\<rparr>)
       (iter_tids (sv_array (pa_view s)) (view_begin (pa_view s))
          (view_begin (pa_view s) + transfers_used (pa_bufs s) (pa_view s)))"

text \<open>
  \<open>partial_io_base::submit\<close> up to its suspension: the number of transfers used
  (\<open>transfers_used\<close>) is the smaller of the number of buffers and the size of the view; if stop was
  requested before, the stop callback runs as it is registered.
\<close>

definition partial_submit ::
  "bool \<Rightarrow> nat \<Rightarrow> sequence_view \<Rightarrow> buffer list \<Rightarrow> tfer_store \<Rightarrow> partial_await suspension option" where
  "partial_submit stop_requested self v bufs m =
     (let s0 = sequence_awaitable self v bufs (transfers_used bufs v) m in
      (case (if stop_requested then partial_stop s0 else Some s0) of
         None \<Rightarrow> None
       | Some s \<Rightarrow>
           if partial_await_ready s then Some (Not_Suspended s)
           else partial_await_suspend stop_requested s))"

section \<open>The machine\<close>

fun partial_step :: "io_event \<Rightarrow> partial_await \<Rightarrow> partial_await option" where
  "partial_step (Submit rc) s =
     (case pa_to_submit s of
        [] \<Rightarrow> None
      | x # xs \<Rightarrow>
          if \<not> pa_submitting s then None
          else if rc \<noteq> LIBUSB_SUCCESS
          then Some (s\<lparr>pa_ec := make_transfer_status rc, pa_submitting := False\<rparr>)
          else Some ((libusb_accept x s)\<lparr>pa_to_submit := xs\<rparr>))"
| "partial_step (Complete x c rc) s =
     (if x \<in> outstanding s
      then Some (partial_transfer_callback x rc (libusb_complete x c s)) else None)"
| "partial_step Stop s = (if stopped s then None else partial_stop s)"

section \<open>The stream interface\<close>

lemma partial_resume_simps [simp]:
  "pa_to_submit (partial_resume_on_zero s) = pa_to_submit s"
  "pa_submitting (partial_resume_on_zero s) = pa_submitting s"
  "pa_in_flight (partial_resume_on_zero s) = pa_in_flight s"
  "pa_ec (partial_resume_on_zero s) = pa_ec s"
  "pa_total (partial_resume_on_zero s) = pa_total s"
  "pa_buf_current (partial_resume_on_zero s) = pa_buf_current s"
  "pa_bufs (partial_resume_on_zero s) = pa_bufs s"
  "pa_view (partial_resume_on_zero s) = pa_view s"
  "pa_self (partial_resume_on_zero s) = pa_self s"
  "outstanding (partial_resume_on_zero s) = outstanding s"
  "tfers (partial_resume_on_zero s) = tfers s"
  "slog (partial_resume_on_zero s) = slog s"
  "stopped (partial_resume_on_zero s) = stopped s"
  "cancels (partial_resume_on_zero s) = cancels s"
  "posts (partial_resume_on_zero s) = posts s + (if pa_in_flight s = 0 then 1 else 0)"
  by (simp_all add: partial_resume_on_zero_def)

lemma partial_libusb_simps [simp]:
  "pa_to_submit (libusb_accept x s) = pa_to_submit s"
  "pa_submitting (libusb_accept x s) = pa_submitting s"
  "pa_in_flight (libusb_accept x s) = pa_in_flight s"
  "pa_ec (libusb_accept x s) = pa_ec s"
  "pa_total (libusb_accept x s) = pa_total s"
  "pa_buf_current (libusb_accept x s) = pa_buf_current s"
  "pa_bufs (libusb_accept x s) = pa_bufs s"
  "pa_view (libusb_accept x s) = pa_view s"
  "pa_self (libusb_accept x s) = pa_self s"
  "pa_to_submit (libusb_complete x c s) = pa_to_submit s"
  "pa_submitting (libusb_complete x c s) = pa_submitting s"
  "pa_in_flight (libusb_complete x c s) = pa_in_flight s"
  "pa_ec (libusb_complete x c s) = pa_ec s"
  "pa_total (libusb_complete x c s) = pa_total s"
  "pa_buf_current (libusb_complete x c s) = pa_buf_current s"
  "pa_bufs (libusb_complete x c s) = pa_bufs s"
  "pa_view (libusb_complete x c s) = pa_view s"
  "pa_self (libusb_complete x c s) = pa_self s"
  by (simp_all add: libusb_accept_def libusb_complete_def)

lemmas partial_callback_unfold = partial_transfer_callback_def Let_def

lemma partial_callback_law:
  fixes s :: partial_await and c :: completion and rc :: int
  assumes "x \<in> outstanding s"
  defines "t \<equiv> partial_transfer_callback x rc (libusb_complete x c s)"
  shows "pa_to_submit t = pa_to_submit s \<and> pa_submitting t = pa_submitting s
    \<and> (outstanding t = outstanding s \<and> pa_in_flight t = pa_in_flight s \<and> posts t = posts s
       \<or> outstanding t = outstanding s - {x} \<and> pa_in_flight t = pa_in_flight s - 1
         \<and> posts t = posts s + (if pa_in_flight t = 0 then 1 else 0))"
  using assms(1) unfolding t_def partial_callback_unfold
  by (auto split: prod.splits option.splits)

definition partial_iterator_ok :: "partial_await \<Rightarrow> bool" where
  "partial_iterator_ok s \<longleftrightarrow> pa_buf_current s \<le> length (pa_bufs s)"

lemma partial_callback_iterator:
  "pa_buf_current s \<le> length (pa_bufs s) \<Longrightarrow>
   pa_buf_current (partial_transfer_callback x rc s)
     \<le> length (pa_bufs (partial_transfer_callback x rc s))"
  unfolding partial_callback_unfold by (auto split: prod.splits option.splits)

lemma partial_step_iterator:
  "partial_iterator_ok s \<Longrightarrow> partial_step e s = Some t \<Longrightarrow> partial_iterator_ok t"
  by (cases e) (auto simp: partial_iterator_ok_def partial_stop_def partial_callback_iterator
      split: list.splits if_splits)

interpretation partial_stream:
  transfer_stream partial_step partial_iterator_ok pa_in_flight pa_to_submit pa_submitting
proof (unfold_locales, goal_cases)
  case (1 s e t)
  then show ?case by (rule partial_step_iterator)
next
  case (2 s rc t)
  then show ?case by (auto split: list.splits if_splits)
next
  case (3 s x c rc t)
  then have x: "x \<in> outstanding s"
    and t: "t = partial_transfer_callback x rc (libusb_complete x c s)"
    by (auto split: if_splits)
  show ?case unfolding t using partial_callback_law [OF x] x by blast
next
  case (4 s t)
  then show ?case by (auto simp: partial_stop_def split: if_splits)
next
  case (5 s rc)
  then show ?case by (auto split: list.splits)
next
  case (6 s x c rc)
  then show ?case by simp
qed

section \<open>Starting\<close>

text \<open>What the first loop of \<open>await_suspend\<close> does to one transfer.\<close>

definition partial_prepare :: "nat \<Rightarrow> buffer \<Rightarrow> libusb_transfer \<Rightarrow> libusb_transfer" where
  "partial_prepare self b t = t\<lparr>t_buffer := buf_data b, t_length := ucast (buf_size b),
     t_user_data := Some self, t_callback := Some Partial_Callback\<rparr>"

lemma partial_prepare_simps [simp]:
  "window (partial_prepare self b t) = buf_window b"
  "t_user_data (partial_prepare self b t) = Some self"
  "t_callback (partial_prepare self b t) = Some Partial_Callback"
  "t_type (partial_prepare self b t) = t_type t"
  "t_num_iso_packets (partial_prepare self b t) = t_num_iso_packets t"
  by (simp_all add: partial_prepare_def window_def buf_window_def)

lemma partial_fill_eq:
  "pa_buf_current s + length xs \<le> length (pa_bufs s) \<Longrightarrow>
   partial_fill xs s = Some (s\<lparr>pa_buf_current := pa_buf_current s + length xs,
     tfers := prepare_all (partial_prepare (pa_self s)) xs (drop (pa_buf_current s) (pa_bufs s)) (tfers s)\<rparr>)"
proof (induction xs arbitrary: s)
  case Nil
  then show ?case by simp
next
  case (Cons x xs)
  let ?b = "pa_bufs s ! pa_buf_current s"
  let ?s = "s\<lparr>pa_buf_current := pa_buf_current s + 1,
              tfers := (tfers s)(x := partial_prepare (pa_self s) ?b (tfers s x))\<rparr>"
  have "drop (pa_buf_current s) (pa_bufs s) = ?b # drop (pa_buf_current s + 1) (pa_bufs s)"
    using Cons.prems by (simp add: Cons_nth_drop_Suc)
  moreover have "partial_fill (x # xs) s = partial_fill xs ?s"
    using Cons.prems by (simp add: Let_def partial_prepare_def)
  moreover have "pa_buf_current ?s + length xs \<le> length (pa_bufs ?s)" using Cons.prems by simp
  ultimately show ?case using Cons.IH [of ?s] by (simp add: fun_upd_def)
qed

lemma prepared_windows:
  assumes "distinct xs" "length xs \<le> length bs"
  shows "map (\<lambda>x. window (prepare_all (partial_prepare self) xs bs m x)) xs =
    map buf_window (take (length xs) bs)"
  by (rule nth_equalityI) (use assms in \<open>simp_all add: prepare_all_nth\<close>)

lemma prepared_owned:
  assumes "x \<in> set xs" "distinct xs" "length xs \<le> length bs"
  shows "t_user_data (prepare_all (partial_prepare self) xs bs m x) = Some self
   \<and> t_callback (prepare_all (partial_prepare self) xs bs m x) = Some Partial_Callback"
  using prepare_all_in [OF assms, of "partial_prepare self" m] by (auto simp: partial_prepare_def)

lemma prepared_type:
  "t_type (prepare_all (partial_prepare self) xs bs m x) = t_type (m x)
   \<and> t_num_iso_packets (prepare_all (partial_prepare self) xs bs m x) = t_num_iso_packets (m x)"
  by (induction "partial_prepare self" xs bs m rule: prepare_all.induct) (auto simp: fun_upd_def)

text \<open>The state in which the coroutine is suspended, for any view and buffers it may be given.\<close>

definition partial_start :: "nat \<Rightarrow> sequence_view \<Rightarrow> buffer list \<Rightarrow> tfer_store \<Rightarrow> partial_await" where
  "partial_start self v bufs m =
     (let n = transfers_used bufs v; xs = used_tids bufs v in
      (sequence_awaitable self v bufs n m)
        \<lparr>tfers := prepare_all (partial_prepare self) xs bufs m, pa_buf_current := n, pa_in_flight := of_nat n,
         pa_to_submit := xs, pa_submitting := True\<rparr>)"

definition partial_stopped_start ::
  "nat \<Rightarrow> sequence_view \<Rightarrow> buffer list \<Rightarrow> tfer_store \<Rightarrow> partial_await" where
  "partial_stopped_start self v bufs m =
     (sequence_awaitable self v bufs (transfers_used bufs v) m)
       \<lparr>stopped := True, cancels := used_tids bufs v\<rparr>"

lemma partial_submit_eq:
  assumes "view_ok v"
  shows "partial_submit stop self v bufs m =
    Some (if stop then Not_Suspended
            (if bufs = [] then partial_stopped_start self v bufs m
             else (partial_stopped_start self v bufs m)
                \<lparr>pa_ec := make_transfer_status (status_value St_cancelled)\<rparr>)
          else if bufs = [] then Not_Suspended (sequence_awaitable self v bufs 0 m)
          else Suspended (partial_start self v bufs m))"
proof -
  let ?n = "transfers_used bufs v"
  let ?s = "sequence_awaitable self v bufs ?n m"
  have n: "?n \<le> length bufs" by (simp add: transfers_used_def)
  have fill: "partial_fill (used_tids bufs v) ?s =
      Some (?s\<lparr>pa_buf_current := ?n, tfers := prepare_all (partial_prepare self) (used_tids bufs v) bufs m\<rparr>)"
    using partial_fill_eq [of ?s "used_tids bufs v"] n
    by (simp add: sequence_awaitable_def length_used_tids [OF assms])
  have suspend: "partial_await_suspend False ?s = Some (Suspended (partial_start self v bufs m))"
    using fill used_tids_loop [OF assms, of bufs]
    by (simp add: partial_await_suspend_def partial_start_def Let_def sequence_awaitable_def)
  have stop: "partial_stop ?s = Some (partial_stopped_start self v bufs m)"
    using used_tids_loop' [OF assms, of bufs]
    by (simp add: partial_stop_def partial_stopped_start_def sequence_awaitable_def)
  have ready: "partial_await_ready ?s \<longleftrightarrow> bufs = []"
    and ready': "partial_await_ready (partial_stopped_start self v bufs m) \<longleftrightarrow> bufs = []"
    by (simp_all add: partial_await_ready_def sequence_awaitable_def partial_stopped_start_def)
  show ?thesis
    using suspend stop ready ready' by (auto simp: partial_submit_def Let_def
        partial_await_suspend_def transfers_used_def)
qed

lemma partial_submit_Suspended:
  "view_ok v \<Longrightarrow> partial_submit stop self v bufs m = Some (Suspended s) \<longleftrightarrow>
     bufs \<noteq> [] \<and> \<not> stop \<and> s = partial_start self v bufs m"
  by (auto simp: partial_submit_eq)

lemma partial_start_simps [simp]:
  "pa_self (partial_start self v bufs m) = self"
  "pa_view (partial_start self v bufs m) = v"
  "pa_bufs (partial_start self v bufs m) = bufs"
  "pa_buf_current (partial_start self v bufs m) = transfers_used bufs v"
  "pa_ec (partial_start self v bufs m) = ec_none"
  "pa_total (partial_start self v bufs m) = 0"
  "pa_in_flight (partial_start self v bufs m) = of_nat (transfers_used bufs v)"
  "pa_to_submit (partial_start self v bufs m) = used_tids bufs v"
  "pa_submitting (partial_start self v bufs m)"
  "outstanding (partial_start self v bufs m) = {}"
  "log_windows (partial_start self v bufs m) = []"
  "posts (partial_start self v bufs m) = 0"
  "stopped (partial_start self v bufs m) = False"
  "tfers (partial_start self v bufs m) = prepare_all (partial_prepare self) (used_tids bufs v) bufs m"
  by (simp_all add: partial_start_def sequence_awaitable_def Let_def log_windows_def)

lemma partial_start_latch:
  assumes "view_ok v" "bufs \<noteq> []" "0 < view_size v"
  shows "partial_stream.latch (partial_start self v bufs m)"
proof -
  have "unat (of_nat (transfers_used bufs v) :: size_t) = transfers_used bufs v"
    using assms(1) by (rule unat_transfers_used)
  moreover have "0 < transfers_used bufs v" using assms by (simp add: transfers_used_def)
  ultimately have "(of_nat (transfers_used bufs v) :: size_t) \<noteq> 0" by (metis less_nat_zero_code unat_0)
  then show ?thesis
    using assms by (simp add: partial_stream.latch_def distinct_used_tids length_used_tids
        unat_transfers_used partial_iterator_ok_def used_le_length)
qed

section \<open>Invariants\<close>

abbreviation partial_after :: "tid \<Rightarrow> completion \<Rightarrow> int \<Rightarrow> partial_await \<Rightarrow> partial_await" where
  "partial_after x c rc s \<equiv> partial_transfer_callback x rc (libusb_complete x c s)"

lemma partial_after_frame:
  "pa_view (partial_after x c rc s) = pa_view s"
  "pa_bufs (partial_after x c rc s) = pa_bufs s"
  "pa_self (partial_after x c rc s) = pa_self s"
  "pa_to_submit (partial_after x c rc s) = pa_to_submit s"
  "stopped (partial_after x c rc s) = stopped s"
  "y \<noteq> x \<Longrightarrow> tfers (partial_after x c rc s) y = tfers s y"
  "t_type (tfers (partial_after x c rc s) y) = t_type (tfers s y)"
  "t_num_iso_packets (tfers (partial_after x c rc s) y) = t_num_iso_packets (tfers s y)"
  "t_callback (tfers (partial_after x c rc s) y) = t_callback (tfers s y)"
  "t_user_data (tfers (partial_after x c rc s) y) = t_user_data (tfers s y)"
  unfolding partial_callback_unfold
  by (cases "y = x"; auto split: prod.splits option.splits)+

lemma partial_stop_frame:
  "partial_stop s = Some t \<Longrightarrow> \<exists>xs. t = s\<lparr>stopped := True, cancels := xs\<rparr>"
  by (auto simp: partial_stop_def)

text \<open>The buffer iterator never passes the end, and every transfer libusb may complete calls this
  awaitable's callback.\<close>

definition partial_wf :: "partial_await \<Rightarrow> bool" where
  "partial_wf s \<longleftrightarrow> partial_stream.latch s \<and> pa_buf_current s \<le> length (pa_bufs s)
     \<and> outstanding s \<union> set (pa_to_submit s) \<subseteq> set (used_tids (pa_bufs s) (pa_view s))
     \<and> (\<forall>x \<in> set (used_tids (pa_bufs s) (pa_view s)).
          t_callback (tfers s x) = Some Partial_Callback
          \<and> t_user_data (tfers s x) = Some (pa_self s))"

lemma partial_after_cur:
  "pa_buf_current s \<le> length (pa_bufs s) \<Longrightarrow>
   pa_buf_current (partial_after x c rc s) \<le> length (pa_bufs s)"
  unfolding partial_callback_unfold by (auto split: prod.splits option.splits)

lemma partial_after_outstanding:
  "x \<in> outstanding s \<Longrightarrow> outstanding (partial_after x c rc s) \<subseteq> outstanding s"
  using partial_callback_law [of x s rc c] by auto

lemma partial_step_wf:
  assumes wf: "partial_wf s" and st: "partial_step e s = Some t"
  shows "partial_wf t"
proof -
  have l: "partial_stream.latch t"
    using wf st partial_stream.latch_step by (auto simp: partial_wf_def)
  show ?thesis
  proof (cases e)
    case (Submit rc)
    then show ?thesis using st wf l by (auto simp: partial_wf_def split: list.splits if_splits)
  next
    case (Complete x c rc)
    then have x: "x \<in> outstanding s" and t: "t = partial_after x c rc s"
      using st by (auto split: if_splits)
    show ?thesis
      using wf l partial_after_outstanding [OF x, of rc c]
      by (auto simp: partial_wf_def t partial_after_frame partial_after_cur)
  next
    case Stop
    then obtain xs where "t = s\<lparr>stopped := True, cancels := xs\<rparr>"
      using st partial_stop_frame by (auto split: if_splits)
    then show ?thesis using wf l by (simp add: partial_wf_def)
  qed
qed

lemma partial_start_wf:
  assumes "view_ok v" "bufs \<noteq> []" "0 < view_size v"
  shows "partial_wf (partial_start self v bufs m)"
  using partial_start_latch [OF assms] prepared_owned [OF _ distinct_used_tids [OF assms(1)]]
  by (simp add: partial_wf_def length_used_tids [OF assms(1)])

text \<open>Steps left: two per transfer still to be submitted, one per buffer not handed out yet, one
  per outstanding transfer, one for the stop callback, one for leaving the loop.\<close>

definition partial_budget :: "partial_await \<Rightarrow> nat" where
  "partial_budget s = 2 * length (pa_to_submit s) + (length (pa_bufs s) - pa_buf_current s)
     + card (outstanding s) + (if stopped s then 0 else 1) + (if pa_submitting s then 1 else 0)"

lemma partial_after_iterator:
  assumes "x \<in> outstanding s" "pa_buf_current s \<le> length (pa_bufs s)"
  shows "pa_buf_current s \<le> pa_buf_current (partial_after x c rc s)
    \<and> pa_submitting (partial_after x c rc s) = pa_submitting s
    \<and> (outstanding (partial_after x c rc s) = outstanding s - {x}
       \<or> outstanding (partial_after x c rc s) = outstanding s
         \<and> pa_buf_current (partial_after x c rc s) = pa_buf_current s + 1)"
  using assms unfolding partial_callback_unfold by (auto split: prod.splits option.splits)

lemma partial_after_budget:
  assumes "partial_wf s" "x \<in> outstanding s"
  shows "partial_budget (partial_after x c rc s) < partial_budget s"
proof -
  let ?t = "partial_after x c rc s"
  have fin: "finite (outstanding s)" and cur: "pa_buf_current s \<le> length (pa_bufs s)"
    using assms(1) by (simp_all add: partial_wf_def partial_stream.latch_def)
  have card: "card (outstanding s) = Suc (card (outstanding s - {x}))"
    using assms(2) fin by (metis card_Suc_Diff1)
  have bound: "pa_buf_current ?t \<le> length (pa_bufs s)" using cur by (rule partial_after_cur)
  from partial_after_iterator [OF assms(2) cur, of rc c]
  consider "outstanding ?t = outstanding s - {x}" "pa_buf_current s \<le> pa_buf_current ?t"
      "pa_submitting ?t = pa_submitting s"
    | "outstanding ?t = outstanding s" "pa_buf_current ?t = pa_buf_current s + 1"
      "pa_submitting ?t = pa_submitting s" by blast
  then show ?thesis
    by cases (use bound card in \<open>simp_all add: partial_budget_def partial_after_frame
        del: card_Diff_insert card_Diff_singleton\<close>)
qed

interpretation partial_bounded: bounded_machine partial_step partial_wf partial_budget
proof (unfold_locales, goal_cases)
  case (1 s e t)
  then show ?case by (rule partial_step_wf)
next
  case (2 s e t)
  show ?case
  proof (cases e)
    case (Submit rc)
    then obtain x xs where "pa_to_submit s = x # xs" "x \<notin> outstanding s" "finite (outstanding s)"
      using 2 by (auto simp: partial_wf_def partial_stream.latch_def split: list.splits)
    then show ?thesis using 2 Submit by (auto simp: partial_budget_def split: if_splits)
  next
    case (Complete x c rc)
    then show ?thesis using 2 partial_after_budget by (auto split: if_splits)
  next
    case Stop
    then obtain xs where "t = s\<lparr>stopped := True, cancels := xs\<rparr>" "\<not> stopped s"
      using 2 partial_stop_frame by (auto split: if_splits)
    then show ?thesis by (simp add: partial_budget_def)
  qed
qed

section \<open>Data: buffers, bytes, errors\<close>

definition partial_no_iso :: "partial_await \<Rightarrow> bool" where
  "partial_no_iso s \<longleftrightarrow>
     (\<forall>x \<in> set (used_tids (pa_bufs s) (pa_view s)).
        t_type (tfers s x) \<noteq> LIBUSB_TRANSFER_TYPE_ISOCHRONOUS)"

text \<open>
  While no error is recorded: the windows submitted so far and those set up for the submission
  loop are exactly the buffers taken from the sequence; and either every buffer has been taken or
  every transfer is still in use.
\<close>

definition partial_data :: "partial_await \<Rightarrow> bool" where
  "partial_data s \<longleftrightarrow> partial_no_iso s \<and>
     (\<not> ec_bool (pa_ec s) \<longrightarrow>
       mset (log_windows s) + mset (map (\<lambda>x. window (tfers s x)) (pa_to_submit s))
         = mset (map buf_window (take (pa_buf_current s) (pa_bufs s)))
       \<and> (pa_buf_current s = length (pa_bufs s)
          \<or> outstanding s \<union> set (pa_to_submit s) = set (used_tids (pa_bufs s) (pa_view s))))"

lemma partial_after_no_iso: "partial_no_iso s \<Longrightarrow> partial_no_iso (partial_after x c rc s)"
  by (simp add: partial_no_iso_def partial_after_frame)

text \<open>What one callback does to a transfer that is not isochronous, when no error comes of it.\<close>

lemma partial_after_clean:
  assumes "t_type (tfers s x) \<noteq> LIBUSB_TRANSFER_TYPE_ISOCHRONOUS"
    and "\<not> ec_bool (pa_ec (partial_after x c rc s))" and "x \<in> outstanding s"
  shows "\<not> ec_bool (pa_ec s) \<and> c_status c = LIBUSB_TRANSFER_COMPLETED
    \<and> pa_total (partial_after x c rc s) = pa_total s + scast (c_actual_length c)
    \<and> (pa_buf_current s = length (pa_bufs s)
         \<and> pa_buf_current (partial_after x c rc s) = pa_buf_current s
         \<and> outstanding (partial_after x c rc s) = outstanding s - {x}
         \<and> log_windows (partial_after x c rc s) = log_windows s
       \<or> pa_buf_current s \<noteq> length (pa_bufs s)
         \<and> pa_buf_current (partial_after x c rc s) = pa_buf_current s + 1
         \<and> outstanding (partial_after x c rc s) = outstanding s
         \<and> log_windows (partial_after x c rc s) =
             log_windows s @ [buf_window (pa_bufs s ! pa_buf_current s)])"
  using assms unfolding partial_callback_unfold
  by (auto simp: partial_account_def log_windows_def libusb_complete_def libusb_accept_def
      window_def buf_window_def partial_resume_on_zero_def
      split: prod.splits option.splits if_splits)

lemma partial_after_data:
  assumes wf: "partial_wf s" and d: "partial_data s" and x: "x \<in> outstanding s"
  shows "partial_data (partial_after x c rc s)"
proof (cases "ec_bool (pa_ec (partial_after x c rc s))")
  case True
  then show ?thesis using d partial_after_no_iso by (auto simp: partial_data_def)
next
  case False
  let ?t = "partial_after x c rc s"
  have used: "x \<in> set (used_tids (pa_bufs s) (pa_view s))" and disj: "x \<notin> set (pa_to_submit s)"
    and cur: "pa_buf_current s \<le> length (pa_bufs s)"
    using wf x by (auto simp: partial_wf_def partial_stream.latch_def)
  then have ty: "t_type (tfers s x) \<noteq> LIBUSB_TRANSFER_TYPE_ISOCHRONOUS"
    using d by (auto simp: partial_data_def partial_no_iso_def)
  have keep: "map (\<lambda>y. window (tfers ?t y)) (pa_to_submit s) =
      map (\<lambda>y. window (tfers s y)) (pa_to_submit s)"
    using disj by (intro map_cong refl) (metis partial_after_frame(6))
  have iso: "partial_no_iso ?t" using d partial_after_no_iso by (simp add: partial_data_def)
  have old: "mset (log_windows s) + mset (map (\<lambda>y. window (tfers s y)) (pa_to_submit s)) =
      mset (map buf_window (take (pa_buf_current s) (pa_bufs s)))"
    and all: "pa_buf_current s = length (pa_bufs s)
      \<or> outstanding s \<union> set (pa_to_submit s) = set (used_tids (pa_bufs s) (pa_view s))"
    using partial_after_clean [OF ty False x] d by (simp_all add: partial_data_def)
  consider (last) "pa_buf_current s = length (pa_bufs s)" "pa_buf_current ?t = pa_buf_current s"
      "log_windows ?t = log_windows s"
    | (more) "pa_buf_current s < length (pa_bufs s)" "pa_buf_current ?t = Suc (pa_buf_current s)"
      "outstanding ?t = outstanding s"
      "log_windows ?t = log_windows s @ [buf_window (pa_bufs s ! pa_buf_current s)]"
    using partial_after_clean [OF ty False x] cur by force
  then show ?thesis
  proof cases
    case last
    then show ?thesis using old iso keep
      by (simp only: partial_data_def partial_after_frame(1-4)) simp
  next
    case more
    then show ?thesis using old all iso keep
      by (simp only: partial_data_def partial_after_frame(1-4)) (simp add: take_Suc_conv_app_nth)
  qed
qed

lemma partial_step_data:
  assumes wf: "partial_wf s" and d: "partial_data s" and st: "partial_step e s = Some t"
  shows "partial_data t"
proof (cases e)
  case (Submit rc)
  show ?thesis
  proof (cases "rc = LIBUSB_SUCCESS")
    case True
    then obtain x xs where "pa_to_submit s = x # xs" "t = (libusb_accept x s)\<lparr>pa_to_submit := xs\<rparr>"
      using st Submit by (auto split: list.splits if_splits)
    then show ?thesis using d by (auto simp: partial_data_def partial_no_iso_def log_windows_def
          libusb_accept_def window_def)
  next
    case False
    then show ?thesis using st Submit d
      by (auto simp: partial_data_def partial_no_iso_def split: list.splits if_splits)
  qed
next
  case (Complete x c rc)
  then show ?thesis using st partial_after_data [OF wf d] by (auto split: if_splits)
next
  case Stop
  then obtain xs where "t = s\<lparr>stopped := True, cancels := xs\<rparr>"
    using st partial_stop_frame by (auto split: if_splits)
  then show ?thesis using d by (simp add: partial_data_def partial_no_iso_def log_windows_def)
qed

interpretation partial_data_machine: machine partial_step "\<lambda>s. partial_wf s \<and> partial_data s"
  by unfold_locales (blast intro: partial_step_wf partial_step_data)

lemma partial_start_data:
  assumes "view_ok v"
    and "\<And>x. x \<in> set (sv_array v) \<Longrightarrow> t_type (m x) \<noteq> LIBUSB_TRANSFER_TYPE_ISOCHRONOUS"
  shows "partial_data (partial_start self v bufs m)"
proof -
  have "length (used_tids bufs v) \<le> length bufs"
    by (simp add: length_used_tids [OF assms(1)] transfers_used_def)
  then have w: "map (\<lambda>x. window (prepare_all (partial_prepare self) (used_tids bufs v) bufs m x)) (used_tids bufs v) =
      map buf_window (take (transfers_used bufs v) bufs)"
    using prepared_windows [OF distinct_used_tids [OF assms(1)]]
    by (simp add: length_used_tids [OF assms(1)])
  have "x \<in> set (used_tids bufs v) \<Longrightarrow> x \<in> set (sv_array v)" for x
    unfolding used_tids_def by (meson in_set_dropD in_set_takeD)
  then show ?thesis
    using assms(2) w by (auto simp: partial_data_def partial_no_iso_def prepared_type)
qed

lemma partial_run_frame:
  "run partial_step es s = Some t \<Longrightarrow> pa_view t = pa_view s \<and> pa_bufs t = pa_bufs s"
proof (induction rule: run_induct)
  case (Cons e es s u t)
  from Cons(1) have "pa_view u = pa_view s \<and> pa_bufs u = pa_bufs s"
    by (cases e) (auto simp: partial_after_frame partial_stop_def split: list.splits if_splits)
  then show ?case using Cons(3) by simp
qed simp

text \<open>Bytes: while the error code stays clear, the total is the sum of what libusb reported.\<close>

lemma partial_step_bytes:
  assumes "partial_wf s" "partial_data s" "partial_step e s = Some t" "\<not> ec_bool (pa_ec t)"
  shows "\<not> ec_bool (pa_ec s) \<and> event_completed e \<and> pa_total t = pa_total s + event_bytes e"
proof (cases e)
  case (Submit rc)
  then show ?thesis using assms by (auto split: list.splits if_splits)
next
  case (Complete x c rc)
  then have x: "x \<in> outstanding s" and t: "t = partial_after x c rc s"
    using assms(3) by (auto split: if_splits)
  then have ty: "t_type (tfers s x) \<noteq> LIBUSB_TRANSFER_TYPE_ISOCHRONOUS"
    using assms(1,2) by (auto simp: partial_wf_def partial_data_def partial_no_iso_def)
  show ?thesis
    using partial_after_clean [OF ty assms(4) [unfolded t] x] by (simp add: Complete t)
next
  case Stop
  then obtain xs where "t = s\<lparr>stopped := True, cancels := xs\<rparr>"
    using assms(3) partial_stop_frame by (auto split: if_splits)
  then show ?thesis using assms(4) Stop by simp
qed

lemma partial_run_bytes:
  "run partial_step es s = Some t \<Longrightarrow> partial_wf s \<Longrightarrow> partial_data s \<Longrightarrow> \<not> ec_bool (pa_ec t) \<Longrightarrow>
   \<not> ec_bool (pa_ec s) \<and> list_all event_completed es \<and> pa_total t = pa_total s + run_bytes es"
proof (induction rule: run_induct)
  case (Cons e es s u t)
  have "partial_wf u" "partial_data u"
    using Cons(1) Cons.prems partial_step_wf partial_step_data by blast+
  then show ?case
    using partial_step_bytes [OF Cons.prems(1,2) Cons(1)] Cons.IH Cons.prems(3) by (simp add: run_bytes_def)
qed (simp add: run_bytes_def)

text \<open>Errors: once recorded, nothing more is taken from the buffers and no byte is counted.\<close>

lemma partial_step_error:
  assumes "ec_bool (pa_ec s)" "partial_step e s = Some t"
  shows "ec_bool (pa_ec t) \<and> pa_total t = pa_total s \<and> pa_buf_current t = pa_buf_current s
    \<and> (submit_ok e \<longrightarrow> pa_ec t = pa_ec s)
    \<and> (\<exists>k. map fst (slog t) = map fst (slog s) @ take k (pa_to_submit s) \<and> pa_to_submit t = drop k (pa_to_submit s)
          \<and> (\<not> pa_submitting s \<longrightarrow> k = 0 \<and> \<not> pa_submitting t))"
proof -
  have zero: "\<exists>k. map fst (slog t) = map fst (slog s) @ take k (pa_to_submit s) \<and> pa_to_submit t = drop k (pa_to_submit s)
      \<and> (\<not> pa_submitting s \<longrightarrow> k = 0 \<and> \<not> pa_submitting t)"
    if "slog t = slog s" "pa_to_submit t = pa_to_submit s" "pa_submitting t \<longrightarrow> pa_submitting s"
    using that by (intro exI [of _ 0]) auto
  show ?thesis
  proof (cases e)
    case (Submit rc)
    then obtain x xs where x: "pa_to_submit s = x # xs" "pa_submitting s" using assms(2) by (auto split: list.splits if_splits)
    show ?thesis
    proof (cases "rc = LIBUSB_SUCCESS")
      case True
      then have t: "t = (libusb_accept x s)\<lparr>pa_to_submit := xs\<rparr>" using assms(2) x Submit by simp
      show ?thesis using assms(1) x by (auto simp: t libusb_accept_def window_def intro!: exI [of _ 1])
    next
      case False
      then show ?thesis using assms x Submit zero by auto
    qed
  next
    case (Complete x c rc)
    then show ?thesis using assms zero
      by (auto simp: partial_callback_unfold libusb_complete_def split: if_splits)
  next
    case Stop
    then show ?thesis using assms zero by (auto simp: partial_stop_def split: if_splits)
  qed
qed

lemma partial_run_error:
  "run partial_step es s = Some t \<Longrightarrow> ec_bool (pa_ec s) \<Longrightarrow>
   ec_bool (pa_ec t) \<and> pa_total t = pa_total s \<and> pa_buf_current t = pa_buf_current s
   \<and> (list_all submit_ok es \<longrightarrow> pa_ec t = pa_ec s)
   \<and> (\<exists>k. map fst (slog t) = map fst (slog s) @ take k (pa_to_submit s) \<and> pa_to_submit t = drop k (pa_to_submit s)
         \<and> (\<not> pa_submitting s \<longrightarrow> k = 0 \<and> \<not> pa_submitting t))"
proof (induction rule: run_induct)
  case (Cons e es s u t)
  note step = partial_step_error [OF Cons.prems(1) Cons(1)]
  obtain k where k: "map fst (slog u) = map fst (slog s) @ take k (pa_to_submit s)" "pa_to_submit u = drop k (pa_to_submit s)"
      "\<not> pa_submitting s \<longrightarrow> k = 0 \<and> \<not> pa_submitting u" using step by blast
  obtain j where j: "map fst (slog t) = map fst (slog u) @ take j (pa_to_submit u)" "pa_to_submit t = drop j (pa_to_submit u)"
      "\<not> pa_submitting u \<longrightarrow> j = 0 \<and> \<not> pa_submitting t" using Cons.IH step by blast
  have "take k (pa_to_submit s) @ take j (drop k (pa_to_submit s)) = take (k + j) (pa_to_submit s)"
    by (simp add: take_add)
  then have "map fst (slog t) = map fst (slog s) @ take (k + j) (pa_to_submit s)"
    "pa_to_submit t = drop (k + j) (pa_to_submit s)" "\<not> pa_submitting s \<longrightarrow> k + j = 0 \<and> \<not> pa_submitting t"
    using k j by (simp_all add: add.commute)
  moreover have "ec_bool (pa_ec t)" "pa_total t = pa_total s" "pa_buf_current t = pa_buf_current s"
    "list_all submit_ok (e # es) \<longrightarrow> pa_ec t = pa_ec s"
    using Cons.IH step by auto
  ultimately show ?case by blast
qed (auto intro: exI [of _ 0])

section \<open>Properties\<close>

definition ex_run :: "io_event list" where
  "ex_run = [Submit 0, Complete 1 (ex_done 0 10) 0, Submit 0, Stop, Complete 2 (ex_done 0 7) 0,
             Complete 1 (ex_done 0 10) 0]"

definition ex_failed_tail :: "io_event list" where
  "ex_failed_tail = [Complete 1 (ex_done 0 10) 0]"

lemma ex_start:
  "partial_submit False 0 ex_view ex_bufs (ex_store 2) =
     Some (Suspended (partial_start 0 ex_view ex_bufs (ex_store 2)))"
  by (simp add: partial_submit_eq [OF ex_view_ok] ex_bufs_def)

lemma ex_run_result:
  "\<exists>s. run partial_step ex_run (partial_start 0 ex_view ex_bufs (ex_store 2)) = Some s
     \<and> posts s = 1 \<and> \<not> ec_bool (pa_ec s) \<and> pa_total s = 27"
  by (rule run_satD) code_simp



text \<open>C28: a partial operation ends: no run of it has more steps than twice its transfers and its
  buffers allow, so neither the callback nor the submission loop can go on for ever.\<close>

theorem partial_terminates:
  assumes "view_ok v" "0 < view_size v"
    and "partial_submit stop self v bufs m = Some (Suspended s0)"
    and "run partial_step es s0 = Some s"
  shows "length es \<le> transfers_used bufs v + length bufs + 2"
proof -
  have s0: "s0 = partial_start self v bufs m" and "bufs \<noteq> []"
    using assms(3) by (simp_all add: partial_submit_Suspended [OF assms(1)])
  then have "partial_wf s0" using partial_start_wf [OF assms(1) _ assms(2)] by simp
  then have "length es + partial_budget s \<le> partial_budget s0"
    using partial_bounded.run_budget [OF assms(4)] by blast
  moreover have "partial_budget s0 = transfers_used bufs v + length bufs + 2"
    by (simp add: s0 partial_budget_def length_used_tids [OF assms(1)] transfers_used_def)
  ultimately show ?thesis by simp
qed

theorem partial_terminates_witness:
  "length ex_run \<le> transfers_used ex_bufs ex_view + length ex_bufs + 2"
  using ex_run_result partial_terminates [OF ex_view_ok ex_view_size ex_start] by blast


lemma ex_run_maximal:
  assumes "run partial_step ex_run (partial_start 0 ex_view ex_bufs (ex_store 2)) = Some s" "posts s = 1"
    and "e \<noteq> Stop"
  shows "partial_step e s = None"
proof -
  have "partial_stream.latch s"
    using partial_stream.latch_run assms(1)
      partial_start_latch [OF ex_view_ok _ ex_view_size, of ex_bufs 0 "ex_store 2"]
    by (simp add: ex_bufs_def)
  then show ?thesis using assms(2,3) by (rule partial_stream.posted_final)
qed


text \<open>C36: if one of the initial submissions fails with \<open>rc\<close>, the coroutine is never resumed, however
  the run goes on: \<open>in_flight\<close> was set for all transfers before the loop and is not corrected when
  the loop breaks.\<close>

theorem partial_failed_submission_hangs:
  assumes "view_ok v" "0 < view_size v"
    and "partial_submit stop self v bufs m = Some (Suspended s0)"
    and "run partial_step (es @ Submit rc # fs) s0 = Some s" "rc \<noteq> LIBUSB_SUCCESS"
  shows "posts s = 0 \<and> ec_bool (pa_ec s) \<and> pa_in_flight s \<noteq> 0"
proof -
  have s0: "s0 = partial_start self v bufs m" and "bufs \<noteq> []"
    using assms(3) by (simp_all add: partial_submit_Suspended [OF assms(1)])
  then have l0: "partial_stream.latch s0" using partial_start_latch [OF assms(1) _ assms(2)] by simp
  have "posts s = 0"
    using partial_stream.failed_submit_never_posts [OF l0 assms(4,5)] .
  moreover have "partial_stream.latch s" using l0 assms(4) by (rule partial_stream.latch_run)
  ultimately have "pa_in_flight s \<noteq> 0" by (auto simp: partial_stream.latch_def)
  obtain u w where u: "partial_step (Submit rc) u = Some w" and w: "run partial_step fs w = Some s"
    using assms(4) by (auto simp: run_append split: option.splits)
  have "ec_bool (pa_ec w)" using u assms(5) by (auto split: list.splits if_splits)
  then have "ec_bool (pa_ec s)" using partial_run_error [OF w] by blast
  with \<open>posts s = 0\<close> \<open>pa_in_flight s \<noteq> 0\<close> show ?thesis by blast
qed

lemma ex_failed_run_possible:
  "\<exists>s. run partial_step ([Submit 0] @ Submit (-6) # ex_failed_tail)
         (partial_start 0 ex_view ex_bufs (ex_store 2)) = Some s \<and> stopped s = False"
  by (rule run_satD) code_simp

theorem partial_failed_submission_hangs_witness:
  "\<exists>s. run partial_step ([Submit 0] @ Submit (-6) # ex_failed_tail)
         (partial_start 0 ex_view ex_bufs (ex_store 2)) = Some s \<and> posts s = 0"
  using ex_failed_run_possible partial_failed_submission_hangs [OF ex_view_ok ex_view_size ex_start]
  by fastforce

lemma partial_success:
  assumes "view_ok v" "0 < view_size v" "bufs \<noteq> []"
    and "\<And>x. x \<in> set (sv_array v) \<Longrightarrow> t_type (m x) \<noteq> LIBUSB_TRANSFER_TYPE_ISOCHRONOUS"
    and "run partial_step es (partial_start self v bufs m) = Some s" "posts s = 1" "\<not> ec_bool (pa_ec s)"
  shows "mset (log_windows s) = mset (map buf_window bufs)
    \<and> partial_await_resume s = (pa_ec s, run_bytes es) \<and> list_all event_completed es"
proof -
  have wd: "partial_wf (partial_start self v bufs m) \<and> partial_data (partial_start self v bufs m)"
    using partial_start_wf [OF assms(1,3,2)] partial_start_data [OF assms(1,4)] by simp
  then have wd': "partial_wf s \<and> partial_data s"
    using assms(5) partial_data_machine.run_inv by blast
  have frame: "pa_view s = v \<and> pa_bufs s = bufs"
    using partial_run_frame [OF assms(5)] by simp
  have empty: "outstanding s = {}" "pa_to_submit s = []"
    using wd' partial_stream.latch_posts [of s] assms(6) by (simp_all add: partial_wf_def)
  have "0 < transfers_used bufs v" using assms(2,3) by (simp add: transfers_used_def)
  then have "used_tids bufs v \<noteq> []" using length_used_tids [OF assms(1), of bufs] by auto
  then have "pa_buf_current s = length bufs"
    using wd' assms(7) empty frame by (auto simp: partial_data_def)
  then have "mset (log_windows s) = mset (map buf_window bufs)"
    using wd' assms(7) empty frame by (simp add: partial_data_def)
  then show ?thesis
    using partial_run_bytes [OF assms(5) _ _ assms(7)] wd by (simp add: partial_await_resume_def)
qed



text \<open>C31: once a partial operation has recorded an error, it never forgets it: no further buffer is taken,
  no further byte is counted, and the callbacks submit nothing.  What is submitted still is what was left
  of the initial loop, in its order, and nothing if that had broken off; the code changes only if one
  of these submissions fails.\<close>

theorem partial_first_error_is_final:
  assumes "run partial_step es s = Some t" "ec_bool (pa_ec s)"
  shows "pa_total t = pa_total s \<and> pa_buf_current t = pa_buf_current s \<and> ec_bool (pa_ec t)
    \<and> (\<exists>k. map fst (slog t) = map fst (slog s) @ take k (pa_to_submit s) \<and> pa_to_submit t = drop k (pa_to_submit s)
          \<and> (\<not> pa_submitting s \<longrightarrow> k = 0))
    \<and> (list_all submit_ok es \<longrightarrow> partial_await_resume t = partial_await_resume s)"
  using partial_run_error [OF assms] by (simp add: partial_await_resume_def) blast

definition ex_error_run :: "io_event list" where
  "ex_error_run = [Submit 0, Submit 0, Complete 1 (ex_done 3 4) 0]"

lemma ex_error_state:
  "\<exists>s. run partial_step ex_error_run (partial_start 0 ex_view ex_bufs (ex_store 2)) = Some s
     \<and> ec_bool (pa_ec s) \<and> pa_total s = 4
     \<and> run_sat partial_step [Complete 2 (ex_done 0 10) 0] s (\<lambda>_. True)"
  by (rule run_satD) code_simp

theorem partial_first_error_is_final_witness:
  "\<exists>s t. run partial_step ex_error_run (partial_start 0 ex_view ex_bufs (ex_store 2)) = Some s
     \<and> run partial_step [Complete 2 (ex_done 0 10) 0] s = Some t \<and> pa_total t = 4"
  using ex_error_state partial_first_error_is_final run_satD by metis

text \<open>the stop callback can run in every state of a suspended operation in which it has not run,
  it calls \<open>libusb_cancel_transfer\<close> on each transfer the operation uses, in order, so on every
  transfer libusb holds, and it changes nothing the callbacks read.\<close>

theorem partial_stop_cancels_all:
  assumes "view_ok v" "0 < view_size v"
    and "partial_submit stop self v bufs m = Some (Suspended s0)"
    and "run partial_step es s0 = Some s" "\<not> stopped s"
  shows "partial_step Stop s = Some (s\<lparr>stopped := True, cancels := cancels s @ used_tids bufs v\<rparr>)
    \<and> outstanding s \<union> set (pa_to_submit s) \<subseteq> set (used_tids bufs v)"
proof -
  have s0: "s0 = partial_start self v bufs m" and ne: "bufs \<noteq> []"
    using assms(3) by (simp_all add: partial_submit_Suspended [OF assms(1)])
  have frame: "pa_view s = v \<and> pa_bufs s = bufs"
    using partial_run_frame [OF assms(4)] by (simp add: s0)
  have "partial_wf s0" using partial_start_wf [OF assms(1) ne assms(2)] by (simp add: s0)
  then have "partial_wf s" using assms(4) by (metis partial_bounded.run_inv)
  then show ?thesis
    using frame assms(5) used_tids_loop' [OF assms(1)]
    by (simp add: partial_wf_def partial_stop_def)
qed

lemma ex_running_state:
  "\<exists>s. run partial_step [Submit 0] (partial_start 0 ex_view ex_bufs (ex_store 2)) = Some s
     \<and> \<not> stopped s \<and> cancels s = []"
  by (rule run_satD) code_simp

theorem partial_stop_cancels_all_witness:
  "\<exists>s t. run partial_step [Submit 0] (partial_start 0 ex_view ex_bufs (ex_store 2)) = Some s
     \<and> partial_step Stop s = Some t \<and> cancels t = used_tids ex_bufs ex_view"
  using ex_running_state partial_stop_cancels_all [OF ex_view_ok ex_view_size ex_start] by fastforce

text \<open>A stop requested before the operation starts is answered without submitting anything: the
  transfers are cancelled as they are, no buffer is assigned and the result is (cancelled, 0
  bytes), or (no error, 0 bytes) if there are no buffers at all.\<close>

theorem partial_stop_before_start:
  assumes "view_ok v"
  shows "\<exists>s. partial_submit True self v bufs m = Some (Not_Suspended s) \<and> slog s = [] \<and> tfers s = m
    \<and> cancels s = used_tids bufs v
    \<and> partial_await_resume s =
        (if bufs = [] then ec_none else make_transfer_status (status_value St_cancelled), 0)"
  by (auto simp: partial_submit_eq [OF assms] partial_await_resume_def sequence_awaitable_def
      partial_stopped_start_def)

theorem partial_stop_before_start_witness:
  "\<exists>s. partial_submit True 0 ex_view ex_bufs (ex_store 2) = Some (Not_Suspended s)
     \<and> partial_await_resume s = (make_transfer_status 3, 0)"
  using partial_stop_before_start [OF ex_view_ok, of 0 ex_bufs "ex_store 2"]
  by (auto simp: ex_bufs_def)

text \<open>With a sequence that holds no transfer (and buffers to read) the coroutine is suspended and
  nothing can ever resume it: no submission is made, so no callback will run.\<close>

theorem partial_empty_sequence_hangs:
  assumes "view_ok v" "view_size v = 0" "bufs \<noteq> []"
    and "run partial_step es (partial_start self v bufs m) = Some s"
  shows "partial_submit False self v bufs m = Some (Suspended (partial_start self v bufs m))
    \<and> posts s = 0 \<and> outstanding s = {} \<and> pa_to_submit s = []"
proof -
  have "posts s = 0 \<and> outstanding s = {} \<and> pa_to_submit s = []"
    if "run partial_step es s0 = Some s" "posts s0 = 0" "outstanding s0 = {}" "pa_to_submit s0 = []"
    for s0
    using that
  proof (induction rule: run_induct)
    case (Cons e es s0 u s)
    from Cons(1) have "posts u = 0 \<and> outstanding u = {} \<and> pa_to_submit u = []"
      using Cons.prems by (cases e) (auto simp: partial_stop_def split: if_splits)
    then show ?case using Cons.IH by blast
  qed simp
  moreover have "used_tids bufs v = []" by (simp add: used_tids_def transfers_used_def assms(2))
  ultimately show ?thesis using assms by (simp add: partial_submit_eq)
qed

theorem partial_empty_sequence_hangs_witness:
  "partial_submit False 0 (make_view (Resources [])) ex_bufs (ex_store 2) =
     Some (Suspended (partial_start 0 (make_view (Resources [])) ex_bufs (ex_store 2)))"
  using partial_empty_sequence_hangs [of "make_view (Resources [])" ex_bufs "[]"]
  by (simp add: view_ok_resources ex_bufs_def)

text \<open>isochronous errors get lost.  A transfer that libusb completed successfully is taken as
  successful whatever the status of its packets; a transfer that failed is given the status of its
  first packet, so that if that packet was fine no error is recorded at all, the other packets are
  not counted, and the buffers not handed out yet are dropped.\<close>

theorem partial_iso_errors_lost:
  assumes "x \<in> outstanding s" "\<not> ec_bool (pa_ec s)"
    and "t_type (tfers s x) = LIBUSB_TRANSFER_TYPE_ISOCHRONOUS" "0 < t_num_iso_packets (tfers s x)"
    and "c_packets c = p # ps" "ip_status p = LIBUSB_TRANSFER_COMPLETED"
  shows "(c_status c \<noteq> LIBUSB_TRANSFER_COMPLETED \<longrightarrow>
      (\<exists>t. partial_step (Complete x c rc) s = Some t \<and> \<not> ec_bool (pa_ec t)
        \<and> pa_total t = pa_total s + ucast (ip_actual_length p)
        \<and> outstanding t = outstanding s - {x} \<and> pa_buf_current t = pa_buf_current s))
    \<and> (c_status c = LIBUSB_TRANSFER_COMPLETED \<and> rc = LIBUSB_SUCCESS \<longrightarrow>
      (\<exists>t. partial_step (Complete x c rc) s = Some t \<and> pa_ec t = pa_ec s))"
proof -
  obtain n where n: "nat (t_num_iso_packets (tfers s x)) = Suc n"
    using assms(4) by (metis gr0_implies_Suc zero_less_nat_eq)
  have ok: "partial_iso_loop 0 qs tot = (tot + (\<Sum>q\<leftarrow>qs. ucast (ip_actual_length q)), None)" for qs tot
    by (induction qs arbitrary: tot) (simp_all add: add.assoc)
  show ?thesis
    using assms n by (auto simp: partial_callback_unfold partial_account_def iso_packets_def ok)
qed

definition ex_iso_state :: partial_await where
  "ex_iso_state = (partial_start 0 ex_view ex_bufs (ex_store 1))\<lparr>outstanding := {1}\<rparr>"

theorem partial_iso_errors_lost_witness:
  "\<exists>t. partial_step (Complete 1 (ex_done 1 10) 0) ex_iso_state = Some t \<and> \<not> ec_bool (pa_ec t)
     \<and> pa_total t = 3"
proof -
  have "t_type (tfers ex_iso_state 1) = 1 \<and> t_num_iso_packets (tfers ex_iso_state 1) = 1
     \<and> outstanding ex_iso_state = {1} \<and> pa_ec ex_iso_state = ec_none \<and> pa_total ex_iso_state = 0"
    by (simp add: ex_iso_state_def prepared_type ex_store_def)
  then show ?thesis
    using partial_iso_errors_lost [of 1 ex_iso_state "ex_done 1 10" "\<lparr>ip_actual_length = 3, ip_status = 0\<rparr>" "[]" 0]
    by (auto simp: ex_done_def)
qed

end
