(* ===== verification/IO_Objects.thy ===== *)
theory IO_Objects
  imports Handler_Service Partial_IO Complete_IO
begin

text \<open>
  The I/O objects the library's user makes (\<open>transfer/partial_io.hpp\<close>, \<open>transfer/complete_io.hpp\<close>):
  a base that holds a reference to the event handler and a view of the transfers, an adaptor with
  the operations its direction allows, and for each transfer type an object whose constructor
  prefills the transfers.  Here the service, the prefill operations and the two awaitables meet.
\<close>

section \<open>partial_io_base\<close>

text \<open>
  What \<open>get_handler_service\<close> does with an executor: the result of \<open>libusb_init\<close>, whether a thread
  can be made, and the block of the handler.  The service's handler lives in slot 0.
\<close>

record service_env =
  se_init :: "int \<times> nat"
  se_spawn :: bool
  se_block :: nat

record partial_io_base =
  pb_ev_ref :: event_handler_ref
  pb_view :: sequence_view

definition act_bind :: "service \<times> 'a act \<Rightarrow> ('a \<Rightarrow> service \<Rightarrow> service \<times> 'b act) \<Rightarrow> service \<times> 'b act" where
  "act_bind r f =
     (case r of
        (s, Returned x) \<Rightarrow> f x s
      | (s, Blocked) \<Rightarrow> (s, Blocked) | (s, Terminated) \<Rightarrow> (s, Terminated) | (s, Threw ec) \<Rightarrow> (s, Threw ec))"

lemma act_bind_simps [simp]:
  "act_bind (s, Returned x) f = f x s"
  "act_bind (s, Blocked) f = (s, Blocked)"
  "act_bind (s, Terminated) f = (s, Terminated)"
  "act_bind (s, Threw ec) f = (s, Threw ec)"
  by (simp_all add: act_bind_def)

definition make_partial_io_base :: "service_env \<Rightarrow> transfer_sequence \<Rightarrow> partial_io_base service_op" where
  "make_partial_io_base env tfer_seq s =
     act_bind (get_handler_service (se_init env) (se_spawn env) (se_block env) s)
       (\<lambda>_ s. (service_handler s,
               Returned \<lparr>pb_ev_ref = \<lparr>er_original = Some 0\<rparr>, pb_view = make_view tfer_seq\<rparr>))"

text \<open>The implicit destructor: that of \<open>m_ev_ref\<close>.\<close>

definition partial_io_base_dtor :: "service \<Rightarrow> service" where
  "partial_io_base_dtor s = drop_reference s"

section \<open>direction_partial_io_base\<close>

record direction_partial_io =
  dp_direction :: endpoint_direction
  dp_stream :: partial_io_base

definition make_direction_partial_io ::
  "endpoint_direction \<Rightarrow> service_env \<Rightarrow> transfer_sequence \<Rightarrow> direction_partial_io service_op" where
  "make_direction_partial_io dir env tfer_seq s =
     act_bind (make_partial_io_base env tfer_seq s)
       (\<lambda>b s. (s, Returned \<lparr>dp_direction = dir, dp_stream = b\<rparr>))"

text \<open>\<open>None\<close>: the \<open>requires\<close> clause excludes the call.\<close>

definition only_for :: "endpoint_direction \<Rightarrow> endpoint_direction \<Rightarrow> 'a \<Rightarrow> 'a option" where
  "only_for required dir x = (if dir = required then Some x else None)"

definition partial_read_some where
  "partial_read_some io stop self bufs m =
     only_for dir_in (dp_direction io) (partial_submit stop self (pb_view (dp_stream io)) bufs m)"

definition partial_write_some where
  "partial_write_some io stop self bufs m =
     only_for dir_out (dp_direction io) (partial_submit stop self (pb_view (dp_stream io)) bufs m)"

section \<open>The partial objects\<close>

text \<open>An object whose base was made, and whose constructor's body prefills.\<close>

definition then_prefill :: "service \<times> 'io act \<Rightarrow> aborted + tfer_store \<Rightarrow> service \<times> (aborted + 'io \<times> tfer_store) act" where
  "then_prefill r filled = act_bind r (\<lambda>io s. (s, Returned (map_sum id (\<lambda>m. (io, m)) filled)))"

definition control_partial_io where
  "control_partial_io checked fill env tfer_seq ep timeout_ms m s =
     then_prefill (make_direction_partial_io (ep_direction ep) env tfer_seq s)
       (prefill_control checked fill tfer_seq ep timeout_ms m)"

definition bulk_partial_io where
  "bulk_partial_io fill env tfer_seq ep timeout_ms m s =
     then_prefill (make_direction_partial_io (ep_direction ep) env tfer_seq s)
       (of_loop (prefill_bulk fill tfer_seq ep timeout_ms m))"

definition interrupt_partial_io where
  "interrupt_partial_io fill env tfer_seq ep timeout_ms m s =
     then_prefill (make_direction_partial_io (ep_direction ep) env tfer_seq s)
       (of_loop (prefill_interrupt fill tfer_seq ep timeout_ms m))"

definition isochronous_partial_io where
  "isochronous_partial_io fill env tfer_seq ep n_packets timeout_ms m s =
     then_prefill (make_direction_partial_io (ep_direction ep) env tfer_seq s)
       (of_loop (prefill_isochronous fill tfer_seq ep n_packets timeout_ms m))"

definition bulk_stream_partial_io where
  "bulk_stream_partial_io fill env tfer_seq ep stream_id timeout_ms m s =
     then_prefill (make_direction_partial_io (ep_direction ep) env tfer_seq s)
       (of_loop (prefill_bulk_stream fill tfer_seq ep stream_id timeout_ms m))"

section \<open>complete_io_base\<close>

record complete_io_base = partial_io_base +
  cb_memres :: nat
  cb_single_transfer_limit :: size_t

definition make_complete_io_base ::
  "service_env \<Rightarrow> transfer_sequence \<Rightarrow> size_t \<Rightarrow> nat \<Rightarrow> complete_io_base service_op" where
  "make_complete_io_base env tfer_seq limit memres s =
     act_bind (make_partial_io_base env tfer_seq s)
       (\<lambda>b s. (s, Returned (partial_io_base.extend b
                  \<lparr>cb_memres = memres, cb_single_transfer_limit = limit\<rparr>)))"

record direction_complete_io =
  dc_direction :: endpoint_direction
  dc_raw :: complete_io_base

definition make_direction_complete_io ::
  "endpoint_direction \<Rightarrow> service_env \<Rightarrow> transfer_sequence \<Rightarrow> size_t \<Rightarrow> nat \<Rightarrow> direction_complete_io service_op" where
  "make_direction_complete_io dir env tfer_seq limit memres s =
     act_bind (make_complete_io_base env tfer_seq limit memres s)
       (\<lambda>b s. (s, Returned \<lparr>dc_direction = dir, dc_raw = b\<rparr>))"

definition complete_read_some where
  "complete_read_some io stop self bufs m =
     only_for dir_in (dc_direction io) (partial_submit stop self (pb_view (dc_raw io)) bufs m)"

definition complete_read where
  "complete_read checked io stop self bufs m =
     only_for dir_in (dc_direction io)
       (complete_submit checked stop self (pb_view (dc_raw io)) bufs (cb_single_transfer_limit (dc_raw io)) m)"

definition complete_write_some where
  "complete_write_some io stop self bufs m =
     only_for dir_out (dc_direction io) (partial_submit stop self (pb_view (dc_raw io)) bufs m)"

definition complete_write where
  "complete_write checked io stop self bufs m =
     only_for dir_out (dc_direction io)
       (complete_submit checked stop self (pb_view (dc_raw io)) bufs (cb_single_transfer_limit (dc_raw io)) m)"

definition complete_write_eof where
  "complete_write_eof checked io stop self bufs m =
     only_for dir_out (dc_direction io)
       (complete_submit checked stop self (pb_view (dc_raw io)) bufs (cb_single_transfer_limit (dc_raw io)) m)"

text \<open>\<open>write_eof\<close> without buffers; its template parameter has to be given by the caller.\<close>

definition complete_write_eof_empty :: "direction_complete_io \<Rightarrow> error_code option" where
  "complete_write_eof_empty io = only_for dir_out (dc_direction io) ec_none"

section \<open>The complete objects\<close>

definition control_complete_io where
  "control_complete_io checked fill env tfer_seq ep limit timeout_ms memres m s =
     then_prefill (make_direction_complete_io (ep_direction ep) env tfer_seq limit memres s)
       (prefill_control checked fill tfer_seq ep timeout_ms m)"

definition bulk_complete_io where
  "bulk_complete_io fill env tfer_seq ep limit timeout_ms memres m s =
     then_prefill (make_direction_complete_io (ep_direction ep) env tfer_seq limit memres s)
       (of_loop (prefill_bulk fill tfer_seq ep timeout_ms m))"

definition interrupt_complete_io where
  "interrupt_complete_io fill env tfer_seq ep limit timeout_ms memres m s =
     then_prefill (make_direction_complete_io (ep_direction ep) env tfer_seq limit memres s)
       (of_loop (prefill_interrupt fill tfer_seq ep timeout_ms m))"

definition isochronous_complete_io where
  "isochronous_complete_io fill env tfer_seq ep n_packets limit timeout_ms memres m s =
     then_prefill (make_direction_complete_io (ep_direction ep) env tfer_seq limit memres s)
       (of_loop (prefill_isochronous fill tfer_seq ep n_packets timeout_ms m))"

definition bulk_stream_complete_io where
  "bulk_stream_complete_io fill env tfer_seq ep stream_id limit timeout_ms memres m s =
     then_prefill (make_direction_complete_io (ep_direction ep) env tfer_seq limit memres s)
       (of_loop (prefill_bulk_stream fill tfer_seq ep stream_id timeout_ms m))"

lemmas io_make_defs = make_partial_io_base_def make_direction_partial_io_def make_complete_io_base_def
  make_direction_complete_io_def then_prefill_def

text \<open>What the constructor of an object gives, as far as its operations use it.\<close>

lemma complete_object:
  assumes "then_prefill (make_direction_complete_io dir env tfer_seq limit memres s) filled
      = (s', Returned (Inr (io, m')))"
  shows "dc_direction io = dir \<and> filled = Inr m'"
proof -
  obtain u r where u: "get_handler_service (se_init env) (se_spawn env) (se_block env) s = (u, r)" by fastforce
  show ?thesis using assms by (cases r; cases filled) (auto simp: io_make_defs u)
qed

lemma partial_object:
  assumes "then_prefill (make_direction_partial_io dir env tfer_seq s) filled
      = (s', Returned (Inr (io, m')))"
  shows "dp_direction io = dir \<and> filled = Inr m'"
proof -
  obtain u r where u: "get_handler_service (se_init env) (se_spawn env) (se_block env) s = (u, r)" by fastforce
  show ?thesis using assms by (cases r; cases filled) (auto simp: io_make_defs u)
qed

section \<open>The reference of an object\<close>

text \<open>A service whose loop runs, and whose handler counts \<open>n\<close> references.\<close>

definition serves :: "service \<Rightarrow> usb_ctx \<Rightarrow> nat \<Rightarrow> refcounted_event_handler \<Rightarrow> bool" where
  "serves s c k h \<longleftrightarrow> sv_started s \<and> rh_thread h = Running c k
     \<and> (\<exists>b. ah_storage (sv_handler s) = Some (b, Refcounted h))"

lemma serves_started:
  "serves s c k h \<Longrightarrow> get_handler_service i spawn blk s = (s, Returned ())"
  by (simp add: serves_def get_handler_service_def)

lemma serves_ref:
  assumes "serves s c k h"
  shows "serves (service_handler s) c k (h\<lparr>rh_counter := rh_counter h + 1\<rparr>)"
    and "serves (drop_reference s) c k (h\<lparr>rh_counter := rh_counter h - 1\<rparr>)"
    and "serves (service_request_stop s) c k h"
  using assms
  by (auto simp: serves_def service_handler_def drop_reference_def any_ref_def any_unref_def
      refcounted_ref_def refcounted_unref_def service_request_stop_def)

text \<open>A turn without an error, once the token of the loop was requested.\<close>

lemma serves_turn:
  assumes "serves s c k h" "k \<in> sv_requested s"
  shows "slot_thread (sv_handler (fst (service_turn LIBUSB_SUCCESS s))) =
    (if rh_counter h = 0 then Ended else Running c k)"
  using assms
  by (auto simp: serves_def service_turn_def any_turn_def refcounted_turn_def slot_thread_def)

text \<open>\<open>n\<close> turns of the loop, none of which meets an error.\<close>

primrec quiet_turns :: "nat \<Rightarrow> service \<Rightarrow> service" where
  "quiet_turns 0 s = s"
| "quiet_turns (Suc n) s = quiet_turns n (fst (service_turn LIBUSB_SUCCESS s))"

lemma quiet_turns_same:
  assumes "serves s c k h" "rh_counter h \<noteq> 0"
  shows "quiet_turns n s = s"
proof -
  obtain b where b: "ah_storage (sv_handler s) = Some (b, Refcounted h)" "rh_thread h = Running c k"
    using assms(1) by (auto simp: serves_def)
  have "(sv_handler s)\<lparr>ah_storage := Some (b, Refcounted h)\<rparr> = sv_handler s" using b(1) by (cases "sv_handler s") simp
  then have "fst (service_turn LIBUSB_SUCCESS s) = s" using b assms(2)
    by (simp add: service_turn_def any_turn_def refcounted_turn_def)
  then show ?thesis by (induction n) simp_all
qed

lemma requested_after:
  "sv_requested (service_request_stop s) = insert (sv_stop s) (sv_requested s)"
  "sv_requested (drop_reference s) = sv_requested s"
  "sv_stop (service_handler s) = sv_stop s"
  by (simp_all add: service_request_stop_def request_source_def drop_reference_def service_handler_def)

text \<open>C23: an I/O object of any kind, made on a service whose reference counted handler runs its loop, takes
  one reference to the handler: after a stop request the loop goes on for any number of turns without an
  error, and ends with the first one after the destruction of the object if nobody else holds a
  reference.  (A trivial handler counts nothing, and promises nothing of the kind.)\<close>

theorem io_object_keeps_the_loop_running:
  assumes "run service_step es service_init = Some s" and "serves s c k h"
    and "rh_counter h + 1 \<noteq> 0"
  shows "\<exists>t io. make_partial_io_base env tfer_seq s = (t, Returned io) \<and> pb_view io = make_view tfer_seq
    \<and> make_complete_io_base env tfer_seq limit memres s =
        (t, Returned (partial_io_base.extend io \<lparr>cb_memres = memres, cb_single_transfer_limit = limit\<rparr>))
    \<and> slot_counter (sv_handler t) = Some (rh_counter h + 1)
    \<and> (\<forall>n. slot_thread (sv_handler (quiet_turns n (service_request_stop t))) = Running c k
          \<and> slot_thread (sv_handler (fst (service_turn LIBUSB_SUCCESS
                (partial_io_base_dtor (quiet_turns n (service_request_stop t)))))) =
              (if rh_counter h = 0 then Ended else Running c k))"
proof -
  have ok: "service_ok s" using assms(1) by (rule service_run_ok)
  have "slot_thread (sv_handler s) = Running c k" using assms(2) by (auto simp: serves_def slot_thread_def)
  then have k: "k = sv_stop s" using ok by (simp add: service_ok_def)
  let ?t = "service_handler s"
  let ?h = "h\<lparr>rh_counter := rh_counter h + 1\<rparr>"
  have t: "serves ?t c k ?h" using assms(2) by (rule serves_ref)
  have req: "serves (service_request_stop ?t) c k ?h" using t by (rule serves_ref)
  have dtor: "serves (drop_reference (service_request_stop ?t)) c k (?h\<lparr>rh_counter := rh_counter ?h - 1\<rparr>)"
    using req by (rule serves_ref)
  have "slot_counter (sv_handler ?t) = Some (rh_counter h + 1)"
    using t by (auto simp: serves_def slot_counter_def)
  moreover have "quiet_turns n (service_request_stop ?t) = service_request_stop ?t" for n
    by (rule quiet_turns_same [OF req]) (use assms(3) in simp)
  moreover have "slot_thread (sv_handler (service_request_stop ?t)) = Running c k"
    using req by (auto simp: serves_def slot_thread_def)
  moreover have "slot_thread (sv_handler (fst (service_turn LIBUSB_SUCCESS
      (drop_reference (service_request_stop ?t))))) = (if rh_counter h = 0 then Ended else Running c k)"
    using serves_turn [OF dtor] by (simp add: requested_after k)
  ultimately show ?thesis
    by (simp add: make_partial_io_base_def make_complete_io_base_def serves_started [OF assms(2)]
        partial_io_base_dtor_def)
qed

definition ex_env :: service_env where
  "ex_env = \<lparr>se_init = (0, 5), se_spawn = True, se_block = 10\<rparr>"

lemma ex_serving_run:
  "\<exists>s. run service_step [Sv_Get (0, 5) True 10] service_init = Some s
     \<and> serves s (Some 5) 0 \<lparr>rh_counter = 0, rh_thread = Running (Some 5) 0\<rparr>"
  by (simp add: get_handler_service_def init_first emplace_first sv_result_def serves_def)

theorem io_object_keeps_the_loop_running_witness:
  "\<exists>s t io. run service_step [Sv_Get (0, 5) True 10] service_init = Some s
     \<and> make_partial_io_base ex_env (Resource 3) s = (t, Returned io) \<and> slot_counter (sv_handler t) = Some 1"
proof -
  obtain s where s: "run service_step [Sv_Get (0, 5) True 10] service_init = Some s"
      "serves s (Some 5) 0 \<lparr>rh_counter = 0, rh_thread = Running (Some 5) 0\<rparr>"
    using ex_serving_run by blast
  from io_object_keeps_the_loop_running [OF s, of ex_env "Resource 3" 0 0] show ?thesis using s(1) by auto
qed

section \<open>What reaches libusb\<close>

text \<open>The fields that say where a transfer goes.\<close>

definition destination :: "libusb_transfer \<Rightarrow> devh \<times> u8 \<times> u8 \<times> uint32" where
  "destination t = (t_dev_handle t, t_endpoint t, t_type t, t_timeout t)"

lemma prepare_destination:
  "destination (prepare_all (partial_prepare self) xs bs m x) = destination (m x)"
  by (induction "partial_prepare self" xs bs m rule: prepare_all.induct)
    (auto simp: fun_upd_def destination_def partial_prepare_def)

lemma fills_as_destination:
  assumes "fills_as ty fill"
  shows "destination (fill t h ep buf len cb ud tmo) = (h, ep, ty, tmo)"
  using assms by (simp add: fills_as_def destination_def)

lemma prefill_bulk_store:
  assumes "fills_as 2 fill"
  shows "prefill_bulk fill (Resources ts) ep tmo m =
    Some (upd_all (\<lambda>t. fill t (endpoint_devh ep) (addr ep) 0 0 None None (ucast tmo)) ts m)"
  unfolding prefill_bulk_def by (rule prefill_loop_resources) (use assms in \<open>simp add: fills_as_def\<close>)

lemma used_tids_view: "set (used_tids bufs (make_view (Resources ts))) \<subseteq> set ts"
  by (auto simp: used_tids_def make_view_def dest!: in_set_takeD)

text \<open>An IN endpoint and three transfers; the service is fresh.\<close>

definition ex_ep :: endpoint where
  "ex_ep = ep_in 2 (Pointer_Source (Raw_Pointer (Some 1)))"

lemma ex_bulk:
  "\<exists>s' io m'. bulk_partial_io (fill_as 2) ex_env (Resources [4, 5, 6]) ex_ep 0 (\<lambda>_. null_transfer) service_init
     = (s', Returned (Inr (io, m')))"
  by (simp add: bulk_partial_io_def io_make_defs ex_env_def get_handler_service_def init_first emplace_first
      prefill_bulk_store [OF fills_as_fill_as])

end
