(* ===== verification/Typed_Transfers.thy ===== *)
theory Typed_Transfers
  imports IO_Objects
begin

text \<open>
  The types of the transfers: what \<open>prefill_bulk\<close> and \<open>prefill_interrupt\<close> write into a transfer
  (device handle, endpoint address, transfer type, timeout) is never written again, neither by the
  two coroutines that stream buffers through it nor by their callbacks.  With the \<open>requires\<close>
  clauses of the operations, an operation that reads has IN transfers only.
\<close>

section \<open>Nothing changes a destination\<close>

definition destinations :: "tfer_store \<Rightarrow> tid \<Rightarrow> devh \<times> u8 \<times> u8 \<times> uint32" where
  "destinations m x = destination (m x)"

lemma destination_window:
  "destination (t\<lparr>t_buffer := b, t_length := n\<rparr>) = destination t"
  "destination (t\<lparr>t_buffer := b, t_length := n, t_user_data := u, t_callback := c\<rparr>) = destination t"
  by (simp_all add: destination_def)

lemma destinations_upd [simp]:
  "destination t = destination (m x) \<Longrightarrow> destinations (m(x := t)) = destinations m"
  by (auto simp: destinations_def)

lemma destinations_libusb [simp]:
  "destinations (tfers (libusb_complete x c s)) = destinations (tfers s)"
  "destinations (tfers (libusb_accept x s)) = destinations (tfers s)"
  by (simp_all add: libusb_complete_def libusb_accept_def destination_def deliver_def)

lemma destinations_resume [simp]:
  "tfers (partial_resume_on_zero s) = tfers s" "tfers (complete_resume_on_zero s') = tfers s'"
  by (simp_all add: partial_resume_on_zero_def complete_resume_on_zero_def)

lemma partial_callback_destinations:
  "destinations (tfers (partial_transfer_callback x rc s)) = destinations (tfers s)"
  by (simp add: partial_callback_unfold destination_window split: option.splits prod.splits)

lemma complete_callback_destinations:
  "destinations (tfers (complete_transfer_callback x rc s)) = destinations (tfers s)"
  by (simp add: complete_callback_unfold destination_window set_window_def split: option.splits)

lemma partial_step_destinations:
  "partial_step e s = Some t \<Longrightarrow> destinations (tfers t) = destinations (tfers s)"
  by (cases e) (auto simp: partial_callback_destinations partial_stop_def split: list.splits if_splits)

lemma complete_step_destinations:
  "complete_step e s = Some t \<Longrightarrow> destinations (tfers t) = destinations (tfers s)"
  by (cases e) (auto simp: complete_callback_destinations complete_stop_def split: list.splits if_splits)

interpretation partial_typed: machine partial_step "\<lambda>s. destinations (tfers s) = D"
  by unfold_locales (simp add: partial_step_destinations)

interpretation complete_typed: machine complete_step "\<lambda>s. destinations (tfers s) = D"
  by unfold_locales (simp add: complete_step_destinations)

lemma partial_step_self: "partial_step e s = Some t \<Longrightarrow> pa_self t = pa_self s"
  by (cases e) (auto simp: partial_callback_unfold partial_stop_def split: list.splits if_splits prod.splits option.splits)

interpretation partial_self: machine partial_step "\<lambda>s. pa_self s = a"
  by unfold_locales (simp add: partial_step_self)

lemma partial_fill_destinations:
  "partial_fill xs s = Some t \<Longrightarrow> destinations (tfers t) = destinations (tfers s)"
  by (induction xs s rule: partial_fill.induct) (auto simp: Let_def destination_window split: if_splits)

lemma complete_fill_destinations:
  "complete_fill xs s = Some t \<Longrightarrow> destinations (tfers t) = destinations (tfers s)"
  by (induction xs s rule: complete_fill.induct)
    (auto simp: Let_def complete_prepare_def destination_window split: if_splits)

lemma partial_submit_destinations:
  assumes "partial_submit stop self v bufs m = Some (Suspended a)"
  shows "destinations (tfers a) = destinations m"
  using assms partial_fill_destinations
  by (fastforce simp: partial_submit_def partial_await_suspend_def partial_stop_def Let_def sequence_awaitable_def
      split: if_splits option.splits)

lemma of_loop_Inr [simp]: "of_loop r = Inr x \<longleftrightarrow> r = Some x"
  by (cases r) simp_all

lemma complete_suspend_destinations:
  assumes "complete_await_suspend stop s = Some (Suspended a)"
  shows "destinations (tfers a) = destinations (tfers s)"
  using assms complete_fill_destinations
  by (fastforce simp: complete_await_suspend_def split: if_splits option.splits)

lemma complete_submit_destinations:
  assumes "complete_submit checked stop self v bufs limit m = Inr (Suspended a)"
  shows "destinations (tfers a) = destinations m"
proof -
  obtain s where "complete_await_suspend stop s = Some (Suspended a)" "tfers s = m"
    using assms
    by (auto simp: complete_submit_def complete_stop_def Let_def initial_complete_await_def
        split: if_splits sum.splits)
  then show ?thesis using complete_suspend_destinations by blast
qed

section \<open>The objects\<close>

text \<open>The transfers \<open>ts\<close> go to endpoint \<open>ep\<close>, as transfers of type \<open>ty\<close>.\<close>

definition typed_for :: "endpoint \<Rightarrow> u8 \<Rightarrow> milliseconds \<Rightarrow> tid list \<Rightarrow> tfer_store \<Rightarrow> bool" where
  "typed_for ep ty tmo ts m \<longleftrightarrow>
     list_all (\<lambda>t. destination (m t) = (endpoint_devh ep, addr ep, ty, ucast tmo)) ts"

lemma typed_for_same: "destinations m' = destinations m \<Longrightarrow> typed_for ep ty tmo ts m' = typed_for ep ty tmo ts m"
  by (simp add: typed_for_def destinations_def fun_eq_iff)

lemma prefill_interrupt_store:
  assumes "fills_as 3 fill"
  shows "prefill_interrupt fill (Resources ts) ep tmo m =
    Some (upd_all (\<lambda>t. fill t (endpoint_devh ep) (addr ep) 0 0 None None (ucast tmo)) ts m)"
  unfolding prefill_interrupt_def by (rule prefill_loop_resources) (use assms in \<open>simp add: fills_as_def\<close>)

lemma typed_prefilled:
  "fills_as ty fill \<Longrightarrow>
   typed_for ep ty tmo ts (upd_all (\<lambda>t. fill t (endpoint_devh ep) (addr ep) 0 0 None None (ucast tmo)) ts m)"
  by (simp add: typed_for_def list_all_iff fills_as_destination)

text \<open>A read, or a write, on an object for \<open>ep\<close>: its transfers go to \<open>ep\<close>, and their endpoint address has
  the direction of the operation if it has that of the endpoint, which \<open>make_safe\<close> sees to.\<close>

definition goes_to ::
  "endpoint \<Rightarrow> u8 \<Rightarrow> milliseconds \<Rightarrow> tid list \<Rightarrow> endpoint_direction \<Rightarrow> tfer_store \<Rightarrow> bool" where
  "goes_to ep ty tmo ts dir m \<longleftrightarrow> typed_for ep ty tmo ts m \<and> ep_direction ep = dir
     \<and> (direction_matches (ep_direction ep) (addr ep) \<longrightarrow> (in_bit (addr ep) \<longleftrightarrow> dir = dir_in))"

lemma partial_goes_to:
  assumes "typed_for ep ty tmo ts m" "only_for dir (ep_direction ep) (partial_submit stop self v bufs m) = Some (Some (Suspended a))"
    and "run partial_step es a = Some w" "dir \<in> {dir_in, dir_out}"
  shows "goes_to ep ty tmo ts dir (tfers w)"
proof -
  have s: "partial_submit stop self v bufs m = Some (Suspended a)" "ep_direction ep = dir"
    using assms(2) by (simp_all add: only_for_def split: if_splits)
  have "typed_for ep ty tmo ts (tfers w)"
    using partial_typed.run_inv [OF assms(3) partial_submit_destinations [OF s(1)]] assms(1) typed_for_same by blast
  then show ?thesis using s(2) assms(4) by (auto simp: goes_to_def direction_matches_def)
qed

lemma complete_goes_to:
  assumes "typed_for ep ty tmo ts m"
    and "only_for dir (ep_direction ep) (complete_submit checked stop self v bufs l m) = Some (Inr (Suspended b))"
    and "run complete_step es b = Some w" "dir \<in> {dir_in, dir_out}"
  shows "goes_to ep ty tmo ts dir (tfers w)"
proof -
  have s: "complete_submit checked stop self v bufs l m = Inr (Suspended b)" "ep_direction ep = dir"
    using assms(2) by (simp_all add: only_for_def split: if_splits)
  have "typed_for ep ty tmo ts (tfers w)"
    using complete_typed.run_inv [OF assms(3) complete_submit_destinations [OF s(1)]] assms(1) typed_for_same by blast
  then show ?thesis using s(2) assms(4) by (auto simp: goes_to_def direction_matches_def)
qed

text \<open>C19: every transfer of a bulk or an interrupt object, with partial or complete operations, keeps the
  device, endpoint, type and timeout it was prefilled with in every state of every operation; the
  operations that read can only be called on an object for an IN endpoint, those that write only on
  one for an OUT endpoint, and if the endpoint's address has the direction of its type, which
  \<open>make_safe\<close> sees to, so has the address in the transfers.\<close>

theorem transfers_keep_their_type:
  assumes "fills_as ty fill"
  shows "((bulk_partial_io fill env (Resources ts) ep tmo m s = (s', Returned (Inr (pio, m'))) \<and> ty = 2
        \<or> interrupt_partial_io fill env (Resources ts) ep tmo m s = (s', Returned (Inr (pio, m'))) \<and> ty = 3) \<longrightarrow>
      (partial_read_some pio stop self bufs m' = Some (Some (Suspended a)) \<and> run partial_step es a = Some w
         \<longrightarrow> goes_to ep ty tmo ts dir_in (tfers w))
      \<and> (partial_write_some pio stop self bufs m' = Some (Some (Suspended a)) \<and> run partial_step es a = Some w
         \<longrightarrow> goes_to ep ty tmo ts dir_out (tfers w)))
    \<and> ((bulk_complete_io fill env (Resources ts) ep limit tmo memres m s = (s', Returned (Inr (io, m'))) \<and> ty = 2
        \<or> interrupt_complete_io fill env (Resources ts) ep limit tmo memres m s = (s', Returned (Inr (io, m'))) \<and> ty = 3) \<longrightarrow>
      (complete_read_some io stop self bufs m' = Some (Some (Suspended a)) \<and> run partial_step es a = Some w
         \<longrightarrow> goes_to ep ty tmo ts dir_in (tfers w))
      \<and> (complete_write_some io stop self bufs m' = Some (Some (Suspended a)) \<and> run partial_step es a = Some w
         \<longrightarrow> goes_to ep ty tmo ts dir_out (tfers w))
      \<and> (complete_read checked io stop self bufs m' = Some (Inr (Suspended b)) \<and> run complete_step es b = Some v
         \<longrightarrow> goes_to ep ty tmo ts dir_in (tfers v))
      \<and> (complete_write checked io stop self bufs m' = Some (Inr (Suspended b)) \<and> run complete_step es b = Some v
         \<longrightarrow> goes_to ep ty tmo ts dir_out (tfers v))
      \<and> (complete_write_eof checked io stop self bufs m' = Some (Inr (Suspended b)) \<and> run complete_step es b = Some v
         \<longrightarrow> goes_to ep ty tmo ts dir_out (tfers v)))"
proof -
  let ?P = "bulk_partial_io fill env (Resources ts) ep tmo m s = (s', Returned (Inr (pio, m'))) \<and> ty = 2
      \<or> interrupt_partial_io fill env (Resources ts) ep tmo m s = (s', Returned (Inr (pio, m'))) \<and> ty = 3"
  let ?C = "bulk_complete_io fill env (Resources ts) ep limit tmo memres m s = (s', Returned (Inr (io, m'))) \<and> ty = 2
      \<or> interrupt_complete_io fill env (Resources ts) ep limit tmo memres m s = (s', Returned (Inr (io, m'))) \<and> ty = 3"
  note store = typed_prefilled [OF assms] prefill_bulk_store [of fill] prefill_interrupt_store [of fill] assms
  have t: "typed_for ep ty tmo ts m' \<and> dp_direction pio = ep_direction ep" if ?P
    using that partial_object [of "ep_direction ep"] store
    by (fastforce simp: bulk_partial_io_def interrupt_partial_io_def)
  have u: "typed_for ep ty tmo ts m' \<and> dc_direction io = ep_direction ep" if ?C
    using that complete_object [of "ep_direction ep"] store
    by (fastforce simp: bulk_complete_io_def interrupt_complete_io_def)
  have p: "goes_to ep ty tmo ts dir (tfers w)"
    if ?P "only_for dir (dp_direction pio) (partial_submit stop self (pb_view (dp_stream pio)) bufs m') = Some (Some (Suspended a))"
      "run partial_step es a = Some w" "dir \<in> {dir_in, dir_out}" for dir
    using partial_goes_to [OF conjunct1 [OF t [OF that(1)]] _ that(3,4)] that(2) conjunct2 [OF t [OF that(1)]] by metis
  have q: "goes_to ep ty tmo ts dir (tfers w)"
    if ?C "only_for dir (dc_direction io) (partial_submit stop self (pb_view (dc_raw io)) bufs m') = Some (Some (Suspended a))"
      "run partial_step es a = Some w" "dir \<in> {dir_in, dir_out}" for dir
    using partial_goes_to [OF conjunct1 [OF u [OF that(1)]] _ that(3,4)] that(2) conjunct2 [OF u [OF that(1)]] by metis
  have r: "goes_to ep ty tmo ts dir (tfers v)"
    if ?C "only_for dir (dc_direction io) (complete_submit checked stop self (pb_view (dc_raw io)) bufs
          (cb_single_transfer_limit (dc_raw io)) m') = Some (Inr (Suspended b))"
      "run complete_step es b = Some v" "dir \<in> {dir_in, dir_out}" for dir
    using complete_goes_to [OF conjunct1 [OF u [OF that(1)]] _ that(3,4)] that(2) conjunct2 [OF u [OF that(1)]] by metis
  show ?thesis
    unfolding partial_read_some_def partial_write_some_def complete_read_some_def complete_write_some_def
      complete_read_def complete_write_def complete_write_eof_def
    by (intro conjI impI; elim conjE; (erule (2) p | erule (2) q | erule (2) r); simp only: insert_iff simp_thms)
qed

text \<open>An interrupt object with two transfers reads into three buffers of eight bytes, four at most per
  transfer; the first transfer comes back half full and goes out again.\<close>

definition ex_in_read :: "io_event list" where
  "ex_in_read = [Submit 0, Submit 0, Complete 4 \<lparr>c_status = 0, c_actual_length = 4, c_packets = []\<rparr> 0]"

definition ex_in_bufs :: "buffer list" where
  "ex_in_bufs = [\<lparr>buf_data = 100, buf_size = 8\<rparr>, \<lparr>buf_data = 200, buf_size = 8\<rparr>, \<lparr>buf_data = 300, buf_size = 8\<rparr>]"

definition ex_in_store :: tfer_store where
  "ex_in_store = upd_all (\<lambda>t. fill_as 3 t (endpoint_devh ex_ep) (addr ex_ep) 0 0 None None 0) [4, 5] (\<lambda>_. null_transfer)"

definition ex_in_read_ok :: bool where
  "ex_in_read_ok =
     (case complete_submit True False 9 (make_view (Resources [4, 5])) ex_in_bufs 4 ex_in_store of
        Inr (Suspended b) \<Rightarrow> run_sat complete_step ex_in_read b (\<lambda>v. outstanding v = {4, 5})
      | _ \<Rightarrow> False)"

lemma ex_in_read_ok: ex_in_read_ok
  by code_simp

lemma ex_in_object:
  "\<exists>s' io. interrupt_complete_io (fill_as 3) ex_env (Resources [4, 5]) ex_ep 4 0 7 (\<lambda>_. null_transfer) service_init
     = (s', Returned (Inr (io, ex_in_store)))
     \<and> dc_direction io = dir_in \<and> pb_view (dc_raw io) = make_view (Resources [4, 5])
     \<and> cb_single_transfer_limit (dc_raw io) = 4"
  by (simp add: interrupt_complete_io_def io_make_defs ex_env_def get_handler_service_def init_first emplace_first
      prefill_interrupt_store [OF fills_as_fill_as] ex_in_store_def ex_ep_def endpoint_defs partial_io_base.defs)

theorem transfers_keep_their_type_witness:
  "\<exists>s' io b v. interrupt_complete_io (fill_as 3) ex_env (Resources [4, 5]) ex_ep 4 0 7 (\<lambda>_. null_transfer) service_init
     = (s', Returned (Inr (io, ex_in_store)))
     \<and> complete_read True io False 9 ex_in_bufs ex_in_store = Some (Inr (Suspended b))
     \<and> run complete_step ex_in_read b = Some v \<and> destination (tfers v 4) = (Some 1, 0x82, 3, 0)"
proof -
  obtain s' io where io: "interrupt_complete_io (fill_as 3) ex_env (Resources [4, 5]) ex_ep 4 0 7
        (\<lambda>_. null_transfer) service_init = (s', Returned (Inr (io, ex_in_store)))"
      "dc_direction io = dir_in" "pb_view (dc_raw io) = make_view (Resources [4, 5])"
      "cb_single_transfer_limit (dc_raw io) = 4"
    using ex_in_object by blast
  obtain b v where r: "complete_submit True False 9 (make_view (Resources [4, 5])) ex_in_bufs 4 ex_in_store = Inr (Suspended b)"
      "run complete_step ex_in_read b = Some v"
    using ex_in_read_ok unfolding ex_in_read_ok_def
    by (auto simp: run_sat_def split: sum.splits suspension.splits option.splits)
  have read: "complete_read True io False 9 ex_in_bufs ex_in_store = Some (Inr (Suspended b))"
    using r(1) by (simp add: complete_read_def only_for_def io)
  have "goes_to ex_ep 3 0 [4, 5] dir_in (tfers v)"
    using transfers_keep_their_type [OF fills_as_fill_as, of 3, where checked = True] io(1) read r(2) by blast
  then have "destination (tfers v 4) = (Some 1, 0x82, 3, 0)"
    by (simp add: goes_to_def typed_for_def ex_ep_def endpoint_defs)
  then show ?thesis using io(1) read r(2) by blast
qed

section \<open>A read, from the object to libusb\<close>

text \<open>C24: a read of a bulk object hands to libusb, one per buffer and in order, as many transfers as there
  are buffers and transfers for them, each a bulk transfer of the object's endpoint, device and timeout
  with the window of its buffer, the callback of the library and the awaitable as its user data; a
  write on the same object is excluded by its direction.  In every state the read goes through, libusb
  holds no other transfers and these keep all that but the window; while there is no error no window
  that is no buffer's, or a second one for the same buffer, was handed over; and if it resumes without
  an error, one was for every buffer.\<close>

theorem bulk_read_submits_to_the_endpoint:
  assumes "bulk_partial_io fill env (Resources ts) ep tmo m s = (s', Returned (Inr (io, m')))"
    and "fills_as 2 fill" "ep_direction ep = dir_in" "distinct ts" "ts \<noteq> []" "length ts < 2 ^ 64" "bufs \<noteq> []"
  shows "partial_write_some io False self bufs m' = None
    \<and> (\<exists>a. partial_read_some io False self bufs m' = Some (Some (Suspended a))
        \<and> pa_to_submit a = take (length bufs) ts
        \<and> map (\<lambda>t. window (tfers a t)) (pa_to_submit a) = map buf_window (take (length ts) bufs)
        \<and> (\<forall>es w. run partial_step es a = Some w \<longrightarrow>
              outstanding w \<subseteq> set (pa_to_submit a)
              \<and> (\<forall>t \<in> set (pa_to_submit a). t_user_data (tfers w t) = Some self
                    \<and> t_callback (tfers w t) = Some Partial_Callback
                    \<and> destination (tfers w t) = (endpoint_devh ep, addr ep, 2, ucast tmo))
              \<and> (\<not> ec_bool (pa_ec w) \<longrightarrow> mset (log_windows w) \<subseteq># mset (map buf_window bufs))
              \<and> (\<not> ec_bool (pa_ec w) \<and> posts w = 1 \<longrightarrow> mset (log_windows w) = mset (map buf_window bufs))))"
proof -
  let ?v = "make_view (Resources ts)"
  let ?f = "\<lambda>t. fill t (endpoint_devh ep) (addr ep) 0 0 None None (ucast tmo)"
  have v: "view_ok ?v" using assms(4,6) by (rule view_ok_resources)
  obtain u r where u: "get_handler_service (se_init env) (se_spawn env) (se_block env) s = (u, r)" by fastforce
  have io: "dp_direction io = dir_in" "pb_view (dp_stream io) = ?v" "m' = upd_all ?f ts m"
    using assms(1) by (cases r; auto simp: bulk_partial_io_def io_make_defs u prefill_bulk_store [OF assms(2)] assms(3))+
  let ?a = "partial_start self ?v bufs m'"
  let ?xs = "used_tids bufs ?v"
  have read: "partial_read_some io False self bufs m' = Some (Some (Suspended ?a))"
    using partial_submit_eq [OF v] assms(7) by (simp add: partial_read_some_def only_for_def io(1,2))
  have xs: "?xs = take (length bufs) ts"
    by (simp add: used_tids_def transfers_used_def make_view_def view_size_def min_def)
  have d: "distinct ?xs" using v by (rule distinct_used_tids)
  have len: "length ?xs \<le> length bufs" by (simp add: xs)
  have "map (\<lambda>t. window (tfers ?a t)) ?xs = map buf_window (take (length ts) bufs)"
    using prepared_windows [OF d len, of self m'] by (simp add: xs min_def)
  moreover have "outstanding w \<subseteq> set ?xs \<and> (\<forall>t \<in> set ?xs. t_user_data (tfers w t) = Some self
        \<and> t_callback (tfers w t) = Some Partial_Callback
        \<and> destination (tfers w t) = (endpoint_devh ep, addr ep, 2, ucast tmo))
      \<and> (\<not> ec_bool (pa_ec w) \<longrightarrow> mset (log_windows w) \<subseteq># mset (map buf_window bufs))
      \<and> (\<not> ec_bool (pa_ec w) \<and> posts w = 1 \<longrightarrow> mset (log_windows w) = mset (map buf_window bufs))"
    if run: "run partial_step es ?a = Some w" for es w
  proof -
    have size: "0 < view_size ?v" using assms(5,6) by (simp add: make_view_def view_size_def)
    have type: "t_type (m' x) \<noteq> LIBUSB_TRANSFER_TYPE_ISOCHRONOUS" if "x \<in> set (sv_array ?v)" for x
      using that assms(2) by (simp add: io(3) make_view_def fills_as_def)
    have "partial_wf w \<and> partial_data w"
      using partial_data_machine.run_inv [OF run] partial_start_wf [OF v assms(7) size] partial_start_data [OF v type] by simp
    moreover have "pa_view w = ?v" "pa_bufs w = bufs" "pa_self w = self"
      using partial_run_frame [OF run] partial_self.run_inv [OF run] by simp_all
    moreover have "destination (tfers w t) = (endpoint_devh ep, addr ep, 2, ucast tmo)" if "t \<in> set ?xs" for t
    proof -
      have "destinations (tfers w) = destinations (tfers ?a)" using partial_typed.run_inv [OF run] by blast
      then have "destination (tfers w t) = destination (tfers ?a t)" by (metis destinations_def)
      moreover have "t \<in> set ts" using that used_tids_view by blast
      ultimately show ?thesis by (simp add: prepare_destination io(3) fills_as_destination [OF assms(2)])
    qed
    moreover have "mset (log_windows w) \<subseteq># mset (map buf_window bufs)"
      if eq: "mset (log_windows w) + X = mset (map buf_window (take n bufs))" for X n
    proof -
      have "mset (map buf_window bufs) = mset (map buf_window (take n bufs)) + mset (map buf_window (drop n bufs))"
        by (metis append_take_drop_id map_append mset_append)
      then have "mset (map buf_window bufs) = mset (log_windows w) + (X + mset (map buf_window (drop n bufs)))"
        unfolding eq [symmetric] by (simp only: add.assoc)
      then show ?thesis by simp
    qed
    moreover have "mset (log_windows w) = mset (map buf_window bufs)" if "\<not> ec_bool (pa_ec w)" "posts w = 1"
      using partial_success [OF v size assms(7) type run that(2,1)] by blast
    ultimately show ?thesis unfolding partial_wf_def partial_data_def by auto
  qed
  ultimately show ?thesis using read xs
    by (auto simp: partial_write_some_def only_for_def io(1))
qed

theorem bulk_read_submits_to_the_endpoint_witness:
  "\<exists>s' io m' a. bulk_partial_io (fill_as 2) ex_env (Resources [4, 5, 6]) ex_ep 0 (\<lambda>_. null_transfer) service_init
     = (s', Returned (Inr (io, m')))
     \<and> partial_read_some io False 9 [\<lparr>buf_data = 100, buf_size = 8\<rparr>, \<lparr>buf_data = 200, buf_size = 8\<rparr>] m'
         = Some (Some (Suspended a)) \<and> pa_to_submit a = [4, 5]"
proof -
  obtain s' io m' where b: "bulk_partial_io (fill_as 2) ex_env (Resources [4, 5, 6]) ex_ep 0 (\<lambda>_. null_transfer)
      service_init = (s', Returned (Inr (io, m')))"
    using ex_bulk by blast
  have "ep_direction ex_ep = dir_in" by (simp add: ex_ep_def endpoint_defs)
  from bulk_read_submits_to_the_endpoint [OF b fills_as_fill_as this]
  show ?thesis using b by fastforce
qed

end
