(* ===== verification/Buffer_Operation.thy ===== *)
theory Buffer_Operation
  imports Complete_Bytes Typed_Transfers
begin

text \<open>
  What a client of the library relies on when it awaits an operation on one buffer: the interface
  \<open>buffer_operation\<close>.  Both kinds of operation provide it: their completions walk through the buffer
  from its first byte on, and the operation reports how far they came.  The clients' lemmas about
  memory, for reads and for writes, are proved once, from the interface.
\<close>

section \<open>Memory\<close>

fun deposit :: "address \<Rightarrow> u8 list \<Rightarrow> (address \<Rightarrow> u8) \<Rightarrow> address \<Rightarrow> u8" where
  "deposit p [] mem = mem"
| "deposit p (d # ds) mem = deposit (p + 1) ds (mem(p := d))"

lemma segment_Suc: "segment p (Suc n) = p # segment (p + 1) n"
  using segment_append [of p 1 n] by (simp add: segment_def)

lemma in_segment: "a \<in> set (segment p n) \<longleftrightarrow> (\<exists>k<n. a = p + of_nat k)"
  by (auto simp: segment_def)

lemma segment_disjoint:
  assumes "m + n \<le> 2 ^ 64"
  shows "set (segment p m) \<inter> set (segment (p + of_nat m) n) = {}"
proof (rule ccontr)
  assume "set (segment p m) \<inter> set (segment (p + of_nat m) n) \<noteq> {}"
  then obtain k j where k: "k < m" "j < n" "p + of_nat k = p + of_nat m + of_nat j"
    by (auto simp: in_segment)
  then have "(of_nat k :: address) = of_nat (m + j)" by (simp add: add.assoc)
  moreover have "m + j < 2 ^ LENGTH(64)" "k < 2 ^ LENGTH(64)" using k(1,2) assms by simp_all
  ultimately have "k = m + j" by (metis of_nat_inverse)
  then show False using k(1) by simp
qed

lemma deposit_other: "a \<notin> set (segment p (length ds)) \<Longrightarrow> deposit p ds mem a = mem a"
proof (induction p ds mem rule: deposit.induct)
  case (2 p d ds mem)
  then show ?case by (simp add: segment_Suc fun_upd_def)
qed simp

lemma deposit_segment:
  "length ds < 2 ^ 64 \<Longrightarrow> map (deposit p ds mem) (segment p (length ds)) = ds"
proof (induction p ds mem rule: deposit.induct)
  case (2 p d ds mem)
  have "p \<notin> set (segment (p + 1) (length ds))"
    using segment_disjoint [of 1 "length ds" p] 2(2) by (auto simp: segment_Suc)
  then show ?case using 2 by (simp add: segment_Suc deposit_other fun_upd_def)
qed simp

text \<open>Bytes put behind those that are there.\<close>

lemma deposit_append:
  assumes "map mem (segment p n) = got" "n + length ds < 2 ^ 64"
  shows "map (deposit (p + of_nat n) ds mem) (segment p (n + length ds)) = got @ ds"
proof -
  have "map (deposit (p + of_nat n) ds mem) (segment p n) = map mem (segment p n)"
    using segment_disjoint [of n "length ds" p] assms(2) by (auto intro!: deposit_other)
  then show ?thesis using assms deposit_segment [of ds "p + of_nat n" mem]
    by (simp add: segment_append)
qed

text \<open>
  libusb puts the bytes \<open>ds\<close> that the device sent into the window of the transfer before it calls the
  callback.
\<close>

fun receive :: "io_event \<Rightarrow> u8 list \<Rightarrow> 'a io_base_scheme \<Rightarrow> (address \<Rightarrow> u8) \<Rightarrow> address \<Rightarrow> u8" where
  "receive (Complete x c rc) ds s mem = deposit (t_buffer (tfers s x)) ds mem"
| "receive _ ds s mem = mem"

fun io_data_ok :: "io_event \<Rightarrow> u8 list \<Rightarrow> bool" where
  "io_data_ok (Complete x c rc) ds \<longleftrightarrow> length ds = nat (sint (c_actual_length c))"
| "io_data_ok (Submit rc) ds \<longleftrightarrow> ds = []"
| "io_data_ok Stop ds \<longleftrightarrow> False"

section \<open>The interface\<close>

text \<open>
  \<open>moved\<close>: how many bytes the operation on buffer \<open>b\<close>, which goes through transfer \<open>x\<close>, has moved;
  \<open>resume\<close>: what it tells the coroutine.
\<close>

locale buffer_operation = machine step inv
  for step :: "io_event \<Rightarrow> 'a io_base_scheme \<Rightarrow> 'a io_base_scheme option" and inv +
  fixes x :: tid and b :: buffer
    and moved :: "'a io_base_scheme \<Rightarrow> nat"
    and resume :: "'a io_base_scheme \<Rightarrow> error_code \<times> size_t"
  assumes step_moved: "inv s \<Longrightarrow> step e s = Some t \<Longrightarrow> moved t = moved s + length (io_moved x e s)"
    and step_place: "inv s \<Longrightarrow> step e s = Some t \<Longrightarrow>
      io_moved x e s = segment (buf_data b + of_nat (moved s)) (length (io_moved x e s))"
    and step_only: "inv s \<Longrightarrow> step (Complete y c rc) s = Some t \<Longrightarrow>
      y = x \<and> t_buffer (tfers s x) = buf_data b + of_nat (moved s)"
    and fits: "inv s \<Longrightarrow> moved s \<le> unat (buf_size b)"
    and result: "inv s \<Longrightarrow> posts s = 1 \<Longrightarrow> snd (resume s) = of_nat (moved s)"
begin

text \<open>A read: the buffer begins with what the device sent.\<close>

lemma receive_bytes:
  assumes "inv s" "step e s = Some t" "io_data_ok e ds" "map mem (segment (buf_data b) (moved s)) = got"
  shows "map (receive e ds s mem) (segment (buf_data b) (moved t)) = got @ ds"
proof (cases e)
  case (Complete y c rc)
  then have y: "y = x" "t_buffer (tfers s x) = buf_data b + of_nat (moved s)"
    using step_only [of s y c rc t] assms(1,2) by simp_all
  have len: "moved t = moved s + length ds"
    using step_moved [OF assms(1,2)] assms(3) Complete y(1) by simp
  have "unat (buf_size b) < 2 ^ LENGTH(64)" by (rule unsigned_less)
  then have "moved s + length ds < 2 ^ 64" using fits [OF step_inv [OF assms(1,2)]] len by simp
  from deposit_append [OF assms(4) this] show ?thesis using Complete y len by simp
qed (use step_moved [OF assms(1,2)] assms(3,4) in simp_all)

text \<open>A write: what went to the device is the beginning of the buffer.\<close>

lemma send_bytes:
  assumes "inv s" "step e s = Some t" "map mem (segment (buf_data b) (moved s)) = sent"
  shows "map mem (segment (buf_data b) (moved t)) = sent @ map mem (io_moved x e s)"
proof -
  have "segment (buf_data b) (moved t) = segment (buf_data b) (moved s) @ io_moved x e s"
    using step_moved [OF assms(1,2)] step_place [OF assms(1,2)] by (simp add: segment_append)
  then show ?thesis using assms(3) by simp
qed

lemma result_unat:
  assumes "inv s" "posts s = 1"
  shows "unat (snd (resume s)) = moved s"
proof -
  have "unat (buf_size b) < 2 ^ LENGTH(64)" by (rule unsigned_less)
  then show ?thesis using result [OF assms] fits [OF assms(1)]
    by (simp add: unat_of_nat take_bit_nat_eq_self)
qed

end

section \<open>Partial operations\<close>

definition partial_conforming :: "io_event \<Rightarrow> partial_await \<Rightarrow> partial_await option" where
  "partial_conforming e s = (if io_conforms e s then partial_step e s else None)"

definition partial_one :: "tid \<Rightarrow> buffer \<Rightarrow> partial_await \<Rightarrow> bool" where
  "partial_one x b a \<longleftrightarrow> partial_wf a \<and> used_tids [b] (pa_view a) = [x] \<and> pa_bufs a = [b]
     \<and> pa_buf_current a = 1 \<and> unat (buf_size b) < 2 ^ 31 \<and> t_type (tfers a x) \<noteq> LIBUSB_TRANSFER_TYPE_ISOCHRONOUS
     \<and> (ec_bool (pa_ec a) \<longrightarrow> outstanding a = {} \<and> (pa_submitting a \<longrightarrow> pa_to_submit a = []))
     \<and> (outstanding a \<union> set (pa_to_submit a) \<noteq> {} \<longrightarrow> window (tfers a x) = buf_window b \<and> pa_total a = 0)
     \<and> unat (pa_total a) \<le> unat (buf_size b)"

text \<open>A view of one transfer, and an operation of one buffer on it.\<close>

lemma one_view:
  "view_ok (make_view (Resource x))" "view_size (make_view (Resource x)) = 1"
  "transfers_used [b] (make_view (Resource x)) = 1" "used_tids [b] (make_view (Resource x)) = [x]"
  "sv_array (make_view (Resource x)) = [x]"
  by (simp_all add: view_ok_def make_view_def view_size_def transfers_used_def used_tids_def)

lemma one_or_none: "A \<union> set xs \<subseteq> {x} \<Longrightarrow> A \<inter> set xs = {} \<Longrightarrow> A = {} \<or> xs = []"
  by (cases xs) auto

lemma partial_one_tid:
  assumes "partial_one x b a"
  shows "outstanding a \<subseteq> {x}" "outstanding a = {} \<or> pa_to_submit a = []"
proof -
  have wf: "partial_wf a" and u: "used_tids (pa_bufs a) (pa_view a) = [x]"
    using assms by (simp_all add: partial_one_def)
  have "outstanding a \<union> set (pa_to_submit a) \<subseteq> set (used_tids (pa_bufs a) (pa_view a))"
    using wf unfolding partial_wf_def by blast
  then have "outstanding a \<union> set (pa_to_submit a) \<subseteq> {x}" by (simp add: u)
  moreover have "outstanding a \<inter> set (pa_to_submit a) = {}"
    using wf unfolding partial_wf_def partial_stream.latch_def by blast
  ultimately show "outstanding a \<subseteq> {x}" "outstanding a = {} \<or> pa_to_submit a = []"
    using one_or_none [of "outstanding a" "pa_to_submit a" x] by simp_all
qed

lemma partial_one_start:
  assumes v: "view_ok v" and u: "used_tids [b] v = [x]" and size: "unat (buf_size b) < 2 ^ 31"
    and ty: "t_type (m x) \<noteq> LIBUSB_TRANSFER_TYPE_ISOCHRONOUS"
  shows "partial_one x b (partial_start self v [b] m)" "pa_total (partial_start self v [b] m) = 0"
proof -
  have one: "transfers_used [b] v = 1" using u length_used_tids [OF v, of "[b]"] by simp
  then have "0 < view_size v" by (simp add: transfers_used_def)
  then show "partial_one x b (partial_start self v [b] m)" "pa_total (partial_start self v [b] m) = 0"
    using partial_start_wf [OF v, of "[b]" self m] size ty
    by (simp_all add: partial_one_def u one partial_prepare_def window_def buf_window_def)
qed

lemma partial_one_complete:
  assumes r: "partial_one x b a" and y: "y \<in> outstanding a" and conf: "io_conforms (Complete y c rc) a"
  defines "t \<equiv> partial_after y c rc a"
  shows "partial_one x b t" "y = x" "t_buffer (tfers a x) = buf_data b" "pa_total a = 0"
    "unat (pa_total t) = nat (sint (c_actual_length c))"
proof -
  have wf: "partial_wf a" and v: "used_tids [b] (pa_view a) = [x]" "pa_bufs a = [b]" "pa_buf_current a = 1"
    and clean: "\<not> ec_bool (pa_ec a)" and win: "window (tfers a x) = buf_window b" "pa_total a = 0"
    and size: "unat (buf_size b) < 2 ^ 31" and ty: "t_type (tfers a x) \<noteq> LIBUSB_TRANSFER_TYPE_ISOCHRONOUS"
    using r y by (auto simp: partial_one_def)
  have wft: "partial_wf t" unfolding t_def using partial_step_wf [OF wf, of "Complete y c rc"] y by simp
  have yx: "y = x" "outstanding a = {x}" "pa_to_submit a = []" using partial_one_tid [OF r] y by auto
  have tot: "pa_total t = scast (c_actual_length c)" and out: "outstanding t = {}" and cur: "pa_buf_current t = 1"
    using clean ty v yx win(2) unfolding t_def partial_callback_unfold
    by (auto simp: partial_account_def split: prod.splits option.splits)
  have n: "0 \<le> sint (c_actual_length c)" "sint (c_actual_length c) \<le> sint (ucast (buf_size b) :: c_int)"
    "t_buffer (tfers a x) = buf_data b"
    using conf win by (simp_all add: io_conforms_def window_def buf_window_def yx(1))
  have len: "unat (pa_total t) = nat (sint (c_actual_length c))"
    unfolding tot using n(1) by (rule unat_scast_nonneg)
  have "partial_step (Complete y c rc) a = Some t" using y by (simp add: t_def)
  from fun_cong [OF partial_step_destinations [OF this], of x]
  have "t_type (tfers t x) = t_type (tfers a x)" by (simp add: destinations_def destination_def)
  moreover have "unat (pa_total t) \<le> unat (buf_size b)"
    using n(2) sint_ucast_small [OF size] len by linarith
  ultimately show "partial_one x b t"
    using wft v(1,2) cur out size ty yx(3) by (simp add: partial_one_def t_def partial_after_frame)
  show "y = x" "t_buffer (tfers a x) = buf_data b" "pa_total a = 0"
    "unat (pa_total t) = nat (sint (c_actual_length c))"
    using yx n win(2) len by simp_all
qed

lemma partial_one_step:
  assumes r: "partial_one x b a" and st: "partial_step e a = Some t" and conf: "io_conforms e a"
  shows "partial_one x b t \<and> unat (pa_total t) = unat (pa_total a) + length (io_moved x e a)
    \<and> io_moved x e a = segment (buf_data b + pa_total a) (length (io_moved x e a))"
proof (cases e)
  case (Submit rc)
  have wf: "partial_wf t" using partial_step_wf [OF _ st] r by (simp add: partial_one_def)
  obtain y ys where "pa_to_submit a = y # ys" and
    "t = a\<lparr>pa_ec := make_transfer_status rc, pa_submitting := False\<rparr> \<and> outstanding a = {}
     \<or> t = (libusb_accept y a)\<lparr>pa_to_submit := ys\<rparr> \<and> pa_submitting a"
    using st Submit partial_one_tid(2) [OF r] by (auto split: list.splits if_splits)
  then show ?thesis using r wf Submit by (auto simp: partial_one_def)
next
  case (Complete y c rc)
  then have y: "y \<in> outstanding a" and t: "t = partial_after y c rc a" using st by (auto split: if_splits)
  from partial_one_complete [OF r y] conf Complete show ?thesis by (simp add: t)
next
  case Stop
  have "partial_wf t" using partial_step_wf [OF _ st] r by (simp add: partial_one_def)
  moreover obtain xs where "t = a\<lparr>stopped := True, cancels := xs\<rparr>"
    using st Stop partial_stop_frame by (auto split: if_splits)
  ultimately show ?thesis using r Stop by (simp add: partial_one_def)
qed

interpretation partial_buffer: buffer_operation partial_conforming "partial_one x b" x b
  "\<lambda>a. unat (pa_total a)" partial_await_resume
proof (unfold_locales, goal_cases)
  case (4 s y c rc t)
  then show ?case using partial_one_complete [of x b s y c rc]
    by (auto simp: partial_conforming_def split: if_splits)
next
  case (5 s)
  then show ?case by (simp add: partial_one_def)
next
  case (6 s)
  then show ?case by (simp add: partial_await_resume_def)
qed (use partial_one_step in \<open>auto simp: partial_conforming_def split: if_splits\<close>)

section \<open>Complete operations\<close>

definition complete_one :: "tid \<Rightarrow> buffer \<Rightarrow> complete_await \<Rightarrow> bool" where
  "complete_one x b a \<longleftrightarrow> placed a \<and> used_tids [b] (ca_view a) = [x] \<and> ca_bufs a = [b]
     \<and> (ec_bool (ca_ec a) \<longrightarrow> outstanding a = {} \<and> (ca_submitting a \<longrightarrow> ca_to_submit a = []))"

definition one_moved :: "tid \<Rightarrow> complete_await \<Rightarrow> nat" where
  "one_moved x a = unat (pg_total (progress_of a x))"

lemma complete_one_tid:
  assumes "complete_one x b a"
  shows "outstanding a \<subseteq> {x}" "outstanding a = {} \<or> ca_to_submit a = []"
proof -
  have d: "complete_data a" and u: "complete_used a = [x]"
    using assms by (auto simp: complete_one_def placed_def)
  have "outstanding a \<union> set (ca_to_submit a) \<subseteq> set (complete_used a)"
    using d unfolding complete_data_def by blast
  then have "outstanding a \<union> set (ca_to_submit a) \<subseteq> {x}" by (simp only: u) simp
  moreover have "outstanding a \<inter> set (ca_to_submit a) = {}"
    using d unfolding complete_data_def complete_stream.latch_def by blast
  ultimately show "outstanding a \<subseteq> {x}" "outstanding a = {} \<or> ca_to_submit a = []"
    using one_or_none [of "outstanding a" "ca_to_submit a" x] by simp_all
qed

lemma complete_one_start:
  assumes v: "view_ok v" and u: "used_tids [b] v = [x]" and limit: "0 < limit" "unat limit < 2 ^ 31"
    and ty: "\<And>y. y \<in> set (sv_array v) \<Longrightarrow> t_type (m y) \<noteq> LIBUSB_TRANSFER_TYPE_ISOCHRONOUS"
  shows "complete_one x b (complete_start self v [b] limit m)"
    "one_moved x (complete_start self v [b] limit m) = 0"
proof -
  let ?a = "complete_start self v [b] limit m"
  have one: "transfers_used [b] v = 1" using u length_used_tids [OF v, of "[b]"] by simp
  then have size: "0 < view_size v" by (simp add: transfers_used_def)
  have "unat (buf_size b) < 2 ^ LENGTH(64)" by (rule unsigned_less)
  then have "complete_args v [b] limit" using v size limit by (simp add: complete_args_def)
  then have "placed ?a" by (rule start_placed) (use ty size in simp_all)
  then show "complete_one x b ?a" by (simp add: complete_one_def u)
  show "one_moved x ?a = 0"
    using start_progress [OF v, of 0 "[b]" self limit m]
    by (simp add: one_moved_def u one fresh_progress_def del: complete_start_simps(7))
qed

text \<open>The call: it suspends, or stop was requested and it reports that.\<close>

lemma complete_submit_one:
  assumes v: "view_ok v" and u: "used_tids [b] v = [x]" and limit: "0 < limit"
  shows "\<exists>a. complete_submit checked True self v [b] limit m = Inr (Not_Suspended a) \<and> ec_bool (ca_ec a)
      \<and> ca_states a = []"
    and "complete_submit checked False self v [b] limit m = Inr (Suspended (complete_start self v [b] limit m))"
proof -
  have one: "transfers_used [b] v = 1" using u length_used_tids [OF v, of "[b]"] by simp
  then have size: "0 < view_size v" by (simp add: transfers_used_def)
  show "complete_submit checked False self v [b] limit m = Inr (Suspended (complete_start self v [b] limit m))"
    by (simp add: complete_submit_Suspended [OF v] size limit)
  let ?a = "initial_complete_await self v [b] 1 limit m"
  have "complete_stop ?a = Some (?a\<lparr>stopped := True, cancels := [x]\<rparr>)"
    using used_tids_loop' [OF v, of "[b]"]
    by (simp add: complete_stop_def initial_complete_await_def one u)
  then show "\<exists>a. complete_submit checked True self v [b] limit m = Inr (Not_Suspended a) \<and> ec_bool (ca_ec a)
      \<and> ca_states a = []"
    using limit size by (simp add: complete_submit_def one complete_sequence_awaitable_def COUSB_ASSERT_def
        complete_await_ready_def complete_await_suspend_def initial_complete_await_def)
qed

text \<open>An operation that failed on its one transfer has nothing left to do.\<close>

lemma complete_one_failed:
  assumes w: "complete_one x b a" and st: "conforming_step e a = Some t" and e: "e \<noteq> Stop"
  shows "\<not> ec_bool (ca_ec a)" "ec_bool (ca_ec t) \<longrightarrow> outstanding t = {} \<and> (ca_submitting t \<longrightarrow> ca_to_submit t = [])"
proof -
  have d: "complete_data a" using w by (simp add: complete_one_def placed_def)
  have st': "complete_step e a = Some t" using st by (auto simp: conforming_step_def split: if_splits)
  have idle: "ec_bool (ca_ec a) \<longrightarrow> outstanding a = {} \<and> (ca_submitting a \<longrightarrow> ca_to_submit a = [])"
    using w by (simp add: complete_one_def)
  show clean: "\<not> ec_bool (ca_ec a)"
    using idle st' e by (cases e) (auto split: list.splits if_splits)
  show "ec_bool (ca_ec t) \<longrightarrow> outstanding t = {} \<and> (ca_submitting t \<longrightarrow> ca_to_submit t = [])"
  proof (cases e)
    case (Submit rc)
    then show ?thesis using st' clean complete_one_tid(2) [OF w] by (auto split: list.splits if_splits)
  next
    case (Complete y c rc)
    then have y: "y \<in> outstanding a" and t: "t = complete_after y c rc a" using st' by (auto split: if_splits)
    have y1: "outstanding a - {y} = {}" "ca_to_submit a = []" using complete_one_tid [OF w] y by auto
    have sub: "ca_to_submit t = ca_to_submit a"
      using complete_callback_law [OF y, of rc c] data_record [OF d y] by (simp add: t)
    have "outstanding t = {}" if "ec_bool (ca_ec t)"
      using that by (cases rule: completion_outcome [OF d y clean, of c rc])
        (auto simp: t Complete_Data.given_up_def resubmitted_def y1 clean split: if_splits)
    then show ?thesis using sub y1 by simp
  qed (use e in simp)
qed

lemma complete_one_moved:
  assumes w: "complete_one x b a"
  shows "one_moved x a \<le> unat (buf_size b)"
    and "posts a = 1 \<Longrightarrow> \<not> ec_bool (ca_ec a) \<Longrightarrow> one_moved x a = unat (buf_size b)"
proof -
  have d: "complete_data a" and one: "one_buffer_each a" using w by (simp_all add: complete_one_def placed_def)
  have b: "ca_bufs a = [b]" and u: "complete_used a = [x]" using w by (simp_all add: complete_one_def)
  have count: "bytes_counted a = one_moved x a" unfolding bytes_counted_def one_moved_def u by simp
  have size: "total_size (ca_bufs a) = unat (buf_size b)" by (simp add: b)
  show "one_moved x a \<le> unat (buf_size b)"
    using bytes_counted_le [OF d] total_size_take_le [of "ca_buf_current a" "ca_bufs a"] by (simp add: count size)
  assume "posts a = 1" and ec: "\<not> ec_bool (ca_ec a)"
  then have "outstanding a = {}" "ca_to_submit a = []"
    using d complete_stream.latch_posts by (auto simp: complete_data_def)
  then show "one_moved x a = unat (buf_size b)"
    using one_buffer_done [OF d one ec] reported_bytes [OF d] by (simp add: count size)
qed

lemma complete_one_step:
  assumes w: "complete_one x b a" and st: "conforming_step e a = Some t"
  shows "complete_one x b t \<and> one_moved x t = one_moved x a + length (io_moved x e a)
    \<and> io_moved x e a = segment (buf_data b + of_nat (one_moved x a)) (length (io_moved x e a))"
proof -
  have pl: "placed a" using w by (simp add: complete_one_def)
  have frame: "ca_view t = ca_view a" "ca_bufs t = ca_bufs a"
    using conforming_run_frame [OF conforming_run, of "[e]" a t] st by auto
  have xb: "(x, b) \<in> set (zip (complete_used a) (ca_bufs a))"
    using w unfolding complete_one_def by (metis list.set_intros(1) zip_Cons_Cons)
  show ?thesis
  proof (cases "e = Stop")
    case True
    then obtain xs where "t = a\<lparr>stopped := True, cancels := xs\<rparr>"
      using st by (auto simp: conforming_step_def complete_stop_def split: if_splits)
    then show ?thesis using w placed_step [OF pl st] True by (simp add: complete_one_def one_moved_def)
  next
    case False
    note failed = complete_one_failed [OF w st False]
    show ?thesis
      using w frame failed(2) placed_step [OF pl st] placed_bytes [OF pl st failed(1) xb]
      by (simp add: complete_one_def one_moved_def)
  qed
qed

interpretation complete_buffer: buffer_operation conforming_step "complete_one x b" x b
  "one_moved x" complete_await_resume
proof (unfold_locales, goal_cases)
  case (4 s y c rc t)
  then have y: "y \<in> outstanding s" by (auto simp: conforming_step_def split: if_splits)
  have u: "used_tids [b] (ca_view s) = [x]" "ca_bufs s = [b]" and p: "in_place s"
    using 4(1) by (simp_all add: complete_one_def placed_def)
  have "y = x" using complete_one_tid(1) [OF 4(1)] y by blast
  moreover have "(x, b) \<in> set (zip (complete_used s) (ca_bufs s))" by (simp add: u)
  ultimately show ?case using in_placeD [OF p, of x b] y by (simp add: one_moved_def)
next
  case (6 s)
  have d: "complete_data s" and u: "complete_used s = [x]"
    using 6(1) by (simp_all add: complete_one_def placed_def)
  have "unat (sum_totals (ca_states s)) = one_moved x s"
    using reported_bytes [OF d] unfolding bytes_counted_def one_moved_def u by simp
  from arg_cong [OF this, of "of_nat :: nat \<Rightarrow> size_t"] show ?case by (simp add: complete_await_resume_def)
qed (use complete_one_step complete_one_moved(1) in \<open>blast+\<close>)

section \<open>The objects\<close>

text \<open>What a constructor leaves, once it returned.\<close>

lemma prefill_bulk_resource:
  "prefill_bulk fill (Resource t) ep tmo m =
    Some (m(t := fill (m t) (endpoint_devh ep) (addr ep) 0 0 None None (ucast tmo)))"
  by (simp add: prefill_bulk_def prefill_loop_resource)

lemma bulk_partial_made:
  assumes "bulk_partial_io fill env seq ep tmo m s = (s', Returned r)" "prefill_bulk fill seq ep tmo m = Some m'"
  obtains io where "r = Inr (io, m')" "dp_direction io = ep_direction ep" "pb_view (dp_stream io) = make_view seq"
proof -
  obtain u q where "get_handler_service (se_init env) (se_spawn env) (se_block env) s = (u, q)" by fastforce
  then show ?thesis using assms that by (cases q) (auto simp: bulk_partial_io_def io_make_defs)
qed

lemma bulk_complete_made:
  assumes "bulk_complete_io fill env seq ep limit tmo memres m s = (s', Returned r)"
    and "prefill_bulk fill seq ep tmo m = Some m'"
  obtains io where "r = Inr (io, m')" "dc_direction io = ep_direction ep"
    "pb_view (dc_raw io) = make_view seq" "cb_single_transfer_limit (dc_raw io) = limit"
proof -
  obtain u q where "get_handler_service (se_init env) (se_spawn env) (se_block env) s = (u, q)" by fastforce
  then show ?thesis using assms that
    by (cases q) (auto simp: bulk_complete_io_def io_make_defs partial_io_base.defs)
qed

lemma act_bind_Returned:
  "act_bind r f = (s', Returned y) \<longleftrightarrow> (\<exists>s x. r = (s, Returned x) \<and> f x s = (s', Returned y))"
  by (cases r; cases "snd r") (auto simp: act_bind_def)

lemmas ep_simps = ep_in_def ep_out_def endpoint_defs endpoint_devh_def

end
