(* ===== verification/Echo.thy ===== *)
theory Echo
  imports Buffer_Operation "HOL-Library.Sublist"
begin

text \<open>
  A client of the library, \<open>src/examples/00-simple-echo.cpp\<close>: a coroutine that reads from an IN
  endpoint with a partial read and writes what it got to an OUT endpoint with a complete write, for
  ever.  It is modelled over the machines of the two operations, together with the memory of its
  buffer and the bytes the device sent and received.
\<close>

section \<open>State\<close>

text \<open>
  Where the coroutine is: at the condition of its loop, before the read, in it, before the write of
  \<open>n\<close> bytes, in it, at its end, or past an aborted assertion.  The two operations own the store of
  transfers while they run.
\<close>

datatype echo_phase =
    At_Loop | At_Read | Reading partial_await | At_Write size_t | Writing complete_await
  | Echo_Over | Echo_Aborted

record echo =
  ec_phase :: echo_phase
  ec_in :: direction_partial_io
  ec_out :: direction_complete_io
  ec_buf :: address
  ec_store :: tfer_store
  ec_stop :: bool
  ec_mem :: "address \<Rightarrow> u8"
  ec_got :: "u8 list"
  ec_sent :: "u8 list"

text \<open>\<open>sizeof(buf)\<close>, and the two buffers made over \<open>buf\<close>.\<close>

definition echo_size :: size_t where
  "echo_size = 1024"

definition read_buffer :: "echo \<Rightarrow> buffer" where
  "read_buffer s = \<lparr>buf_data = ec_buf s, buf_size = echo_size\<rparr>"

definition write_buffer :: "echo \<Rightarrow> size_t \<Rightarrow> buffer" where
  "write_buffer s n = \<lparr>buf_data = ec_buf s, buf_size = n\<rparr>"

text \<open>The locals before the loop: the objects over the transfers \<open>0\<close> and \<open>1\<close>.\<close>

definition echo_init ::
  "fill_fn \<Rightarrow> service_env \<Rightarrow> device_handle_source \<Rightarrow> address \<Rightarrow> (address \<Rightarrow> u8) \<Rightarrow> tfer_store
     \<Rightarrow> service \<Rightarrow> service \<times> (aborted + echo) act" where
  "echo_init fill env iface buf mem m s =
     act_bind (bulk_partial_io fill env (Resource 0) (ep_in 0x81 iface) 0 m s) (\<lambda>r s.
       case r of Inl a \<Rightarrow> (s, Returned (Inl a))
       | Inr (io_in, m) \<Rightarrow>
           act_bind (bulk_complete_io fill env (Resource 1) (ep_out 0x02 iface) echo_size 0 0 m s) (\<lambda>r s.
             case r of Inl a \<Rightarrow> (s, Returned (Inl a))
             | Inr (io_out, m) \<Rightarrow>
                 (s, Returned (Inr \<lparr>ec_phase = At_Loop, ec_in = io_in, ec_out = io_out, ec_buf = buf,
                   ec_store = m, ec_stop = False, ec_mem = mem, ec_got = [], ec_sent = []\<rparr>))))"

section \<open>The coroutine\<close>

text \<open>\<open>auto [rec, rn] = co_await in_tfer.read_some(...); if (rec) break;\<close>\<close>

definition after_read :: "error_code \<times> size_t \<Rightarrow> echo \<Rightarrow> echo" where
  "after_read r s = (case r of (rec, rn) \<Rightarrow> s\<lparr>ec_phase := if ec_bool rec then Echo_Over else At_Write rn\<rparr>)"

definition after_write :: "error_code \<times> size_t \<Rightarrow> echo \<Rightarrow> echo" where
  "after_write r s = (case r of (wec, wn) \<Rightarrow> s\<lparr>ec_phase := if ec_bool wec then Echo_Over else At_Loop\<rparr>)"

definition echo_read :: "nat \<Rightarrow> echo \<Rightarrow> echo" where
  "echo_read self s =
     (case partial_read_some (ec_in s) (ec_stop s) self [read_buffer s] (ec_store s) of
        Some (Some (Suspended a)) \<Rightarrow> s\<lparr>ec_phase := Reading a\<rparr>
      | Some (Some (Not_Suspended a)) \<Rightarrow> after_read (partial_await_resume a) s
      | _ \<Rightarrow> s\<lparr>ec_phase := Echo_Aborted\<rparr>)"

definition echo_write :: "bool \<Rightarrow> nat \<Rightarrow> size_t \<Rightarrow> echo \<Rightarrow> echo" where
  "echo_write checked self n s =
     (case complete_write checked (ec_out s) (ec_stop s) self [write_buffer s n] (ec_store s) of
        Some (Inr (Suspended a)) \<Rightarrow> s\<lparr>ec_phase := Writing a\<rparr>
      | Some (Inr (Not_Suspended a)) \<Rightarrow> after_write (complete_await_resume a) s
      | _ \<Rightarrow> s\<lparr>ec_phase := Echo_Aborted\<rparr>)"

section \<open>The machine\<close>

text \<open>
  \<open>E_Test\<close>: the condition of the loop; \<open>E_Io e ds\<close>: an event of the operation that runs, in which
  the device sends the bytes \<open>ds\<close> if it completes the read; \<open>E_Resume\<close>: the executor runs the
  posted continuation; \<open>E_Stop\<close>: stop is requested.  libusb puts the bytes into the window of the
  transfer before it calls the callback, and takes the bytes of a write from there.
\<close>

datatype echo_event = E_Test | E_Read nat | E_Write nat | E_Io io_event "u8 list" | E_Resume | E_Stop

definition received :: "io_event \<Rightarrow> u8 list \<Rightarrow> partial_await \<Rightarrow> echo \<Rightarrow> echo" where
  "received e ds a s = s\<lparr>ec_mem := receive e ds a (ec_mem s), ec_got := ec_got s @ ds\<rparr>"

definition echo_stop :: "echo \<Rightarrow> echo option" where
  "echo_stop s =
     (case ec_phase s of
        Reading a \<Rightarrow> map_option (\<lambda>a. s\<lparr>ec_stop := True, ec_phase := Reading a\<rparr>) (partial_step Stop a)
      | Writing a \<Rightarrow> map_option (\<lambda>a. s\<lparr>ec_stop := True, ec_phase := Writing a\<rparr>) (complete_step Stop a)
      | _ \<Rightarrow> Some (s\<lparr>ec_stop := True\<rparr>))"

fun echo_step :: "bool \<Rightarrow> echo_event \<Rightarrow> echo \<Rightarrow> echo option" where
  "echo_step checked E_Test s =
     (case ec_phase s of
        At_Loop \<Rightarrow> Some (s\<lparr>ec_phase := if ec_stop s then Echo_Over else At_Read\<rparr>) | _ \<Rightarrow> None)"
| "echo_step checked (E_Read self) s =
     (case ec_phase s of At_Read \<Rightarrow> Some (echo_read self s) | _ \<Rightarrow> None)"
| "echo_step checked (E_Write self) s =
     (case ec_phase s of At_Write n \<Rightarrow> Some (echo_write checked self n s) | _ \<Rightarrow> None)"
| "echo_step checked (E_Io e ds) s =
     (case ec_phase s of
        Reading a \<Rightarrow>
          if io_data_ok e ds
          then map_option (\<lambda>b. (received e ds a s)\<lparr>ec_phase := Reading b\<rparr>) (partial_conforming e a) else None
      | Writing a \<Rightarrow>
          if e \<noteq> Stop
          then map_option (\<lambda>b. s\<lparr>ec_phase := Writing b, ec_sent := ec_sent s @ map (ec_mem s) (io_moved 1 e a)\<rparr>)
                 (conforming_step e a)
          else None
      | _ \<Rightarrow> None)"
| "echo_step checked E_Resume s =
     (case ec_phase s of
        Reading a \<Rightarrow> if posts a = 1 then Some (after_read (partial_await_resume a) (s\<lparr>ec_store := tfers a\<rparr>)) else None
      | Writing a \<Rightarrow> if posts a = 1 then Some (after_write (complete_await_resume a) (s\<lparr>ec_store := tfers a\<rparr>)) else None
      | _ \<Rightarrow> None)"
| "echo_step checked E_Stop s = (if ec_stop s then None else echo_stop s)"

section \<open>Invariant\<close>

text \<open>What the constructors gave the two objects, and where the two transfers go throughout.\<close>

definition echo_objects :: "echo \<Rightarrow> bool" where
  "echo_objects s \<longleftrightarrow> dp_direction (ec_in s) = dir_in \<and> pb_view (dp_stream (ec_in s)) = make_view (Resource 0)
     \<and> dc_direction (ec_out s) = dir_out \<and> pb_view (dc_raw (ec_out s)) = make_view (Resource 1)
     \<and> cb_single_transfer_limit (dc_raw (ec_out s)) = echo_size"

definition echo_tfers :: "echo \<Rightarrow> tfer_store" where
  "echo_tfers s = (case ec_phase s of Reading a \<Rightarrow> tfers a | Writing a \<Rightarrow> tfers a | _ \<Rightarrow> ec_store s)"

definition addressed :: "devh \<Rightarrow> tfer_store \<Rightarrow> bool" where
  "addressed h m \<longleftrightarrow> destination (m 0) = (h, 0x81, 2, 0) \<and> destination (m 1) = (h, 0x02, 2, 0)"

text \<open>The last \<open>n\<close> bytes the device sent lie in the buffer and have not gone back yet.\<close>

definition pending :: "echo \<Rightarrow> size_t \<Rightarrow> bool" where
  "pending s n \<longleftrightarrow> unat n \<le> unat echo_size
     \<and> ec_got s = ec_sent s @ map (ec_mem s) (segment (ec_buf s) (unat n))"

definition reading_ok :: "echo \<Rightarrow> partial_await \<Rightarrow> bool" where
  "reading_ok s a \<longleftrightarrow> partial_one 0 (read_buffer s) a \<and> pending s (pa_total a)"

text \<open>A write of \<open>n\<close> bytes: what went back so far is the beginning of them.\<close>

definition writing_ok :: "echo \<Rightarrow> complete_await \<Rightarrow> bool" where
  "writing_ok s a \<longleftrightarrow> (\<exists>n base. complete_one 1 (write_buffer s n) a
     \<and> ec_got s = base @ map (ec_mem s) (segment (ec_buf s) (unat n))
     \<and> ec_sent s = base @ map (ec_mem s) (segment (ec_buf s) (one_moved 1 a)))"

fun phase_ok :: "echo \<Rightarrow> echo_phase \<Rightarrow> bool" where
  "phase_ok s At_Loop \<longleftrightarrow> ec_got s = ec_sent s"
| "phase_ok s At_Read \<longleftrightarrow> ec_got s = ec_sent s"
| "phase_ok s (Reading a) \<longleftrightarrow> reading_ok s a"
| "phase_ok s (At_Write n) \<longleftrightarrow> pending s n"
| "phase_ok s (Writing a) \<longleftrightarrow> writing_ok s a"
| "phase_ok s Echo_Over \<longleftrightarrow> prefix (ec_sent s) (ec_got s)"
| "phase_ok s Echo_Aborted \<longleftrightarrow> False"

definition echo_ok :: "devh \<Rightarrow> echo \<Rightarrow> bool" where
  "echo_ok h s \<longleftrightarrow> echo_objects s \<and> addressed h (echo_tfers s) \<and> phase_ok s (ec_phase s)"

lemma pending_frame [simp]:
  "pending (s\<lparr>ec_phase := p\<rparr>) n = pending s n" "pending (s\<lparr>ec_stop := st, ec_phase := p\<rparr>) n = pending s n"
  "pending (s\<lparr>ec_store := m\<rparr>) n = pending s n" "pending (s\<lparr>ec_stop := st\<rparr>) n = pending s n"
  by (simp_all add: pending_def)

lemma pending_prefix: "pending s n \<Longrightarrow> prefix (ec_sent s) (ec_got s)"
  by (auto simp: pending_def)

subsection \<open>The read\<close>

lemma echo_size_unat: "unat echo_size = 1024"
  by (simp add: echo_size_def)

lemma reading_start:
  assumes "ec_got s = ec_sent s" "t_type (m 0) = 2"
  shows "reading_ok s (partial_start self (make_view (Resource 0)) [read_buffer s] m)"
  using assms partial_one_start [OF one_view(1,4), of "read_buffer s" m 0 self]
  by (simp add: reading_ok_def pending_def read_buffer_def echo_size_unat)

lemma reading_step:
  assumes r: "reading_ok s a" and st: "partial_conforming e a = Some b" and ds: "io_data_ok e ds"
  shows "reading_ok (received e ds a s) b"
proof -
  have one: "partial_one 0 (read_buffer s) a" and p: "pending s (pa_total a)"
    using r by (simp_all add: reading_ok_def)
  have b: "partial_one 0 (read_buffer s) b" using one st by (rule partial_buffer.step_inv)
  have "map (receive e ds a (ec_mem s)) (segment (ec_buf s) (unat (pa_total b))) =
      map (ec_mem s) (segment (ec_buf s) (unat (pa_total a))) @ ds"
    using partial_buffer.receive_bytes [OF one st ds] by (simp add: read_buffer_def)
  then show ?thesis using b p partial_buffer.fits [OF b]
    by (simp add: reading_ok_def pending_def received_def read_buffer_def)
qed

lemma reading_stop:
  assumes r: "reading_ok s a" and st: "partial_step Stop a = Some b"
  shows "reading_ok (s\<lparr>ec_stop := True, ec_phase := p\<rparr>) b"
proof -
  have one: "partial_one 0 (read_buffer s) a" using r by (simp add: reading_ok_def)
  have st': "partial_conforming Stop a = Some b" using st by (simp add: partial_conforming_def io_conforms_def)
  obtain xs where "b = a\<lparr>stopped := True, cancels := xs\<rparr>" using st partial_stop_frame by (auto split: if_splits)
  then have "pa_total b = pa_total a" by simp
  then show ?thesis using r partial_buffer.step_inv [OF one st'] by (simp add: reading_ok_def read_buffer_def)
qed

lemma reading_done: "reading_ok s a \<Longrightarrow> pending s (snd (partial_await_resume a))"
  by (simp add: reading_ok_def partial_await_resume_def)

subsection \<open>The write\<close>

lemma writing_start:
  assumes p: "pending s n" and ty: "t_type (m 1) = 2"
  shows "writing_ok s (complete_start self (make_view (Resource 1)) [write_buffer s n] echo_size m)"
proof -
  have "complete_one 1 (write_buffer s n) (complete_start self (make_view (Resource 1)) [write_buffer s n] echo_size m)"
    "one_moved 1 (complete_start self (make_view (Resource 1)) [write_buffer s n] echo_size m) = 0"
    by (rule complete_one_start [OF one_view(1,4)]; use ty in \<open>simp add: echo_size_def one_view\<close>)+
  moreover have "ec_got s = ec_sent s @ map (ec_mem s) (segment (ec_buf s) (unat n))"
    using p by (simp add: pending_def)
  ultimately show ?thesis unfolding writing_ok_def by (intro exI conjI) simp_all
qed

lemma writing_step:
  assumes w: "writing_ok s a" and st: "conforming_step e a = Some b"
  shows "writing_ok (s\<lparr>ec_phase := p, ec_sent := ec_sent s @ map (ec_mem s) (io_moved 1 e a)\<rparr>) b"
proof -
  obtain n base where n: "complete_one 1 (write_buffer s n) a"
      "ec_got s = base @ map (ec_mem s) (segment (ec_buf s) (unat n))"
      "ec_sent s = base @ map (ec_mem s) (segment (ec_buf s) (one_moved 1 a))"
    using w by (auto simp: writing_ok_def)
  have "map (ec_mem s) (segment (ec_buf s) (one_moved 1 b)) =
      map (ec_mem s) (segment (ec_buf s) (one_moved 1 a)) @ map (ec_mem s) (io_moved 1 e a)"
    using complete_buffer.send_bytes [OF n(1) st refl] by (simp add: write_buffer_def)
  then show ?thesis using n(2,3) complete_buffer.step_inv [OF n(1) st]
    by (auto simp: writing_ok_def write_buffer_def)
qed

lemma writing_stop:
  assumes w: "writing_ok s a" and st: "complete_step Stop a = Some b"
  shows "writing_ok (s\<lparr>ec_stop := True, ec_phase := p\<rparr>) b"
proof -
  have "writing_ok (s\<lparr>ec_phase := p, ec_sent := ec_sent s @ map (ec_mem s) (io_moved 1 Stop a)\<rparr>) b"
    using w by (rule writing_step) (use st in \<open>simp add: conforming_step_def io_conforms_def\<close>)
  then show ?thesis by (simp add: writing_ok_def write_buffer_def)
qed

lemma writing_prefix:
  assumes "writing_ok s a"
  shows "prefix (ec_sent s) (ec_got s)"
proof -
  obtain n base where n: "complete_one 1 (write_buffer s n) a"
      "ec_got s = base @ map (ec_mem s) (segment (ec_buf s) (unat n))"
      "ec_sent s = base @ map (ec_mem s) (segment (ec_buf s) (one_moved 1 a))"
    using assms by (auto simp: writing_ok_def)
  have "one_moved 1 a \<le> unat n" using complete_one_moved(1) [OF n(1)] by (simp add: write_buffer_def)
  then obtain k where "unat n = one_moved 1 a + k" by (auto simp: le_iff_add)
  then show ?thesis by (simp add: n(2,3) segment_append)
qed

lemma writing_done:
  assumes "writing_ok s a" "posts a = 1" "\<not> ec_bool (ca_ec a)"
  shows "ec_got s = ec_sent s"
  using assms complete_one_moved(2) by (force simp: writing_ok_def write_buffer_def)

subsection \<open>Every step\<close>

lemma phase_frame [simp]:
  "reading_ok (s\<lparr>ec_phase := p\<rparr>) a = reading_ok s a" "writing_ok (s\<lparr>ec_phase := p\<rparr>) b = writing_ok s b"
  "received e ds a (s\<lparr>ec_phase := p\<rparr>) = (received e ds a s)\<lparr>ec_phase := p\<rparr>"
  "echo_objects (s\<lparr>ec_phase := p\<rparr>) = echo_objects s" "echo_objects (s\<lparr>ec_store := m\<rparr>) = echo_objects s"
  "echo_objects (s\<lparr>ec_stop := st\<rparr>) = echo_objects s" "echo_objects (s\<lparr>ec_sent := d\<rparr>) = echo_objects s"
  "echo_objects (received e ds a s) = echo_objects s"
  by (simp_all add: reading_ok_def writing_ok_def echo_objects_def read_buffer_def write_buffer_def received_def)

lemma addressed_same: "destinations m = destinations m' \<Longrightarrow> addressed h m = addressed h m'"
  by (simp add: addressed_def fun_eq_iff destinations_def)

lemma addressed_types: "addressed h m \<Longrightarrow> t_type (m 0) = 2 \<and> t_type (m 1) = 2"
  by (simp add: addressed_def destination_def)

lemma echo_read_ok:
  assumes ok: "echo_ok h s" and ph: "ec_phase s = At_Read"
  shows "echo_ok h (echo_read self s)"
proof -
  let ?v = "make_view (Resource 0)"
  have obj: "echo_objects s" and m: "addressed h (ec_store s)" and eq: "ec_got s = ec_sent s"
    using ok ph by (simp_all add: echo_ok_def echo_tfers_def)
  have call: "partial_read_some (ec_in s) (ec_stop s) self [read_buffer s] (ec_store s) =
      Some (partial_submit (ec_stop s) self ?v [read_buffer s] (ec_store s))"
    using obj by (simp add: partial_read_some_def only_for_def echo_objects_def)
  show ?thesis
  proof (cases "ec_stop s")
    case True
    then show ?thesis using obj m eq call
      by (simp add: echo_read_def partial_submit_eq [OF one_view(1)] after_read_def partial_await_resume_def
          echo_ok_def echo_tfers_def)
  next
    case False
    have "addressed h (tfers (partial_start self ?v [read_buffer s] (ec_store s)))"
      using m by (simp add: addressed_def prepare_destination)
    then show ?thesis using False obj reading_start [OF eq] addressed_types [OF m] call
      by (simp add: echo_read_def partial_submit_eq [OF one_view(1)] echo_ok_def echo_tfers_def)
  qed
qed

lemma echo_write_ok:
  assumes ok: "echo_ok h s" and ph: "ec_phase s = At_Write n"
  shows "echo_ok h (echo_write checked self n s)"
proof -
  let ?v = "make_view (Resource 1)"
  have obj: "echo_objects s" and m: "addressed h (ec_store s)" and p: "pending s n"
    using ok ph by (simp_all add: echo_ok_def echo_tfers_def)
  have call: "complete_write checked (ec_out s) (ec_stop s) self [write_buffer s n] (ec_store s) =
      Some (complete_submit checked (ec_stop s) self ?v [write_buffer s n] echo_size (ec_store s))"
    using obj by (simp add: complete_write_def only_for_def echo_objects_def)
  have pos: "0 < echo_size" by (simp add: echo_size_def)
  note submit = complete_submit_one [OF one_view(1,4) pos, where b = "write_buffer s n" and x = 1
    and checked = checked and self = self and m = "ec_store s"]
  show ?thesis
  proof (cases "ec_stop s")
    case True
    then show ?thesis using submit(1) obj m pending_prefix [OF p] call
      by (auto simp: echo_write_def after_write_def complete_await_resume_def echo_ok_def echo_tfers_def)
  next
    case False
    have one: "0 < transfers_used [write_buffer s n] ?v" by (simp add: one_view)
    have "addressed h (tfers (complete_start self ?v [write_buffer s n] echo_size (ec_store s)))"
      using m by (simp add: addressed_def one_view complete_prepare_def destination_window)
    then show ?thesis using False submit(2) obj writing_start [OF p] addressed_types [OF m] call
      by (simp add: echo_write_def echo_ok_def echo_tfers_def)
  qed
qed

lemma echo_io_ok:
  assumes ok: "echo_ok h s" and st: "echo_step checked (E_Io e ds) s = Some t"
  shows "echo_ok h t"
proof (cases "ec_phase s")
  case (Reading a)
  then obtain b where b: "partial_conforming e a = Some b" "io_data_ok e ds"
      "t = (received e ds a s)\<lparr>ec_phase := Reading b\<rparr>"
    using st by (auto split: if_splits)
  have "partial_step e a = Some b" using b(1) by (auto simp: partial_conforming_def split: if_splits)
  note same = addressed_same [OF partial_step_destinations [OF this]]
  have "reading_ok s a" using ok Reading by (simp add: echo_ok_def)
  then have "reading_ok (received e ds a s) b" using b(1,2) by (rule reading_step)
  then show ?thesis using ok Reading b(3) same
    by (simp add: echo_ok_def echo_tfers_def)
next
  case (Writing a)
  then obtain b where b: "conforming_step e a = Some b" "e \<noteq> Stop"
      "t = s\<lparr>ec_phase := Writing b, ec_sent := ec_sent s @ map (ec_mem s) (io_moved 1 e a)\<rparr>"
    using st by (auto split: if_splits)
  have "complete_step e a = Some b" using b(1) by (auto simp: conforming_step_def split: if_splits)
  note same = addressed_same [OF complete_step_destinations [OF this]]
  have "writing_ok s a" using ok Writing by (simp add: echo_ok_def)
  then have "writing_ok t b" unfolding b(3) using b(1) by (rule writing_step)
  then show ?thesis using ok Writing b(3) same
    by (simp add: echo_ok_def echo_tfers_def echo_objects_def)
qed (use st in simp_all)

lemma echo_resume_ok:
  assumes ok: "echo_ok h s" and st: "echo_step checked E_Resume s = Some t"
  shows "echo_ok h t"
proof (cases "ec_phase s")
  case (Reading a)
  then have a: "posts a = 1" "t = after_read (partial_await_resume a) (s\<lparr>ec_store := tfers a\<rparr>)"
    using st by (auto split: if_splits)
  have "pending s (snd (partial_await_resume a))" using reading_done ok Reading by (simp add: echo_ok_def)
  then show ?thesis using ok Reading pending_prefix
    by (auto simp: a(2) after_read_def echo_ok_def echo_tfers_def split: prod.splits)
next
  case (Writing a)
  then have a: "posts a = 1" "t = after_write (complete_await_resume a) (s\<lparr>ec_store := tfers a\<rparr>)"
    using st by (auto split: if_splits)
  have "writing_ok s a" using ok Writing by (simp add: echo_ok_def)
  then show ?thesis using ok Writing writing_done [of s a] writing_prefix [of s a] a(1)
    by (auto simp: a(2) after_write_def complete_await_resume_def echo_ok_def echo_tfers_def)
qed (use st in simp_all)

lemma echo_stop_ok:
  assumes ok: "echo_ok h s" and st: "echo_stop s = Some t"
  shows "echo_ok h t"
proof (cases "ec_phase s")
  case (Reading a)
  then obtain b where b: "partial_step Stop a = Some b" "t = s\<lparr>ec_stop := True, ec_phase := Reading b\<rparr>"
    using st by (auto simp: echo_stop_def simp del: partial_step.simps)
  then show ?thesis using ok Reading reading_stop [OF _ b(1)] addressed_same [OF partial_step_destinations [OF b(1)]]
    by (simp add: echo_ok_def echo_tfers_def del: partial_step.simps)
next
  case (Writing a)
  then obtain b where b: "complete_step Stop a = Some b" "t = s\<lparr>ec_stop := True, ec_phase := Writing b\<rparr>"
    using st by (auto simp: echo_stop_def simp del: complete_step.simps)
  then show ?thesis using ok Writing writing_stop [OF _ b(1)] addressed_same [OF complete_step_destinations [OF b(1)]]
    by (simp add: echo_ok_def echo_tfers_def del: complete_step.simps)
qed (use ok st in \<open>auto simp: echo_stop_def echo_ok_def echo_tfers_def\<close>)

lemma echo_step_ok:
  assumes ok: "echo_ok h s" and st: "echo_step checked e s = Some t"
  shows "echo_ok h t"
proof (cases e)
  case E_Test
  then have "ec_phase s = At_Loop" "t = s\<lparr>ec_phase := if ec_stop s then Echo_Over else At_Read\<rparr>"
    using st by (auto split: echo_phase.splits)
  then show ?thesis using ok by (cases "ec_stop s") (simp_all add: echo_ok_def echo_tfers_def)
next
  case (E_Read self)
  then show ?thesis using echo_read_ok [OF ok] st by (auto split: echo_phase.splits)
next
  case (E_Write self)
  then show ?thesis using echo_write_ok [OF ok] st by (auto split: echo_phase.splits)
next
  case (E_Io e ds)
  then show ?thesis using echo_io_ok [OF ok] st by blast
next
  case E_Resume
  then show ?thesis using echo_resume_ok [OF ok] st by blast
next
  case E_Stop
  then show ?thesis using echo_stop_ok [OF ok] st by (auto split: if_splits)
qed

interpretation echo_machine: machine "echo_step checked" "echo_ok h"
  by unfold_locales (rule echo_step_ok)

section \<open>Properties\<close>

lemma echo_init_ok:
  assumes "echo_init fill env iface buf mem m svc = (svc', Returned (Inr s))" "fills_as 2 fill"
  shows "echo_ok (device_handle_of iface) s \<and> ec_phase s = At_Loop"
  using assms(1) fills_as_destination [OF assms(2)]
  by (auto simp: echo_init_def act_bind_Returned ep_simps echo_ok_def echo_objects_def echo_tfers_def addressed_def
      elim!: bulk_partial_made [OF _ prefill_bulk_resource] bulk_complete_made [OF _ prefill_bulk_resource])

text \<open>C6: the echo program is faithful: whatever the timing, the failures and the sizes of the completions,
  as long as libusb keeps to the windows it was given, the bytes the device got back are at every
  moment a beginning of those it sent, in order; at the condition of the loop they are all of them.
  No assertion of the library fails, and both transfers always go to the two endpoints of the
  claimed device.\<close>

theorem echo_returns_what_it_reads:
  assumes "echo_init fill env iface buf mem m svc = (svc', Returned (Inr s0))" and "fills_as 2 fill"
    and "run (echo_step checked) es s0 = Some s"
  shows "prefix (ec_sent s) (ec_got s) \<and> (ec_phase s = At_Loop \<longrightarrow> ec_sent s = ec_got s)
    \<and> ec_phase s \<noteq> Echo_Aborted
    \<and> destination (echo_tfers s 0) = (device_handle_of iface, 0x81, 2, 0)
    \<and> destination (echo_tfers s 1) = (device_handle_of iface, 0x02, 2, 0)"
proof -
  have ok: "echo_ok (device_handle_of iface) s"
    using echo_machine.run_inv [OF assms(3)] echo_init_ok [OF assms(1,2)] by blast
  have "prefix (ec_sent s) (ec_got s)"
  proof (cases "ec_phase s")
    case (Reading a)
    then show ?thesis using ok pending_prefix by (auto simp: echo_ok_def reading_ok_def)
  next
    case (Writing a)
    then show ?thesis using ok writing_prefix by (auto simp: echo_ok_def)
  qed (use ok pending_prefix in \<open>auto simp: echo_ok_def\<close>)
  then show ?thesis using ok by (auto simp: echo_ok_def addressed_def)
qed

text \<open>The device sends three bytes; the write is accepted in two pieces.\<close>

definition ex_echo_run :: "echo_event list" where
  "ex_echo_run = [E_Test, E_Read 7, E_Io (Submit 0) [], E_Io (Complete 0 (ex_done 0 3) 0) [65, 66, 67], E_Resume,
     E_Write 8, E_Io (Submit 0) [], E_Io (Complete 1 (ex_done 0 2) 0) [], E_Io (Complete 1 (ex_done 0 1) 0) [],
     E_Resume]"

definition ex_echo :: "service \<times> (aborted + echo) act" where
  "ex_echo = echo_init (fill_as 2) ex_env (Pointer_Source (Raw_Pointer (Some 1))) 100 (\<lambda>_. 0)
     (\<lambda>_. null_transfer) service_init"

definition ex_echo_sat :: bool where
  "ex_echo_sat = (case snd ex_echo of
     Returned (Inr s0) \<Rightarrow>
       run_sat (echo_step True) ex_echo_run s0 (\<lambda>s. ec_got s = [65, 66, 67] \<and> (case ec_phase s of At_Loop \<Rightarrow> True | _ \<Rightarrow> False))
   | _ \<Rightarrow> False)"

lemma ex_echo_sat: "ex_echo_sat"
  by code_simp

theorem echo_returns_what_it_reads_witness:
  "\<exists>s0 s. snd ex_echo = Returned (Inr s0) \<and> run (echo_step True) ex_echo_run s0 = Some s \<and> ec_sent s = [65, 66, 67]"
proof -
  obtain s0 where s0: "snd ex_echo = Returned (Inr s0)"
      "run_sat (echo_step True) ex_echo_run s0 (\<lambda>s. ec_got s = [65, 66, 67] \<and> (case ec_phase s of At_Loop \<Rightarrow> True | _ \<Rightarrow> False))"
    using ex_echo_sat by (auto simp: ex_echo_sat_def split: act.splits sum.splits)
  obtain s where s: "run (echo_step True) ex_echo_run s0 = Some s" "ec_got s = [65, 66, 67]"
      "case ec_phase s of At_Loop \<Rightarrow> True | _ \<Rightarrow> False"
    using run_satD [OF s0(2)] by blast
  have "ec_phase s = At_Loop" using s(3) by (cases "ec_phase s") simp_all
  moreover have "ex_echo = (fst ex_echo, Returned (Inr s0))" using s0(1) by (metis prod.collapse)
  note echo_returns_what_it_reads [OF this [unfolded ex_echo_def] fills_as_fill_as s(1)]
  ultimately show ?thesis using s0(1) s(1,2) by auto
qed

end
