(* ===== verification/Polling.thy ===== *)
theory Polling
  imports Buffer_Operation
begin

text \<open>
  A client of the library, \<open>src/examples/01-multiple-transfers.cpp\<close>: several coroutines
  \<open>process_transfer\<close> side by side, each with a transfer and a buffer of its own, all reading from the
  same endpoint of one claimed interface, until stop is requested for all of them.
\<close>

section \<open>One coroutine\<close>

text \<open>At the condition of the loop, before the read, in it, at the end, or past an aborted assertion.\<close>

datatype poll_phase = Poll_Test | Poll_Call | Poll_Reading partial_await | Poll_Done | Poll_Aborted

datatype poll_line = Got_Error error_code | Got_Data "u8 list" | Gracefully_Exited

text \<open>
  \<open>po_out\<close>: what it printed.  For stating properties, \<open>po_reads\<close> are the reads that ended, with the
  bytes the device sent in them, and \<open>po_current\<close> those it sent so far in the one that has not.
\<close>

record polling =
  po_phase :: poll_phase
  po_io :: direction_partial_io
  po_tfer :: tid
  po_data :: address
  po_store :: tfer_store
  po_stop :: bool
  po_mem :: "address \<Rightarrow> u8"
  po_out :: "poll_line list"
  po_reads :: "(error_code \<times> u8 list) list"
  po_current :: "u8 list"

definition poll_init ::
  "fill_fn \<Rightarrow> service_env \<Rightarrow> device_handle_source \<Rightarrow> (address \<Rightarrow> u8) \<Rightarrow> tfer_store \<Rightarrow> tid \<times> address
     \<Rightarrow> service \<Rightarrow> service \<times> (aborted + polling) act" where
  "poll_init fill env iface mem m frame s =
     (case frame of (t, data) \<Rightarrow>
        act_bind (bulk_partial_io fill env (Resource t) (ep_in 0x81 iface) 50 m s) (\<lambda>r s.
          (s, Returned (map_sum id (\<lambda>(io, m). \<lparr>po_phase = Poll_Test, po_io = io, po_tfer = t, po_data = data,
                po_store = m, po_stop = False, po_mem = mem, po_out = [], po_reads = [], po_current = []\<rparr>) r))))"

definition poll_buffer :: "polling \<Rightarrow> buffer" where
  "poll_buffer s = \<lparr>buf_data = po_data s, buf_size = 1024\<rparr>"

definition poll_test :: "polling \<Rightarrow> polling" where
  "poll_test s =
     (if po_stop s then s\<lparr>po_out := po_out s @ [Gracefully_Exited], po_phase := Poll_Done\<rparr>
      else s\<lparr>po_phase := Poll_Call\<rparr>)"

text \<open>The body of the loop behind the read.\<close>

definition poll_result :: "error_code \<times> size_t \<Rightarrow> polling \<Rightarrow> polling" where
  "poll_result r s =
     (case r of (ec, n) \<Rightarrow>
        s\<lparr>po_out := po_out s @
            [if ec_bool ec then Got_Error ec else Got_Data (map (po_mem s) (segment (po_data s) (unat n)))],
          po_phase := Poll_Test, po_reads := po_reads s @ [(ec, po_current s)], po_current := []\<rparr>)"

definition poll_call :: "nat \<Rightarrow> polling \<Rightarrow> polling" where
  "poll_call self s =
     (case partial_read_some (po_io s) (po_stop s) self [poll_buffer s] (po_store s) of
        Some (Some (Suspended a)) \<Rightarrow> s\<lparr>po_phase := Poll_Reading a\<rparr>
      | Some (Some (Not_Suspended a)) \<Rightarrow> poll_result (partial_await_resume a) s
      | _ \<Rightarrow> s\<lparr>po_phase := Poll_Aborted\<rparr>)"

text \<open>
  \<open>Po_Io e ds\<close>: an event of the read, in which the device sends the bytes \<open>ds\<close>; \<open>Po_Cancel\<close>: the stop
  callback of the read, which runs some time after stop was requested.
\<close>

datatype poll_event = Po_Test | Po_Call nat | Po_Io io_event "u8 list" | Po_Cancel | Po_Resume

fun poll_step :: "poll_event \<Rightarrow> polling \<Rightarrow> polling option" where
  "poll_step Po_Test s = (case po_phase s of Poll_Test \<Rightarrow> Some (poll_test s) | _ \<Rightarrow> None)"
| "poll_step (Po_Call self) s = (case po_phase s of Poll_Call \<Rightarrow> Some (poll_call self s) | _ \<Rightarrow> None)"
| "poll_step (Po_Io e ds) s =
     (case po_phase s of
        Poll_Reading a \<Rightarrow>
          if io_data_ok e ds
          then map_option (\<lambda>b. s\<lparr>po_phase := Poll_Reading b, po_mem := receive e ds a (po_mem s),
                                 po_current := po_current s @ ds\<rparr>) (partial_conforming e a)
          else None
      | _ \<Rightarrow> None)"
| "poll_step Po_Cancel s =
     (case po_phase s of
        Poll_Reading a \<Rightarrow>
          if po_stop s then map_option (\<lambda>b. s\<lparr>po_phase := Poll_Reading b\<rparr>) (partial_conforming Stop a) else None
      | _ \<Rightarrow> None)"
| "poll_step Po_Resume s =
     (case po_phase s of
        Poll_Reading a \<Rightarrow>
          if posts a = 1 then Some (poll_result (partial_await_resume a) (s\<lparr>po_store := tfers a\<rparr>)) else None
      | _ \<Rightarrow> None)"


section \<open>All of them\<close>

text \<open>The loop of \<open>main\<close>: the service is passed on from coroutine to coroutine; each has its frame.\<close>

fun start_pollers ::
  "fill_fn \<Rightarrow> service_env \<Rightarrow> device_handle_source \<Rightarrow> (address \<Rightarrow> u8) \<Rightarrow> tfer_store \<Rightarrow> (tid \<times> address) list
     \<Rightarrow> service \<Rightarrow> service \<times> (aborted + polling list) act" where
  "start_pollers fill env iface mem m [] s = (s, Returned (Inr []))"
| "start_pollers fill env iface mem m (f # fs) s =
     act_bind (poll_init fill env iface mem m f s) (\<lambda>r s.
       case r of Inl a \<Rightarrow> (s, Returned (Inl a))
       | Inr p \<Rightarrow> act_bind (start_pollers fill env iface mem m fs s) (\<lambda>r s.
           (s, Returned (map_sum id (\<lambda>ps. p # ps) r))))"

text \<open>\<open>All_Stop\<close>: stop is requested at the source whose token all coroutines were given.\<close>

datatype pollers_event = Only nat poll_event | All_Stop

fun pollers_step :: "pollers_event \<Rightarrow> polling list \<Rightarrow> polling list option" where
  "pollers_step (Only i e) ss =
     (if i < length ss then map_option (\<lambda>t. ss[i := t]) (poll_step e (ss ! i)) else None)"
| "pollers_step All_Stop ss =
     (if list_all po_stop ss then None else Some (map (\<lambda>s. s\<lparr>po_stop := True\<rparr>) ss))"

section \<open>Invariant\<close>

definition poll_line :: "error_code \<times> u8 list \<Rightarrow> poll_line" where
  "poll_line r = (case r of (ec, ds) \<Rightarrow> if ec_bool ec then Got_Error ec else Got_Data ds)"

definition poll_done :: "polling \<Rightarrow> bool" where
  "poll_done s \<longleftrightarrow> (case po_phase s of Poll_Done \<Rightarrow> True | _ \<Rightarrow> False)"

definition poll_tfers :: "polling \<Rightarrow> tfer_store" where
  "poll_tfers s = (case po_phase s of Poll_Reading a \<Rightarrow> tfers a | _ \<Rightarrow> po_store s)"

fun poll_phase_ok :: "polling \<Rightarrow> poll_phase \<Rightarrow> bool" where
  "poll_phase_ok s (Poll_Reading a) \<longleftrightarrow> partial_one (po_tfer s) (poll_buffer s) a
     \<and> map (po_mem s) (segment (po_data s) (unat (pa_total a))) = po_current s"
| "poll_phase_ok s Poll_Done \<longleftrightarrow> po_stop s \<and> po_current s = []"
| "poll_phase_ok s Poll_Aborted \<longleftrightarrow> False"
| "poll_phase_ok s _ \<longleftrightarrow> po_current s = []"

definition poll_ok :: "devh \<Rightarrow> polling \<Rightarrow> bool" where
  "poll_ok h s \<longleftrightarrow> dp_direction (po_io s) = dir_in \<and> pb_view (dp_stream (po_io s)) = make_view (Resource (po_tfer s))
     \<and> destination (poll_tfers s (po_tfer s)) = (h, 0x81, 2, 50)
     \<and> po_out s = map poll_line (po_reads s) @ (if poll_done s then [Gracefully_Exited] else [])
     \<and> poll_phase_ok s (po_phase s)"

lemma poll_result_ok:
  assumes ok: "poll_ok h s" and r: "\<not> ec_bool ec \<Longrightarrow> map (po_mem s) (segment (po_data s) (unat n)) = po_current s"
    and ph: "\<And>a. po_phase s = Poll_Reading a \<Longrightarrow> po_store s = tfers a" "\<not> poll_done s"
  shows "poll_ok h (poll_result (ec, n) s)"
proof -
  have "poll_tfers s = po_store s" using ph(1) by (auto simp: poll_tfers_def split: poll_phase.splits)
  then show ?thesis using ok r ph(2)
    by (auto simp: poll_result_def poll_ok_def poll_line_def poll_tfers_def poll_done_def)
qed

lemma poll_call_cases:
  assumes "poll_ok h s" "po_phase s = Poll_Call"
  obtains "po_stop s" "poll_call self s = poll_result (make_transfer_status (status_value St_cancelled), 0) s"
    | "\<not> po_stop s" "poll_call self s = s\<lparr>po_phase := Poll_Reading
        (partial_start self (make_view (Resource (po_tfer s))) [poll_buffer s] (po_store s))\<rparr>"
proof -
  have "partial_read_some (po_io s) (po_stop s) self [poll_buffer s] (po_store s) =
      Some (partial_submit (po_stop s) self (make_view (Resource (po_tfer s))) [poll_buffer s] (po_store s))"
    using assms by (simp add: partial_read_some_def only_for_def poll_ok_def)
  then show ?thesis using that
    by (cases "po_stop s") (auto simp: poll_call_def partial_submit_eq [OF one_view(1)] partial_await_resume_def
        partial_stopped_start_def sequence_awaitable_def)
qed

lemma poll_call_ok:
  assumes ok: "poll_ok h s" and ph: "po_phase s = Poll_Call"
  shows "poll_ok h (poll_call self s)"
proof (cases rule: poll_call_cases [OF ok ph, of self])
  case 1
  have "po_current s = []" using ok ph by (simp add: poll_ok_def)
  then show ?thesis unfolding 1(2) by (intro poll_result_ok [OF ok]) (simp_all add: ph poll_done_def)
next
  case 2
  let ?a = "partial_start self (make_view (Resource (po_tfer s))) [poll_buffer s] (po_store s)"
  have dest: "destination (po_store s (po_tfer s)) = (h, 0x81, 2, 50)"
    using ok ph by (simp add: poll_ok_def poll_tfers_def)
  then have ty: "t_type (po_store s (po_tfer s)) \<noteq> LIBUSB_TRANSFER_TYPE_ISOCHRONOUS" by (simp add: destination_def)
  have "unat (buf_size (poll_buffer s)) < 2 ^ 31" by (simp add: poll_buffer_def)
  note start = partial_one_start [where m = "po_store s" and x = "po_tfer s", OF one_view(1,4) this ty, of self]
  have "destination (tfers ?a (po_tfer s)) = (h, 0x81, 2, 50)" using dest by (simp add: prepare_destination)
  then show ?thesis unfolding 2(2) using ok ph start
    by (simp add: poll_ok_def poll_tfers_def poll_done_def poll_buffer_def)
qed

lemma poll_step_ok:
  assumes ok: "poll_ok h s" and st: "poll_step e s = Some t"
  shows "poll_ok h t"
proof (cases e)
  case Po_Test
  with st obtain "po_phase s = Poll_Test" "t = poll_test s" by (auto split: poll_phase.splits)
  then show ?thesis using ok by (auto simp: poll_test_def poll_ok_def poll_tfers_def poll_done_def)
next
  case (Po_Call self)
  with st have "po_phase s = Poll_Call" "t = poll_call self s" by (auto split: poll_phase.splits)
  then show ?thesis using poll_call_ok [OF ok] by simp
next
  case (Po_Io e ds)
  with st obtain a b where a: "po_phase s = Poll_Reading a" "io_data_ok e ds" "partial_conforming e a = Some b"
      "t = s\<lparr>po_phase := Poll_Reading b, po_mem := receive e ds a (po_mem s), po_current := po_current s @ ds\<rparr>"
    by (auto split: poll_phase.splits if_splits)
  have one: "partial_one (po_tfer s) (poll_buffer s) a"
    and cur: "map (po_mem s) (segment (buf_data (poll_buffer s)) (unat (pa_total a))) = po_current s"
    using ok a(1) by (simp_all add: poll_ok_def poll_buffer_def)
  have "partial_step e a = Some b" using a(3) by (auto simp: partial_conforming_def split: if_splits)
  note same = fun_cong [OF partial_step_destinations [OF this], of "po_tfer s"]
  show ?thesis
    using ok a same partial_buffer.step_inv [OF one a(3)] partial_buffer.receive_bytes [OF one a(3,2) cur]
    by (simp add: poll_ok_def poll_tfers_def poll_done_def poll_buffer_def destinations_def)
next
  case Po_Cancel
  with st obtain a b where a: "po_phase s = Poll_Reading a" "partial_conforming Stop a = Some b"
      "t = s\<lparr>po_phase := Poll_Reading b\<rparr>"
    by (auto split: poll_phase.splits if_splits)
  have one: "partial_one (po_tfer s) (poll_buffer s) a" using ok a(1) by (simp add: poll_ok_def)
  obtain xs where b: "b = a\<lparr>stopped := True, cancels := xs\<rparr>"
    using a(2) partial_stop_frame by (auto simp: partial_conforming_def split: if_splits)
  show ?thesis using ok a(1,3) b partial_buffer.step_inv [OF one a(2)]
    by (simp add: poll_ok_def poll_tfers_def poll_done_def poll_buffer_def)
next
  case Po_Resume
  with st obtain a where a: "po_phase s = Poll_Reading a" "posts a = 1"
      "t = poll_result (partial_await_resume a) (s\<lparr>po_store := tfers a\<rparr>)"
    by (auto split: poll_phase.splits if_splits)
  have "poll_ok h (s\<lparr>po_store := tfers a\<rparr>)"
    using ok a(1) by (simp add: poll_ok_def poll_tfers_def poll_done_def poll_buffer_def)
  then show ?thesis unfolding a(3) partial_await_resume_def
    by (rule poll_result_ok) (use ok a(1) in \<open>simp_all add: poll_ok_def poll_done_def\<close>)
qed

lemma pollers_step_ok:
  assumes ok: "list_all (poll_ok h) ss" and st: "pollers_step e ss = Some ts"
  shows "list_all (poll_ok h) ts"
proof (cases e)
  case (Only i e)
  with st obtain t where t: "i < length ss" "poll_step e (ss ! i) = Some t" "ts = ss[i := t]"
    by (auto split: if_splits)
  then have "poll_ok h t" using ok poll_step_ok [OF _ t(2)] by (simp add: list_all_length)
  then show ?thesis using ok t by (simp add: list_all_length nth_list_update)
next
  case All_Stop
  have "poll_ok h (s\<lparr>po_stop := True\<rparr>)" if "poll_ok h s" for s
    using that by (cases "po_phase s")
      (simp_all add: poll_ok_def poll_tfers_def poll_done_def poll_buffer_def)
  then show ?thesis using ok st All_Stop by (auto simp: list_all_iff split: if_splits)
qed

interpretation pollers: machine pollers_step "list_all (poll_ok h)"
  by unfold_locales (rule pollers_step_ok)

section \<open>What is printed\<close>

text \<open>The bytes the device sends to coroutine \<open>i\<close> in an event, and those it has sent in all.\<close>

fun sent_to :: "nat \<Rightarrow> pollers_event \<Rightarrow> u8 list" where
  "sent_to i (Only j (Po_Io e ds)) = (if i = j then ds else [])"
| "sent_to i _ = []"

definition poll_bytes :: "polling \<Rightarrow> u8 list" where
  "poll_bytes s = concat (map snd (po_reads s)) @ po_current s"

lemma poll_call_bytes: "poll_bytes (poll_call self s) = poll_bytes s"
  by (auto simp: poll_call_def poll_result_def poll_bytes_def split: option.splits suspension.splits prod.splits)

lemma poll_step_bytes:
  assumes "poll_step e s = Some t"
  shows "poll_bytes t = poll_bytes s @ sent_to i (Only i e)"
  using assms poll_call_bytes
  by (cases e) (auto simp: poll_test_def poll_result_def poll_bytes_def split: poll_phase.splits if_splits prod.splits)

lemma pollers_frame:
  assumes "run pollers_step es ss = Some ts" shows "length ts = length ss"
proof (rule run_frame [OF assms])
  fix e ss ts
  show "pollers_step e ss = Some ts \<Longrightarrow> length ts = length ss" by (cases e) (auto split: if_splits)
qed

lemma pollers_bytes:
  assumes "run pollers_step es ss = Some ts" "list_all (poll_ok h) ss"
  shows "(if i < length ts then poll_bytes (ts ! i) else []) =
    (if i < length ss then poll_bytes (ss ! i) else []) @ concat (map (sent_to i) es)"
  using assms
proof (rule pollers.run_collects)
  fix e ss ts
  assume st: "pollers_step e ss = Some ts"
  then show "(if i < length ts then poll_bytes (ts ! i) else []) =
      (if i < length ss then poll_bytes (ss ! i) else []) @ sent_to i e"
  proof (cases e)
    case (Only j f)
    with st obtain t where t: "j < length ss" "poll_step f (ss ! j) = Some t" "ts = ss[j := t]"
      by (auto split: if_splits)
    have "sent_to i (Only j f) = []" if "i \<noteq> j" using that by (cases f) simp_all
    then show ?thesis using t(1,3) poll_step_bytes [OF t(2), of j] Only
      by (cases "i = j") simp_all
  qed (auto simp: poll_bytes_def split: if_splits)
qed

definition poll_fresh :: "polling \<Rightarrow> bool" where
  "poll_fresh s \<longleftrightarrow> po_reads s = [] \<and> po_current s = [] \<and> \<not> po_stop s"

lemma start_pollers_ok:
  assumes "start_pollers fill env iface mem m frames svc = (svc', Returned (Inr ss))" "fills_as 2 fill"
  shows "list_all (\<lambda>s. poll_ok (device_handle_of iface) s \<and> poll_fresh s) ss \<and> length ss = length frames"
  using assms(1)
proof (induction frames arbitrary: svc ss)
  case (Cons f fs)
  obtain t data where f: "f = (t, data)" by fastforce
  from Cons.prems obtain u r where r: "poll_init fill env iface mem m f svc = (u, Returned r)"
    and rest: "(case r of Inl a \<Rightarrow> (u, Returned (Inl a)) | Inr p \<Rightarrow>
        act_bind (start_pollers fill env iface mem m fs u) (\<lambda>r s. (s, Returned (map_sum id (\<lambda>ps. p # ps) r))))
      = (svc', Returned (Inr ss))"
    by (auto simp: act_bind_Returned)
  have "\<exists>p. r = Inr p \<and> poll_ok (device_handle_of iface) p \<and> poll_fresh p"
    using r fills_as_destination [OF assms(2)]
    by (auto simp: poll_init_def f act_bind_Returned ep_simps poll_ok_def poll_tfers_def poll_done_def poll_fresh_def
        elim!: bulk_partial_made [OF _ prefill_bulk_resource])
  then obtain p where p: "r = Inr p" "poll_ok (device_handle_of iface) p" "poll_fresh p" by blast
  then obtain q where q: "start_pollers fill env iface mem m fs u = (svc', Returned q)"
      "map_sum id (\<lambda>ps. p # ps) q = Inr ss"
    using rest by (auto simp: act_bind_Returned)
  then show ?case using Cons.IH p by (cases q) auto
qed simp

section \<open>After a stop\<close>

text \<open>Steps left to a coroutine that was stopped, and a read that can never be resumed.\<close>

definition poll_budget :: "polling \<Rightarrow> nat" where
  "poll_budget s = (case po_phase s of Poll_Test \<Rightarrow> 1 | Poll_Call \<Rightarrow> 2 | Poll_Reading a \<Rightarrow> 2 + partial_budget a | _ \<Rightarrow> 0)"

definition poll_hangs :: "polling \<Rightarrow> bool" where
  "poll_hangs s \<longleftrightarrow> (case po_phase s of
     Poll_Reading a \<Rightarrow> \<not> pa_submitting a \<and> pa_to_submit a \<noteq> [] \<and> outstanding a = {} | _ \<Rightarrow> False)"

lemma poll_stop_kept: "poll_step e s = Some t \<Longrightarrow> po_stop t = po_stop s"
  by (cases e) (auto simp: poll_test_def poll_call_def poll_result_def
      split: poll_phase.splits if_splits option.splits suspension.splits prod.splits)

lemma poll_step_budget:
  assumes ok: "poll_ok h s" and stop: "po_stop s" and st: "poll_step e s = Some t"
  shows "poll_budget t < poll_budget s"
proof -
  have io: "partial_budget b < partial_budget a" if "po_phase s = Poll_Reading a" "partial_conforming f a = Some b" for a b f
  proof -
    have "partial_step f a = Some b" using that(2) by (auto simp: partial_conforming_def split: if_splits)
    then show ?thesis using partial_bounded.step_budget [of a f b] ok that(1) by (simp add: poll_ok_def partial_one_def)
  qed
  show ?thesis
  proof (cases e)
    case (Po_Call self)
    with st have ph: "po_phase s = Poll_Call" "t = poll_call self s" by (auto split: poll_phase.splits)
    show ?thesis
      by (cases rule: poll_call_cases [OF ok ph(1), of self]) (use ph stop in \<open>simp_all add: poll_budget_def poll_result_def\<close>)
  qed (use st io stop in \<open>auto simp: poll_budget_def poll_test_def poll_result_def
        split: poll_phase.splits if_splits prod.splits\<close>)
qed

lemma poll_budget_le:
  assumes "poll_ok h s"
  shows "poll_budget s \<le> 6"
proof (cases "po_phase s")
  case (Poll_Reading a)
  then have one: "partial_one (po_tfer s) (poll_buffer s) a" using assms by (simp add: poll_ok_def)
  note tids = partial_one_tid [OF one]
  have "distinct (pa_to_submit a)" "set (pa_to_submit a) \<subseteq> {po_tfer s}"
    using one by (auto simp: partial_one_def partial_wf_def partial_stream.latch_def)
  then have "length (pa_to_submit a) \<le> 1"
    using card_mono [of "{po_tfer s}" "set (pa_to_submit a)"] by (simp add: distinct_card)
  moreover have "card (outstanding a) \<le> 1" using card_mono [OF _ tids(1)] by simp
  ultimately show ?thesis using Poll_Reading one tids(2)
    by (auto simp: poll_budget_def partial_budget_def partial_one_def)
qed (simp_all add: poll_budget_def)

definition pollers_budget :: "polling list \<Rightarrow> nat" where
  "pollers_budget ss = sum_list (map poll_budget ss)"

interpretation pollers_stopped: bounded_machine pollers_step "list_all (\<lambda>s. poll_ok h s \<and> po_stop s)" pollers_budget
proof (unfold_locales, goal_cases)
  case (1 ss e ts)
  have "list_all (poll_ok h) ts" using 1 pollers_step_ok [of h ss e ts] by (simp add: list_all_iff)
  moreover have "list_all po_stop ts"
  proof (cases e)
    case (Only i f)
    with 1(2) obtain t where t: "i < length ss" "poll_step f (ss ! i) = Some t" "ts = ss[i := t]"
      by (auto split: if_splits)
    then show ?thesis using 1(1) poll_stop_kept [OF t(2)] by (simp add: list_all_length nth_list_update)
  qed (use 1 in \<open>auto simp: list_all_iff split: if_splits\<close>)
  ultimately show ?case by (simp add: list_all_iff)
next
  case (2 ss e ts)
  show ?case
  proof (cases e)
    case (Only i f)
    with 2(2) obtain t where t: "i < length ss" "poll_step f (ss ! i) = Some t" "ts = ss[i := t]"
      by (auto split: if_splits)
    have "poll_budget t < poll_budget (ss ! i)"
      by (rule poll_step_budget [OF _ _ t(2), of h]) (use 2(1) t(1) in \<open>simp_all add: list_all_length\<close>)
    moreover have "poll_budget (ss ! i) \<le> sum_list (map poll_budget ss)"
      by (rule member_le_sum_list) (use t(1) in simp_all)
    ultimately show ?thesis using t(1,3)
      by (simp add: pollers_budget_def map_update sum_list_update)
  qed (use 2 in \<open>auto simp: list_all_iff split: if_splits\<close>)
qed

lemma poll_stuck:
  assumes ok: "poll_ok h s" and stuck: "\<And>e. poll_step e s = None"
  shows "poll_done s \<or> poll_hangs s"
proof (cases "po_phase s")
  case (Poll_Reading a)
  then have one: "partial_one (po_tfer s) (poll_buffer s) a" using ok by (simp add: poll_ok_def)
  have l: "partial_stream.latch a" using one by (simp add: partial_one_def partial_wf_def)
  have "posts a \<noteq> 1" using stuck [of Po_Resume] Poll_Reading by (auto split: if_splits)
  then have busy: "outstanding a \<noteq> {} \<or> pa_to_submit a \<noteq> []" using partial_stream.latch_posts [OF l] by simp
  have "outstanding a = {}"
  proof (rule ccontr)
    assume "outstanding a \<noteq> {}"
    then obtain x where x: "x \<in> outstanding a" by blast
    then have "x = po_tfer s" using partial_one_tid(1) [OF one] by blast
    then have "t_length (tfers a x) = 1024"
      using one x by (auto simp: partial_one_def window_def buf_window_def poll_buffer_def)
    then show False using stuck [of "Po_Io (Complete x (ex_done 0 0) 0) []"] Poll_Reading x
      by (simp add: partial_conforming_def io_conforms_def ex_done_def)
  qed
  moreover have "\<not> pa_submitting a"
    using stuck [of "Po_Io (Submit 0) []"] Poll_Reading busy \<open>outstanding a = {}\<close>
    by (auto simp: partial_conforming_def io_conforms_def neq_Nil_conv)
  ultimately show ?thesis using busy Poll_Reading by (simp add: poll_hangs_def)
next
  case Poll_Call
  then show ?thesis using stuck [of "Po_Call 0"] by simp
qed (use stuck [of Po_Test] ok in \<open>simp_all add: poll_done_def poll_ok_def\<close>)

section \<open>Properties\<close>

text \<open>C12: whatever the coroutines do and in whatever order, each prints what the device sent to it: one
  line for each of its reads, in order, with the bytes the device sent in that read if it reports
  no error and with the error otherwise, and at its end, which it reaches only after a stop
  request, the last line.  Its transfer always goes to the IN endpoint 1 of the claimed device.\<close>

theorem polling_prints_what_it_reads:
  assumes "start_pollers fill env iface mem m frames svc = (svc', Returned (Inr ss0))" "fills_as 2 fill"
    and "run pollers_step es ss0 = Some ss" "i < length frames"
  shows "po_out (ss ! i) = map poll_line (po_reads (ss ! i)) @ (if poll_done (ss ! i) then [Gracefully_Exited] else [])
    \<and> concat (map snd (po_reads (ss ! i))) @ po_current (ss ! i) = concat (map (sent_to i) es)
    \<and> (case po_phase (ss ! i) of Poll_Aborted \<Rightarrow> False | Poll_Done \<Rightarrow> po_stop (ss ! i) | _ \<Rightarrow> True)
    \<and> destination (poll_tfers (ss ! i) (po_tfer (ss ! i))) = (device_handle_of iface, 0x81, 2, 50)"
proof -
  let ?h = "device_handle_of iface"
  have init: "list_all (\<lambda>s. poll_ok ?h s \<and> poll_fresh s) ss0" "length ss0 = length frames"
    using start_pollers_ok [OF assms(1,2)] by simp_all
  then have ok0: "list_all (poll_ok ?h) ss0" by (simp add: list_all_iff)
  have len: "i < length ss" using pollers_frame [OF assms(3)] init(2) assms(4) by simp
  have "list_all (poll_ok ?h) ss" using assms(3) ok0 by (rule pollers.run_inv)
  then have ok: "poll_ok ?h (ss ! i)" using len by (simp add: list_all_length)
  have "poll_bytes (ss0 ! i) = []"
    using init assms(4) by (simp add: list_all_length poll_fresh_def poll_bytes_def)
  then have "poll_bytes (ss ! i) = concat (map (sent_to i) es)"
    using pollers_bytes [OF assms(3) ok0, of i] len init(2) assms(4) by simp
  then show ?thesis using ok by (auto simp: poll_ok_def poll_bytes_def split: poll_phase.splits)
qed

text \<open>Two coroutines: the first gets one byte and a timeout, the second two bytes; then a stop.\<close>

definition ex_pollers :: "service \<times> (aborted + polling list) act" where
  "ex_pollers = start_pollers (fill_as 2) ex_env (Pointer_Source (Raw_Pointer (Some 1))) (\<lambda>_. 0) (\<lambda>_. null_transfer)
     [(3, 100), (4, 5000)] service_init"

definition ex_pollers_run :: "pollers_event list" where
  "ex_pollers_run = [Only 0 Po_Test, Only 1 Po_Test, Only 0 (Po_Call 7), Only 1 (Po_Call 8),
     Only 0 (Po_Io (Submit 0) []), Only 1 (Po_Io (Submit 0) []),
     Only 1 (Po_Io (Complete 4 (ex_done 0 2) 0) [9, 8]), Only 1 Po_Resume,
     Only 0 (Po_Io (Complete 3 (ex_done 2 1) 0) [7]), Only 0 Po_Resume, All_Stop, Only 0 Po_Test, Only 1 Po_Test]"

definition ex_pollers_sat :: bool where
  "ex_pollers_sat = (case snd ex_pollers of
     Returned (Inr ss0) \<Rightarrow>
       run_sat pollers_step ex_pollers_run ss0
         (\<lambda>ss. list_all po_stop ss \<and> po_out (ss ! 1) = [Got_Data [9, 8], Gracefully_Exited] \<and> length (po_reads (ss ! 0)) = 1)
   | _ \<Rightarrow> False)"

lemma ex_pollers_sat: "ex_pollers_sat"
  by code_simp

lemma ex_pollers_run_result:
  obtains ss0 ss where "ex_pollers = (fst ex_pollers, Returned (Inr ss0))" "run pollers_step ex_pollers_run ss0 = Some ss"
    "list_all po_stop ss" "po_out (ss ! 1) = [Got_Data [9, 8], Gracefully_Exited]"
proof -
  obtain ss0 where s0: "snd ex_pollers = Returned (Inr ss0)" "run_sat pollers_step ex_pollers_run ss0
      (\<lambda>ss. list_all po_stop ss \<and> po_out (ss ! 1) = [Got_Data [9, 8], Gracefully_Exited] \<and> length (po_reads (ss ! 0)) = 1)"
    using ex_pollers_sat by (auto simp: ex_pollers_sat_def split: act.splits sum.splits)
  then show ?thesis using that run_satD [OF s0(2)] by (metis prod.collapse)
qed

theorem polling_prints_what_it_reads_witness:
  "\<exists>ss0 ss. snd ex_pollers = Returned (Inr ss0) \<and> run pollers_step ex_pollers_run ss0 = Some ss
     \<and> concat (map snd (po_reads (ss ! 0))) @ po_current (ss ! 0) = [7]"
proof (rule ex_pollers_run_result)
  fix ss0 ss
  assume s: "ex_pollers = (fst ex_pollers, Returned (Inr ss0))" "run pollers_step ex_pollers_run ss0 = Some ss"
  note polling_prints_what_it_reads [OF s(1) [unfolded ex_pollers_def] fills_as_fill_as s(2), of 0]
  then have "concat (map snd (po_reads (ss ! 0))) @ po_current (ss ! 0) = [7]" by (simp add: ex_pollers_run_def)
  moreover have "snd ex_pollers = Returned (Inr ss0)" using s(1) by (metis snd_conv)
  ultimately show ?thesis using s(2) by blast
qed

text \<open>C27: a stop ends the program: once stop was requested the coroutines take at most six further steps
  each, and when none can go on, each has left its loop and said so, unless a submission of its
  read failed, in which case it is never resumed and \<open>main\<close> never returns.\<close>

theorem polling_stops:
  assumes "start_pollers fill env iface mem m frames svc = (svc', Returned (Inr ss0))" "fills_as 2 fill"
    and "run pollers_step es ss0 = Some ss" "list_all po_stop ss"
  shows "(\<forall>fs ts. run pollers_step fs ss = Some ts \<longrightarrow> length fs \<le> 6 * length frames)
    \<and> ((\<forall>e. pollers_step e ss = None) \<longrightarrow>
        (\<forall>s \<in> set ss. poll_done s \<and> last (po_out s) = Gracefully_Exited \<or> poll_hangs s))"
proof -
  let ?h = "device_handle_of iface"
  have init: "list_all (poll_ok ?h) ss0" "length ss0 = length frames"
    using start_pollers_ok [OF assms(1,2)] by (simp_all add: list_all_iff)
  have ok: "list_all (poll_ok ?h) ss" using assms(3) init(1) by (rule pollers.run_inv)
  then have inv: "list_all (\<lambda>s. poll_ok ?h s \<and> po_stop s) ss" using assms(4) by (simp add: list_all_iff)
  have "pollers_budget ss \<le> (\<Sum>s\<leftarrow>ss. 6)"
    unfolding pollers_budget_def using ok poll_budget_le by (intro sum_list_mono) (auto simp: list_all_iff)
  then have bound: "pollers_budget ss \<le> 6 * length frames"
    using pollers_frame [OF assms(3)] init(2) by (simp add: sum_list_triv)
  have steps: "length fs \<le> 6 * length frames" if "run pollers_step fs ss = Some ts" for fs ts
    using pollers_stopped.run_budget [OF that inv] bound by simp
  have ends: "poll_done s \<and> last (po_out s) = Gracefully_Exited \<or> poll_hangs s"
    if stuck: "\<forall>e. pollers_step e ss = None" and s: "s \<in> set ss" for s
  proof -
    obtain i where i: "i < length ss" "s = ss ! i" using s by (auto simp: in_set_conv_nth)
    then have "poll_step e s = None" for e using stuck [rule_format, of "Only i e"] by simp
    moreover have "poll_ok ?h s" using ok s by (simp add: list_all_iff)
    ultimately show ?thesis using poll_stuck [of ?h s] by (auto simp: poll_ok_def)
  qed
  show ?thesis using steps ends by blast
qed

theorem polling_stops_witness:
  "\<exists>ss0 ss. snd ex_pollers = Returned (Inr ss0) \<and> run pollers_step ex_pollers_run ss0 = Some ss
     \<and> (\<forall>fs ts. run pollers_step fs ss = Some ts \<longrightarrow> length fs \<le> 12)"
proof (rule ex_pollers_run_result)
  fix ss0 ss
  assume s: "ex_pollers = (fst ex_pollers, Returned (Inr ss0))" "run pollers_step ex_pollers_run ss0 = Some ss"
    and stop: "list_all po_stop ss"
  from polling_stops [OF s(1) [unfolded ex_pollers_def] fills_as_fill_as s(2) stop]
  have "\<forall>fs ts. run pollers_step fs ss = Some ts \<longrightarrow> length fs \<le> 12" by simp
  moreover have "snd ex_pollers = Returned (Inr ss0)" using s(1) by (metis snd_conv)
  ultimately show ?thesis using s(2) by blast
qed

end
