(* ===== verification/Device.thy ===== *)
theory Device
  imports Error_Protocol Ownership Endpoint
begin

text \<open>
  Devices: the triplets they are matched by (\<open>wrapper/device_triplet.hpp\<close>), the reference counted
  \<open>device_ref\<close> (\<open>wrapper/device_ref.hpp\<close>) and the owning \<open>device_handle\<close> with the functions that
  open one (\<open>wrapper/device_handle.hpp\<close>).
\<close>

section \<open>device_triplet.hpp\<close>

abbreviation LIBUSB_HOTPLUG_MATCH_ANY :: int where "LIBUSB_HOTPLUG_MATCH_ANY \<equiv> -1"

record device_triplet =
  vid :: int
  pid :: int
  dev_class :: int

definition any_triplet :: device_triplet where
  "any_triplet = \<lparr>vid = LIBUSB_HOTPLUG_MATCH_ANY, pid = LIBUSB_HOTPLUG_MATCH_ANY,
     dev_class = LIBUSB_HOTPLUG_MATCH_ANY\<rparr>"

definition triplet_eq :: "device_triplet \<Rightarrow> device_triplet \<Rightarrow> bool" where
  "triplet_eq this other \<longleftrightarrow>
     vid other = vid this \<and> pid other = pid this \<and> dev_class other = dev_class this"

definition wildcard_cmp :: "int \<Rightarrow> int \<Rightarrow> bool" where
  "wildcard_cmp lhs rhs \<longleftrightarrow>
     lhs = rhs \<or> lhs = LIBUSB_HOTPLUG_MATCH_ANY \<or> rhs = LIBUSB_HOTPLUG_MATCH_ANY"

definition wildcard_triplet_comparator :: "device_triplet \<Rightarrow> device_triplet \<Rightarrow> bool" where
  "wildcard_triplet_comparator lhs rhs \<longleftrightarrow>
     wildcard_cmp (vid lhs) (vid rhs) \<and> wildcard_cmp (pid lhs) (pid rhs)
     \<and> wildcard_cmp (dev_class lhs) (dev_class rhs)"

text \<open>The fields of a \<open>libusb_device_descriptor\<close> that are read, with their widths.\<close>

record device_descriptor =
  idVendor :: "16 word"
  idProduct :: "16 word"
  bDeviceClass :: u8

definition triplet_from_descriptor :: "device_descriptor \<Rightarrow> device_triplet" where
  "triplet_from_descriptor d =
     \<lparr>vid = uint (idVendor d), pid = uint (idProduct d), dev_class = uint (bDeviceClass d)\<rparr>"

lemma triplet_eq_iff: "triplet_eq a b \<longleftrightarrow> a = b"
  by (cases a; cases b) (auto simp: triplet_eq_def)

lemma uint_not_any [simp]: "uint (w :: 'a::len word) \<noteq> LIBUSB_HOTPLUG_MATCH_ANY"
  using uint_ge_0 [of w] by linarith

section \<open>device_ref.hpp\<close>

record device_ref =
  m_dev :: "nat option"

text \<open>The calls made on libusb's reference counter of a device.\<close>

datatype ref_call = Ref_Device nat | Unref_Device nat

definition device_ref_null :: device_ref where
  "device_ref_null = \<lparr>m_dev = None\<rparr>"

text \<open>\<open>None\<close>: \<open>libusb_ref_device\<close> is called with a null pointer.\<close>

definition device_ref_ctor :: "nat option \<Rightarrow> (device_ref \<times> ref_call list) option" where
  "device_ref_ctor dev =
     (case dev of None \<Rightarrow> None | Some d \<Rightarrow> Some (\<lparr>m_dev = Some d\<rparr>, [Ref_Device d]))"

definition device_ref_dtor :: "device_ref \<Rightarrow> ref_call list" where
  "device_ref_dtor r = (case m_dev r of None \<Rightarrow> [] | Some d \<Rightarrow> [Unref_Device d])"

definition device_ref_copy :: "device_ref \<Rightarrow> device_ref \<times> ref_call list" where
  "device_ref_copy other =
     (\<lparr>m_dev = m_dev other\<rparr>, case m_dev other of None \<Rightarrow> [] | Some d \<Rightarrow> [Ref_Device d])"

definition device_ref_assign :: "device_ref \<Rightarrow> device_ref \<Rightarrow> device_ref \<times> ref_call list" where
  "device_ref_assign this other =
     (this\<lparr>m_dev := m_dev other\<rparr>, case m_dev other of None \<Rightarrow> [] | Some d \<Rightarrow> [Ref_Device d])"

definition device_ref_valid :: "device_ref \<Rightarrow> bool" where
  "device_ref_valid r \<longleftrightarrow> m_dev r \<noteq> None"

definition device_ref_get :: "device_ref \<Rightarrow> nat option" where
  "device_ref_get r = m_dev r"

definition device_ref_release :: "device_ref \<Rightarrow> device_ref \<times> nat option" where
  "device_ref_release r = (r\<lparr>m_dev := None\<rparr>, m_dev r)"

text \<open>
  A program that uses references: \<open>rw_calls\<close> logs the calls, \<open>rw_overwritten\<close> the devices whose
  reference an assignment wrote over, \<open>rw_released\<close> the devices \<open>release\<close> handed out.
\<close>

record ref_world =
  rw_refs :: "nat \<Rightarrow> device_ref option"
  rw_calls :: "ref_call list"
  rw_overwritten :: "nat list"
  rw_released :: "nat list"

datatype ref_event =
    Ref_Null nat | Ref_New nat "nat option" | Ref_Copy nat nat | Ref_Assign nat nat
  | Ref_Release nat | Ref_Destroy nat

definition ref_init :: ref_world where
  "ref_init = \<lparr>rw_refs = (\<lambda>_. None), rw_calls = [], rw_overwritten = [], rw_released = []\<rparr>"

definition dev_of :: "device_ref \<Rightarrow> nat list" where
  "dev_of r = (case m_dev r of None \<Rightarrow> [] | Some d \<Rightarrow> [d])"

fun ref_step :: "ref_event \<Rightarrow> ref_world \<Rightarrow> ref_world option" where
  "ref_step (Ref_Null i) w =
     (if rw_refs w i = None then Some (w\<lparr>rw_refs := (rw_refs w)(i := Some device_ref_null)\<rparr>) else None)"
| "ref_step (Ref_New i dev) w =
     (case (rw_refs w i, device_ref_ctor dev) of
        (None, Some (r, cs)) \<Rightarrow>
          Some (w\<lparr>rw_refs := (rw_refs w)(i := Some r), rw_calls := rw_calls w @ cs\<rparr>)
      | _ \<Rightarrow> None)"
| "ref_step (Ref_Copy i j) w =
     (case (rw_refs w i, rw_refs w j) of
        (None, Some other) \<Rightarrow> let (r, cs) = device_ref_copy other in
          Some (w\<lparr>rw_refs := (rw_refs w)(i := Some r), rw_calls := rw_calls w @ cs\<rparr>)
      | _ \<Rightarrow> None)"
| "ref_step (Ref_Assign i j) w =
     (case (rw_refs w i, rw_refs w j) of
        (Some this, Some other) \<Rightarrow> let (r, cs) = device_ref_assign this other in
          Some (w\<lparr>rw_refs := (rw_refs w)(i := Some r), rw_calls := rw_calls w @ cs,
                  rw_overwritten := rw_overwritten w @ dev_of this\<rparr>)
      | _ \<Rightarrow> None)"
| "ref_step (Ref_Release i) w =
     (case rw_refs w i of
        Some this \<Rightarrow> let (r, d) = device_ref_release this in
          Some (w\<lparr>rw_refs := (rw_refs w)(i := Some r),
                  rw_released := rw_released w @ (case d of None \<Rightarrow> [] | Some d \<Rightarrow> [d])\<rparr>)
      | None \<Rightarrow> None)"
| "ref_step (Ref_Destroy i) w =
     (case rw_refs w i of
        Some this \<Rightarrow>
          Some (w\<lparr>rw_refs := (rw_refs w)(i := None), rw_calls := rw_calls w @ device_ref_dtor this\<rparr>)
      | None \<Rightarrow> None)"

fun refs_of :: "ref_call list \<Rightarrow> nat list" where
  "refs_of [] = []"
| "refs_of (Ref_Device d # cs) = d # refs_of cs"
| "refs_of (Unref_Device d # cs) = refs_of cs"

fun unrefs_of :: "ref_call list \<Rightarrow> nat list" where
  "unrefs_of [] = []"
| "unrefs_of (Ref_Device d # cs) = unrefs_of cs"
| "unrefs_of (Unref_Device d # cs) = d # unrefs_of cs"

lemma refs_of_append [simp]:
  "refs_of (as @ bs) = refs_of as @ refs_of bs"
  "unrefs_of (as @ bs) = unrefs_of as @ unrefs_of bs"
  by (induction as rule: refs_of.induct) simp_all

definition refs_balanced :: "ref_world \<Rightarrow> bool" where
  "refs_balanced w \<longleftrightarrow> finite (dom (rw_refs w))
     \<and> mset (refs_of (rw_calls w)) = mset (unrefs_of (rw_calls w)) + held dev_of (rw_refs w)
         + mset (rw_overwritten w) + mset (rw_released w)"

lemmas device_ref_defs = device_ref_null_def device_ref_ctor_def device_ref_dtor_def
  device_ref_copy_def device_ref_assign_def device_ref_release_def dev_of_def

lemma refs_balanced_step:
  assumes b: "refs_balanced w" and st: "ref_step e w = Some u"
  shows "refs_balanced u"
proof -
  have fin: "finite (dom (rw_refs w))" using b by (simp add: refs_balanced_def)
  note upd = held_update [OF fin, of dev_of]
  show ?thesis
  proof (cases e)
    case (Ref_Null i)
    then show ?thesis using b st upd [of i "Some device_ref_null"]
      by (auto simp: refs_balanced_def device_ref_defs split: if_splits)
  next
    case (Ref_New i dev)
    then obtain d where d: "rw_refs w i = None" "dev = Some d"
      and u: "u = w\<lparr>rw_refs := (rw_refs w)(i := Some \<lparr>m_dev = Some d\<rparr>), rw_calls := rw_calls w @ [Ref_Device d]\<rparr>"
      using st by (auto simp: device_ref_ctor_def split: option.splits)
    show ?thesis using b fin d upd [of i "Some \<lparr>m_dev = Some d\<rparr>"]
      by (simp add: u refs_balanced_def dev_of_def)
  next
    case (Ref_Copy i j)
    then obtain r where r: "rw_refs w i = None" "rw_refs w j = Some r"
      and u: "u = w\<lparr>rw_refs := (rw_refs w)(i := Some (fst (device_ref_copy r))),
               rw_calls := rw_calls w @ snd (device_ref_copy r)\<rparr>"
      using st by (auto split: option.splits prod.splits)
    show ?thesis using b fin r upd [of i "Some (fst (device_ref_copy r))"]
      by (cases "m_dev r") (simp_all add: u refs_balanced_def device_ref_defs)
  next
    case (Ref_Assign i j)
    then obtain r q where r: "rw_refs w i = Some r" "rw_refs w j = Some q"
      and u: "u = w\<lparr>rw_refs := (rw_refs w)(i := Some (fst (device_ref_assign r q))),
               rw_calls := rw_calls w @ snd (device_ref_assign r q),
               rw_overwritten := rw_overwritten w @ dev_of r\<rparr>"
      using st by (auto split: option.splits prod.splits)
    show ?thesis using b fin r upd [of i "Some (fst (device_ref_assign r q))"]
      by (cases "m_dev q"; cases "m_dev r") (simp_all add: u refs_balanced_def device_ref_defs)
  next
    case (Ref_Release i)
    then obtain r where r: "rw_refs w i = Some r"
      and u: "u = w\<lparr>rw_refs := (rw_refs w)(i := Some (r\<lparr>m_dev := None\<rparr>)),
               rw_released := rw_released w @ dev_of r\<rparr>"
      using st by (auto simp: device_ref_release_def dev_of_def split: option.splits)
    show ?thesis using b fin r upd [of i "Some (r\<lparr>m_dev := None\<rparr>)"]
      by (simp add: u refs_balanced_def dev_of_def ac_simps)
  next
    case (Ref_Destroy i)
    then obtain r where r: "rw_refs w i = Some r"
      and u: "u = w\<lparr>rw_refs := (rw_refs w)(i := None), rw_calls := rw_calls w @ device_ref_dtor r\<rparr>"
      using st by (auto split: option.splits)
    show ?thesis using b fin r upd [of i None]
      by (cases "m_dev r") (simp_all add: u refs_balanced_def device_ref_defs)
  qed
qed

interpretation device_refs: machine ref_step refs_balanced
  by unfold_locales (rule refs_balanced_step)

section \<open>device_handle.hpp\<close>

text \<open>A \<open>unique_ptr\<close> with the deleter \<open>libusb_close\<close>; the second component of a result is the list
  of handles closed.\<close>

record device_handle =
  m_storage :: devh

definition make_device_handle :: "devh \<Rightarrow> device_handle" where
  "make_device_handle h = \<lparr>m_storage = h\<rparr>"

definition device_handle_get :: "device_handle \<Rightarrow> devh" where
  "device_handle_get d = m_storage d"

definition device_handle_reset :: "device_handle \<Rightarrow> device_handle \<times> nat list" where
  "device_handle_reset d =
     (d\<lparr>m_storage := None\<rparr>, case m_storage d of None \<Rightarrow> [] | Some h \<Rightarrow> [h])"

definition device_handle_release :: "device_handle \<Rightarrow> device_handle \<times> devh" where
  "device_handle_release d = (d\<lparr>m_storage := None\<rparr>, m_storage d)"

definition device_handle_close :: "device_handle \<Rightarrow> device_handle \<times> nat list" where
  "device_handle_close d = device_handle_reset d"

text \<open>The defaulted move operations and destructor.\<close>

definition device_handle_move :: "device_handle \<Rightarrow> device_handle \<times> device_handle" where
  "device_handle_move other = (\<lparr>m_storage = m_storage other\<rparr>, other\<lparr>m_storage := None\<rparr>)"

definition device_handle_move_assign ::
  "device_handle \<Rightarrow> device_handle \<Rightarrow> device_handle \<times> device_handle \<times> nat list" where
  "device_handle_move_assign this other =
     (let (this, closed) = device_handle_reset this
      in (this\<lparr>m_storage := m_storage other\<rparr>, other\<lparr>m_storage := None\<rparr>, closed))"

definition device_handle_dtor :: "device_handle \<Rightarrow> nat list" where
  "device_handle_dtor d = snd (device_handle_reset d)"

text \<open>
  \<open>open_device\<close> by triplet and by reference.  libusb's functions are parameters; the vendor and
  product ids are passed on as \<open>uint16_t\<close>.
\<close>

definition open_device_triplet ::
  "(device_handle, 'r) protocol \<Rightarrow> ('ctx \<Rightarrow> 16 word \<Rightarrow> 16 word \<Rightarrow> devh) \<Rightarrow> 'ctx \<Rightarrow> device_triplet
     \<Rightarrow> error_code \<Rightarrow> 'r \<times> error_code" where
  "open_device_triplet P libusb_open_device_with_vid_pid ctx triplet var =
     (let devh = libusb_open_device_with_vid_pid ctx (word_of_int (vid triplet)) (word_of_int (pid triplet))
      in if devh = None then with_error P (make_usb_error_code (usb_error_value Usb_unknown)) var
         else with_success P (make_device_handle devh) var)"

definition open_device_ref ::
  "(device_handle, 'r) protocol \<Rightarrow> (nat option \<Rightarrow> int \<times> devh) \<Rightarrow> device_ref \<Rightarrow> error_code
     \<Rightarrow> 'r \<times> error_code" where
  "open_device_ref P libusb_open dev_ref var =
     (let (r, devh) = libusb_open (device_ref_get dev_ref)
      in if r \<noteq> LIBUSB_SUCCESS then with_error P (make_usb_error_code r) var
         else with_success P (make_device_handle devh) var)"

text \<open>The overloads that throw.\<close>

definition open_device_triplet_throwing ::
  "('ctx \<Rightarrow> 16 word \<Rightarrow> 16 word \<Rightarrow> devh) \<Rightarrow> 'ctx \<Rightarrow> device_triplet \<Rightarrow> error_code + device_handle" where
  "open_device_triplet_throwing libusb_open_device_with_vid_pid ctx triplet =
     fst (open_device_triplet as_exception libusb_open_device_with_vid_pid ctx triplet ec_none)"

definition open_device_ref_throwing ::
  "(nat option \<Rightarrow> int \<times> devh) \<Rightarrow> device_ref \<Rightarrow> error_code + device_handle" where
  "open_device_ref_throwing libusb_open dev_ref =
     fst (open_device_ref as_exception libusb_open dev_ref ec_none)"

lemma open_device_ref_report:
  "open_device_ref P f r var =
     report_rc P (fst (f (device_ref_get r))) (make_device_handle (snd (f (device_ref_get r)))) var"
  by (simp add: open_device_ref_def report_rc_def Let_def split: prod.splits)

text \<open>A \<open>device_handle\<close> as an owner of its handle.\<close>

definition handle_tokens :: "device_handle \<Rightarrow> nat list" where
  "handle_tokens d = (case m_storage d of None \<Rightarrow> [] | Some h \<Rightarrow> [h])"

definition device_handle_ops :: "(device_handle, nat) owner_ops" where
  "device_handle_ops =
     \<lparr>op_make = (\<lambda>h. make_device_handle (Some h)), op_move = device_handle_move,
      op_assign = (\<lambda>rc g h. Some (device_handle_move_assign g h)), op_dispose = (\<lambda>rc g. Some (device_handle_close g)),
      op_give_up = (\<lambda>d. let (d, h) = device_handle_release d in (d, case h of None \<Rightarrow> [] | Some h \<Rightarrow> [h])),
      op_destroy = (\<lambda>rc g. Some (device_handle_dtor g)), op_emplace = (\<lambda>t g. None)\<rparr>"

lemmas device_handle_defs = handle_tokens_def device_handle_ops_def make_device_handle_def
  device_handle_move_def device_handle_move_assign_def device_handle_close_def
  device_handle_reset_def device_handle_release_def device_handle_dtor_def

interpretation handle_owner: owner device_handle_ops handle_tokens
  by unfold_locales (auto simp: device_handle_defs split: prod.splits option.splits)

section \<open>Properties\<close>

text \<open>The wildcard comparator is reflexive and symmetric and every triplet matches the one with the
  default values; on triplets taken from device descriptors it is equality.  It is not transitive:
  two different devices match a common wildcard.\<close>

theorem wildcard_triplet_laws:
  "wildcard_triplet_comparator a a
   \<and> (wildcard_triplet_comparator a b \<longleftrightarrow> wildcard_triplet_comparator b a)
   \<and> wildcard_triplet_comparator any_triplet a
   \<and> (wildcard_triplet_comparator (triplet_from_descriptor d) (triplet_from_descriptor e)
        \<longleftrightarrow> triplet_eq (triplet_from_descriptor d) (triplet_from_descriptor e))
   \<and> (\<exists>x y z. wildcard_triplet_comparator x y \<and> wildcard_triplet_comparator y z
        \<and> \<not> wildcard_triplet_comparator x z)"
proof -
  let ?t = "\<lambda>v. \<lparr>vid = v, pid = 0, dev_class = 0\<rparr>"
  have "wildcard_triplet_comparator (?t 1) any_triplet \<and> wildcard_triplet_comparator any_triplet (?t 2)
      \<and> \<not> wildcard_triplet_comparator (?t 1) (?t 2)"
    by (simp add: wildcard_triplet_comparator_def wildcard_cmp_def any_triplet_def)
  moreover have "wildcard_triplet_comparator (triplet_from_descriptor d) (triplet_from_descriptor e)
      \<longleftrightarrow> triplet_eq (triplet_from_descriptor d) (triplet_from_descriptor e)"
    by (auto simp: wildcard_triplet_comparator_def wildcard_cmp_def triplet_from_descriptor_def triplet_eq_def)
  moreover have "wildcard_triplet_comparator a a" "wildcard_triplet_comparator any_triplet a"
    by (simp_all add: wildcard_triplet_comparator_def wildcard_cmp_def any_triplet_def)
  moreover have "wildcard_triplet_comparator a b \<longleftrightarrow> wildcard_triplet_comparator b a"
    unfolding wildcard_triplet_comparator_def wildcard_cmp_def by metis
  ultimately show ?thesis by blast
qed

text \<open>the reference count of a device as the library's calls leave it: every increment is matched
  by a decrement, by a live reference, by a \<open>release\<close>, or by an assignment that wrote over a
  reference without decrementing it.  So once all references are destroyed and none was released,
  the devices that were assigned over are exactly those whose count never goes back.\<close>

theorem device_ref_balance:
  assumes "run ref_step es ref_init = Some w"
  shows "mset (refs_of (rw_calls w)) = mset (unrefs_of (rw_calls w)) + held dev_of (rw_refs w)
      + mset (rw_overwritten w) + mset (rw_released w)
    \<and> (dom (rw_refs w) = {} \<and> rw_released w = [] \<longrightarrow>
        mset (refs_of (rw_calls w)) - mset (unrefs_of (rw_calls w)) = mset (rw_overwritten w))"
proof -
  have "refs_balanced ref_init" by (simp add: refs_balanced_def ref_init_def held_def)
  then have "refs_balanced w" using assms by (metis device_refs.run_inv)
  then show ?thesis by (auto simp: refs_balanced_def held_def)
qed

lemma ex_ref_run:
  "\<exists>w. run ref_step [Ref_New 0 (Some 7), Ref_New 1 (Some 8), Ref_Assign 0 1, Ref_Destroy 0, Ref_Destroy 1] ref_init
     = Some w \<and> rw_overwritten w = [7] \<and> rw_released w = [] \<and> rw_refs w 0 = None"
  by (rule run_satD) code_simp

theorem device_ref_balance_witness:
  "\<exists>w. run ref_step [Ref_New 0 (Some 7), Ref_New 1 (Some 8), Ref_Assign 0 1, Ref_Destroy 0, Ref_Destroy 1] ref_init
     = Some w \<and> mset (refs_of (rw_calls w)) = mset (unrefs_of (rw_calls w)) + held dev_of (rw_refs w) + {#7#}"
  using ex_ref_run device_ref_balance by fastforce

text \<open>C32: a device handle that was opened is closed exactly once, or owned by exactly one
  \<open>device_handle\<close>, or was handed out by \<open>release\<close>, whatever moves and assignments there were; when
  no \<open>device_handle\<close> is left and none was released, exactly the opened handles have been closed.\<close>

theorem device_handle_closed_once:
  assumes "run (owner_step device_handle_ops) es owner_init = Some w"
  shows "mset (acquired w) = mset (disposed w) + mset (given_up w) + held handle_tokens (objs w)
    \<and> (dom (objs w) = {} \<and> given_up w = [] \<longrightarrow> mset (disposed w) = mset (acquired w))"
  using handle_owner.tokens_accounted [OF assms] handle_owner.nothing_left [OF assms] by auto

lemma ex_handle_run:
  "\<exists>w. run (owner_step device_handle_ops) [Acquire 0 5, Acquire 1 6, Move_Assign 0 1 0, Move 2 0, Destroy 0 0, Destroy 2 0] owner_init
     = Some w \<and> disposed w = [5, 6]"
  by (rule run_satD) code_simp

theorem device_handle_closed_once_witness:
  "\<exists>w. run (owner_step device_handle_ops) [Acquire 0 5, Acquire 1 6, Move_Assign 0 1 0, Move 2 0, Destroy 0 0, Destroy 2 0] owner_init
     = Some w \<and> mset (acquired w) = {#5, 6#} + mset (given_up w) + held handle_tokens (objs w)"
  using ex_handle_run device_handle_closed_once by fastforce

text \<open>The wildcards of a triplet mean nothing to \<open>open_device\<close>: the default triplet asks libusb
  for the device with vendor and product id 0xFFFF, and the device class is ignored.\<close>

theorem open_device_ignores_wildcards:
  "open_device_triplet P f ctx any_triplet var =
     open_device_triplet P f ctx \<lparr>vid = 0xFFFF, pid = 0xFFFF, dev_class = c\<rparr> var
   \<and> open_device_triplet P f ctx (t\<lparr>dev_class := c\<rparr>) var = open_device_triplet P f ctx t var
   \<and> open_device_triplet as_optional (\<lambda>ctx v p. if v = 0x1234 \<and> p = 0x5678 then Some 1 else None) ctx any_triplet var
     = (None, make_usb_error_code (-99))"
proof -
  have "(word_of_int (-1) :: 16 word) = word_of_int 0xFFFF"
    by (simp only: word_of_int_eq_iff) (simp add: mask_eq_exp_minus_1)
  then have any: "open_device_triplet P f ctx any_triplet var =
      open_device_triplet P f ctx \<lparr>vid = 0xFFFF, pid = 0xFFFF, dev_class = c\<rparr> var" for P f ctx var c
    by (simp only: open_device_triplet_def any_triplet_def device_triplet.simps)
  show ?thesis
    by (intro conjI any) (simp_all add: any_triplet_def open_device_triplet_def as_optional_def)
qed

end
