(* ===== verification/Guards.thy ===== *)
theory Guards
  imports Device
begin

text \<open>
  The two RAII guards over a device handle: a claimed interface (\<open>wrapper/interface.hpp\<close>) and a
  detached kernel driver (\<open>wrapper/driver_guard.hpp\<close>).  A token is a pair of handle and interface
  number.
\<close>

section \<open>interface.hpp\<close>

record interface =
  if_devh :: devh
  if_num :: int

definition make_interface :: "device_handle_source \<Rightarrow> int \<Rightarrow> interface" where
  "make_interface src num = \<lparr>if_devh = device_handle_of src, if_num = num\<rparr>"

text \<open>\<open>release\<close>: the result of \<open>libusb_release_interface\<close> comes first; the last component of the
  value is the list of calls made to it.\<close>

definition interface_release ::
  "int \<Rightarrow> interface \<Rightarrow> error_code \<Rightarrow> interface \<times> error_code \<times> (nat \<times> int) list" where
  "interface_release r i ec =
     (case if_devh i of
        None \<Rightarrow> (i, ec, [])
      | Some h \<Rightarrow>
          (i\<lparr>if_devh := None\<rparr>, if r \<noteq> LIBUSB_SUCCESS then make_usb_error_code r else ec, [(h, if_num i)]))"

text \<open>The destructor: the exception it throws, if any.\<close>

definition interface_dtor :: "int \<Rightarrow> interface \<Rightarrow> error_code option \<times> (nat \<times> int) list" where
  "interface_dtor r i =
     (let (i, ec, calls) = interface_release r i ec_none
      in (if ec_bool ec then Some ec else None, calls))"

definition interface_move :: "interface \<Rightarrow> interface \<times> interface" where
  "interface_move other =
     (\<lparr>if_devh = if_devh other, if_num = if_num other\<rparr>, other\<lparr>if_devh := None\<rparr>)"

text \<open>Move assignment; \<open>same\<close> is \<open>this == &other\<close>.\<close>

definition interface_move_assign ::
  "bool \<Rightarrow> int \<Rightarrow> interface \<Rightarrow> interface \<Rightarrow> error_code option \<times> interface \<times> interface \<times> (nat \<times> int) list" where
  "interface_move_assign same r this other =
     (if same then (None, this, other, [])
      else
        (let (this, ec, calls) = interface_release r this ec_none
         in if ec_bool ec then (Some ec, this, other, calls)
            else (None, this\<lparr>if_devh := if_devh other, if_num := if_num other\<rparr>,
                  other\<lparr>if_devh := None\<rparr>, calls)))"

definition interface_devh :: "interface \<Rightarrow> devh" where
  "interface_devh i = if_devh i"

definition claim_interface ::
  "(interface, 'r) protocol \<Rightarrow> (devh \<Rightarrow> int \<Rightarrow> int) \<Rightarrow> device_handle_source \<Rightarrow> int \<Rightarrow> error_code
     \<Rightarrow> 'r \<times> error_code" where
  "claim_interface P libusb_claim_interface devh_src num var =
     (let devh = device_handle_of devh_src; r = libusb_claim_interface devh num
      in if r \<noteq> LIBUSB_SUCCESS then with_error P (make_usb_error_code r) var
         else with_success P (make_interface (Pointer_Source (Raw_Pointer devh)) num) var)"

definition interface_num :: "interface \<Rightarrow> int" where
  "interface_num i = if_num i"

definition claim_interface_throwing ::
  "(devh \<Rightarrow> int \<Rightarrow> int) \<Rightarrow> device_handle_source \<Rightarrow> int \<Rightarrow> error_code + interface" where
  "claim_interface_throwing libusb_claim_interface devh_src num =
     fst (claim_interface as_exception libusb_claim_interface devh_src num ec_none)"

section \<open>driver_guard.hpp\<close>

record driver_guard =
  dg_devh :: devh
  dg_num :: int

definition make_driver_guard :: "device_handle_source \<Rightarrow> int \<Rightarrow> driver_guard" where
  "make_driver_guard src num = \<lparr>dg_devh = device_handle_of src, dg_num = num\<rparr>"

definition driver_attach ::
  "int \<Rightarrow> driver_guard \<Rightarrow> error_code \<Rightarrow> driver_guard \<times> error_code \<times> (nat \<times> int) list" where
  "driver_attach r g ec =
     (case dg_devh g of
        None \<Rightarrow> (g, ec, [])
      | Some h \<Rightarrow>
          (g\<lparr>dg_devh := None\<rparr>, if r \<noteq> LIBUSB_SUCCESS then make_usb_error_code r else ec, [(h, dg_num g)]))"

definition driver_guard_dtor :: "int \<Rightarrow> driver_guard \<Rightarrow> error_code option \<times> (nat \<times> int) list" where
  "driver_guard_dtor r g =
     (let (g, ec, calls) = driver_attach r g ec_none
      in (if ec_bool ec then Some ec else None, calls))"

definition driver_guard_move :: "driver_guard \<Rightarrow> driver_guard \<times> driver_guard" where
  "driver_guard_move other =
     (\<lparr>dg_devh = dg_devh other, dg_num = dg_num other\<rparr>, other\<lparr>dg_devh := None\<rparr>)"

definition driver_guard_move_assign ::
  "bool \<Rightarrow> int \<Rightarrow> driver_guard \<Rightarrow> driver_guard
     \<Rightarrow> error_code option \<times> driver_guard \<times> driver_guard \<times> (nat \<times> int) list" where
  "driver_guard_move_assign same r this other =
     (if same then (None, this, other, [])
      else
        (let (this, ec, calls) = driver_attach r this ec_none
         in if ec_bool ec then (Some ec, this, other, calls)
            else (None, this\<lparr>dg_devh := dg_devh other, dg_num := dg_num other\<rparr>,
                  other\<lparr>dg_devh := None\<rparr>, calls)))"

definition driver_guard_devh :: "driver_guard \<Rightarrow> devh" where
  "driver_guard_devh g = dg_devh g"

definition detach_driver ::
  "(driver_guard, 'r) protocol \<Rightarrow> (devh \<Rightarrow> int \<Rightarrow> int) \<Rightarrow> device_handle_source \<Rightarrow> int \<Rightarrow> error_code
     \<Rightarrow> 'r \<times> error_code" where
  "detach_driver P libusb_detach_kernel_driver devh_src num var =
     (let devh = device_handle_of devh_src; r = libusb_detach_kernel_driver devh num
      in if r \<noteq> LIBUSB_SUCCESS then with_error P (make_usb_error_code r) var
         else with_success P (make_driver_guard (Pointer_Source (Raw_Pointer devh)) num) var)"

definition driver_guard_num :: "driver_guard \<Rightarrow> int" where
  "driver_guard_num g = dg_num g"

definition detach_driver_throwing ::
  "(devh \<Rightarrow> int \<Rightarrow> int) \<Rightarrow> device_handle_source \<Rightarrow> int \<Rightarrow> error_code + driver_guard" where
  "detach_driver_throwing libusb_detach_kernel_driver devh_src num =
     fst (detach_driver as_exception libusb_detach_kernel_driver devh_src num ec_none)"

section \<open>Both as owners\<close>

definition interface_tokens :: "interface \<Rightarrow> (nat \<times> int) list" where
  "interface_tokens i = (case if_devh i of None \<Rightarrow> [] | Some h \<Rightarrow> [(h, if_num i)])"

definition interface_ops :: "(interface, nat \<times> int) owner_ops" where
  "interface_ops =
     \<lparr>op_make = (\<lambda>(h, n). make_interface (Pointer_Source (Raw_Pointer (Some h))) n), op_move = interface_move,
      op_assign = (\<lambda>r g h. Some (snd (interface_move_assign False r g h))),
      op_dispose = (\<lambda>r g. let (g, ec, calls) = interface_release r g ec_none in Some (g, calls)),
      op_give_up = (\<lambda>g. (g, [])), op_destroy = (\<lambda>r g. Some (snd (interface_dtor r g))), op_emplace = (\<lambda>t g. None)\<rparr>"

definition driver_tokens :: "driver_guard \<Rightarrow> (nat \<times> int) list" where
  "driver_tokens g = (case dg_devh g of None \<Rightarrow> [] | Some h \<Rightarrow> [(h, dg_num g)])"

definition driver_ops :: "(driver_guard, nat \<times> int) owner_ops" where
  "driver_ops =
     \<lparr>op_make = (\<lambda>(h, n). make_driver_guard (Pointer_Source (Raw_Pointer (Some h))) n), op_move = driver_guard_move,
      op_assign = (\<lambda>r g h. Some (snd (driver_guard_move_assign False r g h))),
      op_dispose = (\<lambda>r g. let (g, ec, calls) = driver_attach r g ec_none in Some (g, calls)),
      op_give_up = (\<lambda>g. (g, [])), op_destroy = (\<lambda>r g. Some (snd (driver_guard_dtor r g))), op_emplace = (\<lambda>t g. None)\<rparr>"

lemmas interface_defs = interface_tokens_def interface_ops_def make_interface_def interface_move_def
  interface_move_assign_def interface_release_def interface_dtor_def

lemmas driver_defs = driver_tokens_def driver_ops_def make_driver_guard_def driver_guard_move_def
  driver_guard_move_assign_def driver_attach_def driver_guard_dtor_def

interpretation interface_owner: owner interface_ops interface_tokens
  by unfold_locales (auto simp: interface_defs Let_def split: prod.splits option.splits if_splits)

interpretation driver_owner: owner driver_ops driver_tokens
  by unfold_locales (auto simp: driver_defs Let_def split: prod.splits option.splits if_splits)

section \<open>Properties\<close>

text \<open>a claimed interface is released exactly once or owned by exactly one \<open>interface\<close> object,
  whatever the moves, assignments and calls of \<open>release\<close>, and whether or not the release calls
  succeed; when no object is left, exactly the claims that were made have been released.\<close>

theorem interface_released_once:
  assumes "run (owner_step interface_ops) es owner_init = Some w"
  shows "mset (acquired w) = mset (disposed w) + held interface_tokens (objs w)
    \<and> (dom (objs w) = {} \<longrightarrow> mset (disposed w) = mset (acquired w))"
proof -
  have "given_up w = []"
    using interface_owner.never_given_up [OF _ assms] by (simp add: interface_ops_def owner_init_def)
  then show ?thesis
    using interface_owner.tokens_accounted [OF assms] interface_owner.nothing_left [OF assms] by auto
qed

lemma ex_interface_run:
  "\<exists>w. run (owner_step interface_ops)
      [Acquire 0 (5, 1), Acquire 1 (5, 2), Move_Assign 0 1 (-4), Dispose 0 0, Move 2 1, Destroy 2 0, Destroy 1 0]
      owner_init = Some w \<and> disposed w = [(5, 1), (5, 2)]"
  by (rule run_satD) code_simp

theorem interface_released_once_witness:
  "\<exists>w. run (owner_step interface_ops)
      [Acquire 0 (5, 1), Acquire 1 (5, 2), Move_Assign 0 1 (-4), Dispose 0 0, Move 2 1, Destroy 2 0, Destroy 1 0]
      owner_init = Some w \<and> mset (acquired w) = {#(5, 1), (5, 2)#} + held interface_tokens (objs w)"
  using ex_interface_run interface_released_once by fastforce

text \<open>A detached kernel driver is attached again exactly once, under the same conditions.\<close>

theorem driver_attached_once:
  assumes "run (owner_step driver_ops) es owner_init = Some w"
  shows "mset (acquired w) = mset (disposed w) + held driver_tokens (objs w)
    \<and> (dom (objs w) = {} \<longrightarrow> mset (disposed w) = mset (acquired w))"
proof -
  have "given_up w = []"
    using driver_owner.never_given_up [OF _ assms] by (simp add: driver_ops_def owner_init_def)
  then show ?thesis
    using driver_owner.tokens_accounted [OF assms] driver_owner.nothing_left [OF assms] by auto
qed

lemma ex_driver_run:
  "\<exists>w. run (owner_step driver_ops) [Acquire 0 (5, 1), Acquire 1 (5, 2), Move_Assign 0 1 0, Destroy 0 0] owner_init
      = Some w \<and> disposed w = [(5, 1), (5, 2)]"
  by (rule run_satD) code_simp

theorem driver_attached_once_witness:
  "\<exists>w. run (owner_step driver_ops) [Acquire 0 (5, 1), Acquire 1 (5, 2), Move_Assign 0 1 0, Destroy 0 0] owner_init
      = Some w \<and> mset (acquired w) = {#(5, 1), (5, 2)#} + held driver_tokens (objs w)"
  using ex_driver_run driver_attached_once by fastforce

text \<open>Errors of a guard that holds an interface: \<open>release\<close> sets the caller's error code exactly if
  libusb fails and otherwise leaves it, the destructor and the move assignment throw exactly
  then; a failed assignment leaves the other object untouched, but the guard has let go of its
  own interface, so the release is never tried again.\<close>

theorem interface_release_errors:
  assumes "if_devh this = Some h"
  shows "interface_release r this ec =
      (this\<lparr>if_devh := None\<rparr>, if r = LIBUSB_SUCCESS then ec else make_usb_error_code r, [(h, if_num this)])
    \<and> (fst (interface_dtor r this) = None \<longleftrightarrow> r = LIBUSB_SUCCESS)
    \<and> (r \<noteq> LIBUSB_SUCCESS \<longrightarrow> interface_move_assign False r this other =
        (Some (make_usb_error_code r), this\<lparr>if_devh := None\<rparr>, other, [(h, if_num this)]))
    \<and> interface_dtor r' (this\<lparr>if_devh := None\<rparr>) = (None, [])"
  using assms by (simp add: interface_release_def interface_dtor_def interface_move_assign_def)

theorem interface_release_errors_witness:
  "fst (interface_dtor (-4) \<lparr>if_devh = Some 5, if_num = 1\<rparr>) \<noteq> None"
  using interface_release_errors [of "\<lparr>if_devh = Some 5, if_num = 1\<rparr>" 5 "-4"] by simp

text \<open>Claiming and detaching report through every protocol what libusb returned: the guard for the
  handle of the source and the number asked for, or libusb's error code.\<close>

theorem guards_report_outcome:
  "exception_outcome (claim_interface as_exception f src n var) =
     (if f (device_handle_of src) n = LIBUSB_SUCCESS
      then Inr \<lparr>if_devh = device_handle_of src, if_num = n\<rparr>
      else Inl (make_usb_error_code (f (device_handle_of src) n)))
   \<and> results_outcome (claim_interface as_results f src n var) =
       exception_outcome (claim_interface as_exception f src n var)
   \<and> optional_outcome (detach_driver as_optional f src n var) =
       exception_outcome (detach_driver as_exception f src n var)
   \<and> expected_outcome (detach_driver as_expected f src n var) =
     (if f (device_handle_of src) n = LIBUSB_SUCCESS
      then Inr \<lparr>dg_devh = device_handle_of src, dg_num = n\<rparr>
      else Inl (make_usb_error_code (f (device_handle_of src) n)))"
proof -
  have c: "claim_interface P f src n var =
      report_rc P (f (device_handle_of src) n) \<lparr>if_devh = device_handle_of src, if_num = n\<rparr> var" for P
    by (simp add: claim_interface_def make_interface_def report_rc_def Let_def)
  have d: "detach_driver P f src n var =
      report_rc P (f (device_handle_of src) n) \<lparr>dg_devh = device_handle_of src, dg_num = n\<rparr> var" for P
    by (simp add: detach_driver_def make_driver_guard_def report_rc_def Let_def)
  show ?thesis
    unfolding c d by (simp add: exception_protocol.outcome_report_rc optional_protocol.outcome_report_rc
        expected_protocol.outcome_report_rc results_protocol.outcome_report_rc)
qed

end
