(* ===== verification/Device_Session.thy ===== *)
theory Device_Session
  imports Guards Transfers
begin

text \<open>
  A client of the library, the coroutine \<open>dev_loop\<close> of \<open>src/examples/02-hotplug-integration.cpp\<close> (that
  of \<open>03-complete-io.cpp\<close> differs in the read operation and the number of transfers): it opens a
  device, detaches the kernel driver, claims an interface, allocates transfers, reads until it is
  stopped or fails, if it is, and leaves; on every way out the destructors of the locals give back, in
  reverse order, what was taken.  Its calls of libusb are logged and checked against a
  specification of what libusb's user may call when.
\<close>

section \<open>libusb, as the client sees it\<close>

text \<open>
  The results of the calls; \<open>lu_release\<close> and \<open>lu_attach\<close> are what \<open>libusb_release_interface\<close> and
  \<open>libusb_attach_kernel_driver\<close> return, \<open>lu_alloc i\<close> is the \<open>i\<close>th transfer allocated.  \<open>lu_reads\<close> is what the
  loop meets: whether stop is requested at its condition, and the result of the read if not.
\<close>

record libusb_results =
  lu_open :: "nat option \<Rightarrow> int \<times> devh"
  lu_detach :: "devh \<Rightarrow> int \<Rightarrow> int"
  lu_claim :: "devh \<Rightarrow> int \<Rightarrow> int"
  lu_release :: int
  lu_attach :: int
  lu_alloc :: "nat \<Rightarrow> tid option"
  lu_reads :: "(bool \<times> error_code \<times> size_t) list"

datatype usb_call =
    U_Ref ref_call | U_Open devh | U_Detach devh int bool | U_Claim devh int bool
  | U_Release nat int | U_Attach nat int | U_Close nat | U_Alloc tid | U_Free tid
  | U_Handler_Ref | U_Handler_Unref

section \<open>Leaving a scope\<close>

text \<open>
  The locals that have something to give back, and how the destruction of a scope ends: with no
  exception or the one it began or was left with, or in \<open>std::terminate\<close> (a destructor throws while
  another exception is on its way, or throws through a \<open>noexcept\<close> destructor).  \<open>In_Loop\<close>: the coroutine
  has not ended, it is in its reading loop.
\<close>

datatype local =
    L_Ref device_ref | L_Handle device_handle | L_Maybe_Handle "device_handle option"
  | L_Guard "driver_guard expected" | L_Interface interface | L_Maybe_Interface "interface option"
  | L_Transfers "tid list" | L_Io

datatype thrown = System_Error error_code | Alloc_Error

datatype session_end = Ended "thrown option" | In_Loop | Std_Terminate | Undefined_Use

definition destroy_handle :: "device_handle \<Rightarrow> usb_call list" where
  "destroy_handle d = map U_Close (device_handle_dtor d)"

definition destroy_interface :: "libusb_results \<Rightarrow> interface \<Rightarrow> error_code option \<times> usb_call list" where
  "destroy_interface lu i =
     (case interface_dtor (lu_release lu) i of (ec, cs) \<Rightarrow> (ec, map (\<lambda>(h, n). U_Release h n) cs))"

definition destroy_guard :: "libusb_results \<Rightarrow> driver_guard \<Rightarrow> error_code option \<times> usb_call list" where
  "destroy_guard lu g =
     (case driver_guard_dtor (lu_attach lu) g of (ec, cs) \<Rightarrow> (ec, map (\<lambda>(h, n). U_Attach h n) cs))"

fun destroy_local :: "libusb_results \<Rightarrow> local \<Rightarrow> error_code option \<times> usb_call list" where
  "destroy_local lu (L_Ref r) = (None, map U_Ref (device_ref_dtor r))"
| "destroy_local lu (L_Handle d) = (None, destroy_handle d)"
| "destroy_local lu (L_Maybe_Handle d) = (None, case d of None \<Rightarrow> [] | Some d \<Rightarrow> destroy_handle d)"
| "destroy_local lu (L_Guard (Unexpected ec)) = (None, [])"
| "destroy_local lu (L_Guard (Expected g)) = destroy_guard lu g"
| "destroy_local lu (L_Interface i) = destroy_interface lu i"
| "destroy_local lu (L_Maybe_Interface i) = (case i of None \<Rightarrow> (None, []) | Some i \<Rightarrow> destroy_interface lu i)"
| "destroy_local lu (L_Transfers ts) = (None, map U_Free ts)"
| "destroy_local lu L_Io = (None, [U_Handler_Unref])"

text \<open>Whether the destructors of \<open>std::optional\<close> and \<open>std::expected\<close> let an exception of the object in them
  out is a parameter.\<close>

fun wrapped :: "local \<Rightarrow> bool" where
  "wrapped (L_Guard g) = True"
| "wrapped (L_Maybe_Interface i) = True"
| "wrapped l = False"

fun leave_scope :: "bool \<Rightarrow> libusb_results \<Rightarrow> thrown option \<Rightarrow> local list \<Rightarrow> usb_call list \<times> session_end" where
  "leave_scope wrappers_throw lu exc [] = ([], Ended exc)"
| "leave_scope wrappers_throw lu exc (l # ls) =
     (case destroy_local lu l of (thrown, cs) \<Rightarrow>
        (case thrown of
           None \<Rightarrow> (case leave_scope wrappers_throw lu exc ls of (cs', e) \<Rightarrow> (cs @ cs', e))
         | Some ec \<Rightarrow>
             if exc \<noteq> None \<or> wrapped l \<and> \<not> wrappers_throw then (cs, Std_Terminate)
             else (case leave_scope wrappers_throw lu (Some (System_Error ec)) ls of (cs', e) \<Rightarrow> (cs @ cs', e))))"

section \<open>dev_loop\<close>

text \<open>\<open>tfers.resize(n)\<close>: each element is a \<open>resource\<close>; if one cannot be made, those before it are
  destroyed again.  The second list is the calls.\<close>

fun resize_resources :: "libusb_results \<Rightarrow> nat \<Rightarrow> nat \<Rightarrow> tid list \<Rightarrow> tid list option \<times> usb_call list" where
  "resize_resources lu i 0 ts = (Some ts, [])"
| "resize_resources lu i (Suc n) ts =
     (case make_resource (\<lambda>_. lu_alloc lu i) 0 of
        Inl Bad_Alloc \<Rightarrow> (None, map U_Free ts)
      | Inr t \<Rightarrow>
          (case resize_resources lu (i + 1) n (ts @ [t]) of (r, cs) \<Rightarrow> (r, U_Alloc t # cs)))"

text \<open>The loop, with the total it ends with; \<open>None\<close> if it has not ended when the list has.\<close>

fun read_loop :: "(bool \<times> error_code \<times> size_t) list \<Rightarrow> size_t \<Rightarrow> size_t option" where
  "read_loop [] total_bytes = None"
| "read_loop ((stop, rec, rn) # rest) total_bytes =
     (if stop then Some total_bytes
      else let total_bytes = total_bytes + rn in
        if ec_bool rec then Some total_bytes else read_loop rest total_bytes)"

text \<open>From the allocation of the transfers on; \<open>frame\<close> is what was there before, innermost first.\<close>

definition session_body ::
  "bool \<Rightarrow> libusb_results \<Rightarrow> nat \<Rightarrow> local list \<Rightarrow> usb_call list \<times> session_end" where
  "session_body wrappers_throw lu n frame =
     (case resize_resources lu 0 n [] of
        (None, cs) \<Rightarrow>
          (case leave_scope wrappers_throw lu (Some Alloc_Error) frame of (cs', e) \<Rightarrow> (cs @ cs', e))
      | (Some ts, cs) \<Rightarrow>
          (case read_loop (lu_reads lu) 0 of
             None \<Rightarrow> (cs @ [U_Handler_Ref], In_Loop)
           | Some total_bytes \<Rightarrow>
               (case leave_scope wrappers_throw lu None (L_Io # L_Transfers ts # frame) of
                  (cs', e) \<Rightarrow> (cs @ [U_Handler_Ref] @ cs', e))))"

definition dev_iface_num :: int where
  "dev_iface_num = 0"

text \<open>The interface is claimed in an optional and moved out of it.\<close>

definition session_claim ::
  "bool \<Rightarrow> libusb_results \<Rightarrow> nat \<Rightarrow> device_handle \<Rightarrow> error_code \<Rightarrow> local list \<Rightarrow> usb_call list \<times> session_end" where
  "session_claim wrappers_throw lu n devh ec frame =
     (let src = Pointer_Source (Raw_Pointer (device_handle_get devh));
          (maybe_iface, ec) = claim_interface as_optional (lu_claim lu) src dev_iface_num ec;
          call = U_Claim (device_handle_get devh) dev_iface_num (\<not> ec_bool ec)
      in
        (case (if ec_bool ec then leave_scope wrappers_throw lu None (L_Maybe_Interface maybe_iface # frame)
               else case maybe_iface of
                 None \<Rightarrow> ([], Undefined_Use)
               | Some i \<Rightarrow>
                   (case interface_move i of (iface, rest) \<Rightarrow>
                      session_body wrappers_throw lu n
                        (L_Interface iface # L_Maybe_Interface (Some rest) # frame)))
         of (cs, e) \<Rightarrow> (call # cs, e)))"

definition session_detach ::
  "bool \<Rightarrow> libusb_results \<Rightarrow> nat \<Rightarrow> device_handle \<Rightarrow> error_code \<Rightarrow> local list \<Rightarrow> usb_call list \<times> session_end" where
  "session_detach wrappers_throw lu n devh ec frame =
     (let src = Pointer_Source (Raw_Pointer (device_handle_get devh));
          (maybe_guard, _) = detach_driver as_expected (lu_detach lu) src dev_iface_num ec;
          ok = (case maybe_guard of Unexpected _ \<Rightarrow> False | Expected _ \<Rightarrow> True)
      in
        (case session_claim wrappers_throw lu n devh ec (L_Guard maybe_guard # frame)
         of (cs, e) \<Rightarrow> (U_Detach (device_handle_get devh) dev_iface_num ok # cs, e)))"

text \<open>The coroutine: \<open>dev\<close> is its parameter, which outlives the locals; \<open>open_device\<close> takes it by value.\<close>

definition dev_loop :: "bool \<Rightarrow> libusb_results \<Rightarrow> nat \<Rightarrow> device_ref \<Rightarrow> usb_call list \<times> session_end" where
  "dev_loop wrappers_throw lu n dev =
     (let (arg, refs) = device_ref_copy dev;
          (maybe_devh, ec) = open_device_ref as_optional (lu_open lu) arg ec_none;
          opened = map U_Ref refs @ [U_Open (case maybe_devh of None \<Rightarrow> None | Some d \<Rightarrow> device_handle_get d)]
            @ map U_Ref (device_ref_dtor arg)
      in
        (case (if ec_bool ec then leave_scope wrappers_throw lu None [L_Maybe_Handle maybe_devh, L_Ref dev]
               else case maybe_devh of
                 None \<Rightarrow> ([], Undefined_Use)
               | Some d \<Rightarrow>
                   (case device_handle_move d of (devh, rest) \<Rightarrow>
                      session_detach wrappers_throw lu n devh ec
                        [L_Handle devh, L_Maybe_Handle (Some rest), L_Ref dev]))
         of (cs, e) \<Rightarrow> (opened @ cs, e)))"

section \<open>What libusb asks of its user\<close>

text \<open>
  A device is only used while a reference to it is held; a handle is used only while it is open; an
  interface is released and a driver attached again only while it is claimed or detached; a handle
  is closed when none of its interfaces is claimed; a transfer is freed once.
\<close>

record usb_use =
  uu_refs :: "nat multiset"
  uu_open :: "nat list"
  uu_claimed :: "(nat \<times> int) list"
  uu_detached :: "(nat \<times> int) list"
  uu_transfers :: "tid multiset"
  uu_handler :: nat

definition usb_idle :: "nat multiset \<Rightarrow> usb_use" where
  "usb_idle refs = \<lparr>uu_refs = refs, uu_open = [], uu_claimed = [], uu_detached = [], uu_transfers = {#}, uu_handler = 0\<rparr>"

fun usb_allows :: "usb_call \<Rightarrow> usb_use \<Rightarrow> usb_use option" where
  "usb_allows (U_Ref (Ref_Device d)) u = (if d \<in># uu_refs u then Some (u\<lparr>uu_refs := add_mset d (uu_refs u)\<rparr>) else None)"
| "usb_allows (U_Ref (Unref_Device d)) u = (if d \<in># uu_refs u then Some (u\<lparr>uu_refs := uu_refs u - {#d#}\<rparr>) else None)"
| "usb_allows (U_Open h) u =
     (case h of None \<Rightarrow> Some u | Some h \<Rightarrow> if h \<in> set (uu_open u) then None else Some (u\<lparr>uu_open := h # uu_open u\<rparr>))"
| "usb_allows (U_Detach h n ok) u =
     (case h of None \<Rightarrow> None
      | Some h \<Rightarrow> if h \<in> set (uu_open u)
          then Some (if ok then u\<lparr>uu_detached := (h, n) # uu_detached u\<rparr> else u) else None)"
| "usb_allows (U_Claim h n ok) u =
     (case h of None \<Rightarrow> None
      | Some h \<Rightarrow> if h \<in> set (uu_open u)
          then Some (if ok then u\<lparr>uu_claimed := (h, n) # uu_claimed u\<rparr> else u) else None)"
| "usb_allows (U_Release h n) u =
     (if h \<in> set (uu_open u) \<and> (h, n) \<in> set (uu_claimed u)
      then Some (u\<lparr>uu_claimed := remove1 (h, n) (uu_claimed u)\<rparr>) else None)"
| "usb_allows (U_Attach h n) u =
     (if h \<in> set (uu_open u) \<and> (h, n) \<in> set (uu_detached u) \<and> (h, n) \<notin> set (uu_claimed u)
      then Some (u\<lparr>uu_detached := remove1 (h, n) (uu_detached u)\<rparr>) else None)"
| "usb_allows (U_Close h) u =
     (if h \<in> set (uu_open u) \<and> h \<notin> fst ` set (uu_claimed u) \<and> h \<notin> fst ` set (uu_detached u)
      then Some (u\<lparr>uu_open := remove1 h (uu_open u)\<rparr>) else None)"
| "usb_allows (U_Alloc t) u = Some (u\<lparr>uu_transfers := add_mset t (uu_transfers u)\<rparr>)"
| "usb_allows (U_Free t) u =
     (if t \<in># uu_transfers u then Some (u\<lparr>uu_transfers := uu_transfers u - {#t#}\<rparr>) else None)"
| "usb_allows U_Handler_Ref u = Some (u\<lparr>uu_handler := uu_handler u + 1\<rparr>)"
| "usb_allows U_Handler_Unref u = (if uu_handler u = 0 then None else Some (u\<lparr>uu_handler := uu_handler u - 1\<rparr>))"

section \<open>Every way out\<close>

text \<open>A list of calls that libusb allows, and what is in use after it.\<close>

definition uses :: "usb_call list \<Rightarrow> usb_use \<Rightarrow> usb_use \<Rightarrow> bool" where
  "uses cs u t \<longleftrightarrow> run usb_allows cs u = Some t"

lemma uses_simps [simp]:
  "uses [] u t \<longleftrightarrow> u = t"
  "uses (c # cs) u t \<longleftrightarrow> (case usb_allows c u of None \<Rightarrow> False | Some v \<Rightarrow> uses cs v t)"
  by (simp_all add: uses_def split: option.splits)

lemma uses_append: "uses (cs @ ds) u t \<longleftrightarrow> (\<exists>v. uses cs u v \<and> uses ds v t)"
  by (auto simp: uses_def run_append split: option.splits)

lemma free_all: "uu_transfers u = mset ts \<Longrightarrow> uses (map U_Free ts) u (u\<lparr>uu_transfers := {#}\<rparr>)"
proof (induction ts arbitrary: u)
  case (Cons t ts)
  then have "uses (map U_Free ts) (u\<lparr>uu_transfers := mset ts\<rparr>) (u\<lparr>uu_transfers := {#}\<rparr>)"
    using Cons.IH [of "u\<lparr>uu_transfers := mset ts\<rparr>"] by simp
  then show ?case using Cons.prems by simp
qed simp

lemma resize_uses:
  assumes "resize_resources lu i n ts = (r, cs)" "uu_transfers u = mset ts"
  shows "uses cs u (u\<lparr>uu_transfers := (case r of None \<Rightarrow> {#} | Some ts' \<Rightarrow> mset ts')\<rparr>)"
  using assms
proof (induction lu i n ts arbitrary: cs u rule: resize_resources.induct)
  case (1 lu i ts)
  then have "u\<lparr>uu_transfers := mset ts\<rparr> = u" by (cases u) simp
  then show ?case using 1 by auto
next
  case (2 lu i n ts)
  show ?case
  proof (cases "lu_alloc lu i")
    case None
    then show ?thesis using 2(2) free_all [OF 2(3)] by (simp add: make_resource_def)
  next
    case (Some t)
    obtain r' cs' where rest: "resize_resources lu (i + 1) n (ts @ [t]) = (r', cs')" by fastforce
    have m: "make_resource (\<lambda>_. lu_alloc lu i) 0 = Inr t" by (simp add: make_resource_def Some)
    let ?u = "u\<lparr>uu_transfers := mset (ts @ [t])\<rparr>"
    have "r' = r" "cs = U_Alloc t # cs'" using 2(2) rest by (simp_all add: m)
    moreover have "uses cs' ?u (?u\<lparr>uu_transfers := (case r of None \<Rightarrow> {#} | Some ts' \<Rightarrow> mset ts')\<rparr>)"
      using 2(1) [OF m _ , of cs' ?u] rest \<open>r' = r\<close> by simp
    ultimately show ?thesis using 2(3) by simp
  qed
qed

text \<open>A session on handle \<open>h\<close> of device \<open>d\<close>: what is in use from the opening on.\<close>

definition in_session :: "nat multiset \<Rightarrow> nat \<Rightarrow> bool \<Rightarrow> bool \<Rightarrow> usb_use" where
  "in_session refs h detached claimed = (usb_idle refs)\<lparr>uu_open := [h],
     uu_detached := (if detached then [(h, dev_iface_num)] else []),
     uu_claimed := (if claimed then [(h, dev_iface_num)] else [])\<rparr>"

text \<open>The locals around the transfers, innermost first.\<close>

definition outer_frame :: "nat \<Rightarrow> nat \<Rightarrow> local list" where
  "outer_frame d h = [L_Handle \<lparr>m_storage = Some h\<rparr>, L_Maybe_Handle (Some \<lparr>m_storage = None\<rparr>), L_Ref \<lparr>m_dev = Some d\<rparr>]"

definition guard_local :: "nat \<Rightarrow> int \<Rightarrow> local" where
  "guard_local h rc = L_Guard (if rc = LIBUSB_SUCCESS then Expected \<lparr>dg_devh = Some h, dg_num = dev_iface_num\<rparr>
     else Unexpected (make_usb_error_code rc))"

definition inner_frame :: "nat \<Rightarrow> nat \<Rightarrow> int \<Rightarrow> local list" where
  "inner_frame d h rc = L_Interface \<lparr>if_devh = Some h, if_num = dev_iface_num\<rparr>
     # L_Maybe_Interface (Some \<lparr>if_devh = None, if_num = dev_iface_num\<rparr>) # guard_local h rc # outer_frame d h"

text \<open>The calls of a session are allowed; when it has ended nothing is left in use, and while it reads it
  has one handle open, the interface claimed and one reference to the event handler; or the program is
  terminated, and that only if a destructor threw.\<close>

definition reads_on :: "usb_use \<Rightarrow> bool" where
  "reads_on t \<longleftrightarrow> uu_handler t = 1 \<and> (\<exists>h. uu_open t = [h] \<and> uu_claimed t = [(h, dev_iface_num)])"

definition closes :: "nat multiset \<Rightarrow> usb_use \<Rightarrow> bool \<Rightarrow> usb_call list \<times> session_end \<Rightarrow> bool" where
  "closes refs u failed r \<longleftrightarrow>
     (case r of (cs, e) \<Rightarrow> \<exists>t. uses cs u t \<and>
        (case e of Ended exc \<Rightarrow> t = usb_idle refs | In_Loop \<Rightarrow> reads_on t | Std_Terminate \<Rightarrow> failed
         | Undefined_Use \<Rightarrow> False))"

lemma closesE:
  assumes "closes refs u failed (cs, e)"
  obtains t where "uses cs u t" "\<forall>exc. e = Ended exc \<longrightarrow> t = usb_idle refs" "e \<noteq> Undefined_Use"
  using assms by (cases e) (auto simp: closes_def)

lemma closes_prepend:
  assumes "usb_allows c u = Some v" "closes refs v failed r"
  shows "closes refs u failed (case r of (cs, e) \<Rightarrow> (c # cs, e))"
  using assms by (auto simp: closes_def split: prod.splits)

lemma closes_append:
  assumes "uses ds u v" "closes refs v failed r"
  shows "closes refs u failed (case r of (cs, e) \<Rightarrow> (ds @ cs, e))"
  using assms by (auto simp: closes_def uses_append split: prod.splits)

lemma closes_mono: "closes refs u failed r \<Longrightarrow> (failed \<Longrightarrow> failed') \<Longrightarrow> closes refs u failed' r"
  by (fastforce simp: closes_def split: session_end.splits)

lemmas destroy_defs = destroy_handle_def destroy_guard_def destroy_interface_def device_handle_defs
  interface_defs driver_defs device_ref_defs

lemma guard_closes:
  assumes "d \<in># refs"
  shows "closes (refs - {#d#}) (in_session refs h (rc = LIBUSB_SUCCESS) False)
     (rc = LIBUSB_SUCCESS \<and> lu_attach lu \<noteq> LIBUSB_SUCCESS)
     (leave_scope wt lu exc (guard_local h rc # outer_frame d h))"
  using assms
  by (auto simp: closes_def guard_local_def outer_frame_def in_session_def usb_idle_def destroy_defs)

lemma interface_closes:
  assumes "d \<in># refs"
  shows "closes (refs - {#d#}) (in_session refs h (rc = LIBUSB_SUCCESS) True)
     (rc = LIBUSB_SUCCESS \<and> lu_attach lu \<noteq> LIBUSB_SUCCESS \<or> lu_release lu \<noteq> LIBUSB_SUCCESS)
     (leave_scope wt lu exc (inner_frame d h rc))"
  using assms
  by (auto simp: closes_def inner_frame_def guard_local_def outer_frame_def in_session_def usb_idle_def destroy_defs)

lemma body_closes:
  assumes d: "d \<in># refs"
  shows "closes (refs - {#d#}) (in_session refs h (rc = LIBUSB_SUCCESS) True)
     (rc = LIBUSB_SUCCESS \<and> lu_attach lu \<noteq> LIBUSB_SUCCESS \<or> lu_release lu \<noteq> LIBUSB_SUCCESS)
     (session_body wt lu n (inner_frame d h rc))"
proof -
  let ?u = "in_session refs h (rc = LIBUSB_SUCCESS) True"
  let ?failed = "rc = LIBUSB_SUCCESS \<and> lu_attach lu \<noteq> LIBUSB_SUCCESS \<or> lu_release lu \<noteq> LIBUSB_SUCCESS"
  obtain r cs where r: "resize_resources lu 0 n [] = (r, cs)" by fastforce
  have tr: "uu_transfers ?u = mset []" by (simp add: in_session_def usb_idle_def)
  note alloc = resize_uses [OF r tr]
  have frame: "closes (refs - {#d#}) ?u ?failed (leave_scope wt lu exc (inner_frame d h rc))" for exc
    using d by (rule interface_closes)
  show ?thesis
  proof (cases r)
    case None
    have "?u\<lparr>uu_transfers := {#}\<rparr> = ?u" by (simp add: in_session_def usb_idle_def)
    then show ?thesis using closes_append [OF _ frame, of cs ?u "Some Alloc_Error"] alloc None
      by (simp add: session_body_def r)
  next
    case (Some ts)
    have "uses (cs @ [U_Handler_Ref, U_Handler_Unref] @ map U_Free ts) ?u ?u"
      unfolding uses_append using alloc Some free_all [of "?u\<lparr>uu_transfers := mset ts\<rparr>" ts]
      by (intro exI [of _ "?u\<lparr>uu_transfers := mset ts\<rparr>"]) (simp add: in_session_def usb_idle_def)
    from closes_append [OF this frame, of None] have over: "closes (refs - {#d#}) ?u ?failed (session_body wt lu n (inner_frame d h rc))"
      if "read_loop (lu_reads lu) 0 = Some tot" for tot
      using that by (simp add: session_body_def r Some split: prod.splits)
    have "uses (cs @ [U_Handler_Ref]) ?u (?u\<lparr>uu_transfers := mset ts, uu_handler := 1\<rparr>)"
      unfolding uses_append using alloc Some
      by (intro exI [of _ "?u\<lparr>uu_transfers := mset ts\<rparr>"]) (simp add: in_session_def usb_idle_def)
    then have on: "closes (refs - {#d#}) ?u ?failed (cs @ [U_Handler_Ref], In_Loop)"
      by (fastforce simp: closes_def reads_on_def in_session_def usb_idle_def)
    show ?thesis
    proof (cases "read_loop (lu_reads lu) 0")
      case None
      then show ?thesis using on by (simp add: session_body_def r Some)
    qed (rule over)
  qed
qed

lemma claim_closes:
  assumes d: "d \<in># refs"
  shows "closes (refs - {#d#}) (in_session refs h (rc = LIBUSB_SUCCESS) False)
     (rc = LIBUSB_SUCCESS \<and> lu_attach lu \<noteq> LIBUSB_SUCCESS \<or> lu_release lu \<noteq> LIBUSB_SUCCESS)
     (session_claim wt lu n \<lparr>m_storage = Some h\<rparr> ec (guard_local h rc # outer_frame d h))"
proof -
  let ?c = "lu_claim lu (Some h) dev_iface_num"
  show ?thesis
  proof (cases "?c = LIBUSB_SUCCESS")
    case True
    have "usb_allows (U_Claim (Some h) dev_iface_num True) (in_session refs h (rc = LIBUSB_SUCCESS) False) =
        Some (in_session refs h (rc = LIBUSB_SUCCESS) True)"
      by (simp add: in_session_def usb_idle_def)
    from closes_prepend [OF this body_closes [OF d]] show ?thesis
      using True by (simp add: session_claim_def claim_interface_def as_optional_def device_handle_get_def
          make_interface_def interface_move_def inner_frame_def)
  next
    case False
    have call: "usb_allows (U_Claim (Some h) dev_iface_num False) (in_session refs h (rc = LIBUSB_SUCCESS) False) =
        Some (in_session refs h (rc = LIBUSB_SUCCESS) False)"
      by (simp add: in_session_def usb_idle_def)
    have "closes (refs - {#d#}) (in_session refs h (rc = LIBUSB_SUCCESS) False)
       (rc = LIBUSB_SUCCESS \<and> lu_attach lu \<noteq> LIBUSB_SUCCESS \<or> lu_release lu \<noteq> LIBUSB_SUCCESS)
       (leave_scope wt lu None (L_Maybe_Interface None # guard_local h rc # outer_frame d h))"
      by (rule closes_mono [where failed = "rc = LIBUSB_SUCCESS \<and> lu_attach lu \<noteq> LIBUSB_SUCCESS"])
        (use guard_closes [OF d, of h rc lu wt None] in \<open>simp_all split: prod.splits\<close>)
    from closes_prepend [OF call this] show ?thesis
      using False by (simp add: session_claim_def claim_interface_def as_optional_def device_handle_get_def)
  qed
qed

lemma dev_loop_closes:
  assumes "d \<in># refs" "\<And>x. fst (lu_open lu x) = LIBUSB_SUCCESS \<Longrightarrow> snd (lu_open lu x) \<noteq> None"
  shows "closes (refs - {#d#}) (usb_idle refs) (lu_release lu \<noteq> LIBUSB_SUCCESS \<or> lu_attach lu \<noteq> LIBUSB_SUCCESS)
    (dev_loop wrappers_throw lu n \<lparr>m_dev = Some d\<rparr>)"
proof -
  obtain rc hh where o: "lu_open lu (Some d) = (rc, hh)" by fastforce
  show ?thesis
  proof (cases "rc = LIBUSB_SUCCESS")
    case True
    then obtain h where h: "hh = Some h" using assms(2) [of "Some d"] o by auto
    let ?rc = "lu_detach lu (Some h) dev_iface_num"
    let ?u = "in_session refs h False False"
    have opened: "uses [U_Ref (Ref_Device d), U_Open (Some h), U_Ref (Unref_Device d)] (usb_idle refs) ?u"
      using assms(1) by (simp add: in_session_def usb_idle_def)
    have "usb_allows (U_Detach (Some h) dev_iface_num (?rc = LIBUSB_SUCCESS)) ?u =
        Some (in_session refs h (?rc = LIBUSB_SUCCESS) False)"
      by (simp add: in_session_def usb_idle_def)
    from closes_prepend [OF this claim_closes [OF assms(1), of h ?rc lu wrappers_throw n ec_none]]
    have "closes (refs - {#d#}) ?u
        (?rc = LIBUSB_SUCCESS \<and> lu_attach lu \<noteq> LIBUSB_SUCCESS \<or> lu_release lu \<noteq> LIBUSB_SUCCESS)
        (session_detach wrappers_throw lu n \<lparr>m_storage = Some h\<rparr> ec_none (outer_frame d h))"
      by (cases "?rc = LIBUSB_SUCCESS") (simp_all add: session_detach_def detach_driver_def as_expected_def
          device_handle_get_def make_driver_guard_def guard_local_def Let_def)
    from closes_append [OF opened this]
    have "closes (refs - {#d#}) (usb_idle refs)
        (?rc = LIBUSB_SUCCESS \<and> lu_attach lu \<noteq> LIBUSB_SUCCESS \<or> lu_release lu \<noteq> LIBUSB_SUCCESS)
        (dev_loop wrappers_throw lu n \<lparr>m_dev = Some d\<rparr>)"
      using True by (simp add: dev_loop_def o h open_device_ref_def device_ref_get_def as_optional_def
          device_ref_copy_def device_ref_dtor_def make_device_handle_def device_handle_get_def
          device_handle_move_def outer_frame_def)
    then show ?thesis by (rule closes_mono) auto
  next
    case False
    then show ?thesis using assms(1)
      by (auto simp: dev_loop_def o open_device_ref_def device_ref_get_def as_optional_def closes_def
        usb_idle_def device_ref_defs)
  qed
qed

section \<open>Properties\<close>

text \<open>whatever libusb returns, the device loop uses it as libusb allows, and when it is over nothing is
  left in use: the handle is closed after the interface was released and the driver attached
  again, every transfer is freed, the event handler has its reference back, and so has the device
  the one that came with the parameter.  The exception is \<open>std::terminate\<close>, which takes a
  destructor whose call of libusb fails.\<close>

theorem dev_loop_gives_everything_back:
  assumes "m_dev dev = Some d" "d \<in># refs"
    and "\<And>x. fst (lu_open lu x) = LIBUSB_SUCCESS \<Longrightarrow> snd (lu_open lu x) \<noteq> None"
  shows "case dev_loop wrappers_throw lu n dev of (cs, e) \<Rightarrow>
    \<exists>u. run usb_allows cs (usb_idle refs) = Some u \<and> e \<noteq> Undefined_Use
      \<and> (\<forall>exc. e = Ended exc \<longrightarrow> u = usb_idle (refs - {#d#})) \<and> (e = In_Loop \<longrightarrow> reads_on u)
      \<and> (e = Std_Terminate \<longrightarrow> lu_release lu \<noteq> LIBUSB_SUCCESS \<or> lu_attach lu \<noteq> LIBUSB_SUCCESS)"
proof -
  have "dev = \<lparr>m_dev = Some d\<rparr>" using assms(1) by (cases dev) simp
  then show ?thesis using dev_loop_closes [OF assms(2,3), of wrappers_throw n]
    by (auto simp: closes_def uses_def split: prod.splits if_splits)
qed

definition ex_libusb :: "int \<Rightarrow> int \<Rightarrow> libusb_results" where
  "ex_libusb release attach = \<lparr>lu_open = (\<lambda>_. (0, Some 5)), lu_detach = (\<lambda>_ _. 0), lu_claim = (\<lambda>_ _. 0),
     lu_release = release, lu_attach = attach, lu_alloc = (\<lambda>i. if i = 3 then None else Some (10 + i)),
     lu_reads = [(False, ec_none, 100), (True, ec_none, 0)]\<rparr>"

lemma ex_session:
  "snd (dev_loop False (ex_libusb 0 0) 4 \<lparr>m_dev = Some 9\<rparr>) = Ended (Some Alloc_Error)"
  "snd (dev_loop True (ex_libusb (-4) (-4)) 2 \<lparr>m_dev = Some 9\<rparr>) = Std_Terminate"
  by code_simp+

theorem dev_loop_gives_everything_back_witness:
  "\<exists>u. run usb_allows (fst (dev_loop False (ex_libusb 0 0) 4 \<lparr>m_dev = Some 9\<rparr>)) (usb_idle {#9#}) = Some u
     \<and> u = usb_idle {#}"
proof -
  have "snd (lu_open (ex_libusb 0 0) x) \<noteq> None" for x by (simp add: ex_libusb_def)
  then show ?thesis
    using dev_loop_gives_everything_back [of "\<lparr>m_dev = Some 9\<rparr>" 9 "{#9#}" "ex_libusb 0 0" False 4] ex_session(1)
    by (auto split: prod.splits)
qed

lemma resize_no_close: "resize_resources lu i n ts = (r, cs) \<Longrightarrow> U_Close h \<notin> set cs"
  by (induction lu i n ts arbitrary: cs rule: resize_resources.induct)
    (auto split: sum.splits bad_alloc.splits prod.splits)

text \<open>Two destructors that throw: the interface cannot be released, the exception leaves the coroutine,
  and on its way the driver cannot be attached either.  The program is terminated with the handle
  open and the driver detached, though every handle, guard and interface had an owner.\<close>

theorem failing_destructors_terminate:
  assumes "lu_open lu (Some d) = (LIBUSB_SUCCESS, Some h)" "lu_detach lu (Some h) dev_iface_num = LIBUSB_SUCCESS"
    and "lu_claim lu (Some h) dev_iface_num = LIBUSB_SUCCESS"
    and "lu_release lu \<noteq> LIBUSB_SUCCESS" "lu_attach lu \<noteq> LIBUSB_SUCCESS" "read_loop (lu_reads lu) 0 \<noteq> None"
  shows "snd (dev_loop True lu n \<lparr>m_dev = Some d\<rparr>) = Std_Terminate
    \<and> U_Close h \<notin> set (fst (dev_loop True lu n \<lparr>m_dev = Some d\<rparr>))"
proof -
  obtain r cs where r: "resize_resources lu 0 n [] = (r, cs)" by fastforce
  show ?thesis
    using assms resize_no_close [OF r, of h]
    by (cases r; cases "read_loop (lu_reads lu) 0") (auto simp: dev_loop_def session_detach_def session_claim_def session_body_def r
        open_device_ref_def device_ref_get_def as_optional_def as_expected_def detach_driver_def claim_interface_def
        device_handle_get_def destroy_defs)
qed

theorem failing_destructors_terminate_witness:
  "snd (dev_loop True (ex_libusb (-4) (-4)) 2 \<lparr>m_dev = Some 9\<rparr>) = Std_Terminate"
  using failing_destructors_terminate [of "ex_libusb (-4) (-4)" 9 5 2] by (simp add: ex_libusb_def)

text \<open>The loop adds up what the reads report, the failed one included, and ends with the first that
  fails or when stop was requested.\<close>

lemma read_loop_total:
  assumes "read_loop xs tot = Some t"
  shows "\<exists>k \<le> length xs. t = tot + (\<Sum>(stop, rec, rn)\<leftarrow>take k xs. rn)
    \<and> (\<forall>(stop, rec, rn) \<in> set (take k xs). \<not> stop)
    \<and> (\<forall>(stop, rec, rn) \<in> set (butlast (take k xs)). \<not> ec_bool rec)"
  using assms
proof (induction xs tot rule: read_loop.induct)
  case (1 tot)
  then show ?case by simp
next
  case (2 stop rec rn rest tot)
  consider (stopped) "stop" | (failed) "\<not> stop" "ec_bool rec" | (goes_on) "\<not> stop" "\<not> ec_bool rec" by blast
  then show ?case
  proof cases
    case stopped
    then show ?thesis using 2(2) by (intro exI [of _ 0]) simp
  next
    case failed
    then show ?thesis using 2(2) by (intro exI [of _ 1]) simp
  next
    case goes_on
    with 2 obtain k where k: "k \<le> length rest" "t = tot + rn + (\<Sum>(stop, rec, rn)\<leftarrow>take k rest. rn)"
      "\<forall>(stop, rec, rn) \<in> set (take k rest). \<not> stop"
      "\<forall>(stop, rec, rn) \<in> set (butlast (take k rest)). \<not> ec_bool rec" by auto
    then show ?thesis using goes_on by (intro exI [of _ "Suc k"]) (auto simp: add.assoc)
  qed
qed

end
