(* ===== verification/Device_Stream.thy ===== *)
theory Device_Stream
  imports Buffer_Operation Device_Session
begin

text \<open>
  The loop of \<open>dev_loop\<close> of \<open>src/examples/02-hotplug-integration.cpp\<close>, whose session is in
  \<open>Device_Session\<close>: it reads into sixteen buffers of 256 KiB at once, through a sequence of four
  transfers that the partial operation submits again until every buffer was used.
\<close>

section \<open>The loop\<close>

datatype stream_phase = Sm_Test | Sm_Call | Sm_Reading partial_await | Sm_Over | Sm_Aborted

text \<open>
  For stating properties, \<open>sm_events\<close> are the events of the read that has not ended, and \<open>sm_reads\<close>
  the reads that have, each with its result, its events and the windows of memory it handed to
  libusb.
\<close>

type_synonym stream_read = "error_code \<times> size_t \<times> io_event list \<times> (address \<times> c_int) list"

record device_stream =
  sm_phase :: stream_phase
  sm_io :: direction_partial_io
  sm_buf :: address
  sm_store :: tfer_store
  sm_stop :: bool
  sm_total :: size_t
  sm_events :: "io_event list"
  sm_reads :: "stream_read list"

text \<open>\<open>char buf[16][bufsz]\<close>, and the loop that fills \<open>bufs_in\<close>.\<close>

definition stream_bufsz :: size_t where
  "stream_bufsz = push_bit 18 1"

definition bufs_in :: "address \<Rightarrow> buffer list" where
  "bufs_in buf = map (\<lambda>i. \<lparr>buf_data = buf + of_nat i * stream_bufsz, buf_size = stream_bufsz\<rparr>) [0..<16]"

text \<open>The locals before the loop; \<open>ts\<close> are the transfers of \<open>tfers\<close>.\<close>

definition stream_init ::
  "fill_fn \<Rightarrow> service_env \<Rightarrow> device_handle_source \<Rightarrow> address \<Rightarrow> tid list \<Rightarrow> tfer_store
     \<Rightarrow> service \<Rightarrow> service \<times> (aborted + device_stream) act" where
  "stream_init fill env iface buf ts m s =
     act_bind (bulk_partial_io fill env (Resources ts) (ep_in 0x01 iface) 50 m s) (\<lambda>r s.
       (s, Returned (map_sum id (\<lambda>(io, m). \<lparr>sm_phase = Sm_Test, sm_io = io, sm_buf = buf, sm_store = m,
          sm_stop = False, sm_total = 0, sm_events = [], sm_reads = []\<rparr>) r)))"

text \<open>The body of the loop behind the read.\<close>

definition stream_result :: "partial_await \<Rightarrow> device_stream \<Rightarrow> device_stream" where
  "stream_result a s =
     (case partial_await_resume a of (rec, rn) \<Rightarrow>
        s\<lparr>sm_total := sm_total s + rn, sm_phase := if ec_bool rec then Sm_Over else Sm_Test,
          sm_reads := sm_reads s @ [(rec, rn, sm_events s, log_windows a)], sm_events := []\<rparr>)"

definition stream_call :: "nat \<Rightarrow> device_stream \<Rightarrow> device_stream" where
  "stream_call self s =
     (case partial_read_some (sm_io s) (sm_stop s) self (bufs_in (sm_buf s)) (sm_store s) of
        Some (Some (Suspended a)) \<Rightarrow> s\<lparr>sm_phase := Sm_Reading a\<rparr>
      | Some (Some (Not_Suspended a)) \<Rightarrow> stream_result a s
      | _ \<Rightarrow> s\<lparr>sm_phase := Sm_Aborted\<rparr>)"

text \<open>\<open>Sm_Io\<close>: an event of the read; its stop callback runs some time after the stop request.\<close>

datatype stream_event = Sm_Turn | Sm_Read nat | Sm_Io io_event | Sm_Stop | Sm_Resume

fun stream_step :: "stream_event \<Rightarrow> device_stream \<Rightarrow> device_stream option" where
  "stream_step Sm_Turn s =
     (case sm_phase s of
        Sm_Test \<Rightarrow> Some (s\<lparr>sm_phase := if sm_stop s then Sm_Over else Sm_Call\<rparr>) | _ \<Rightarrow> None)"
| "stream_step (Sm_Read self) s = (case sm_phase s of Sm_Call \<Rightarrow> Some (stream_call self s) | _ \<Rightarrow> None)"
| "stream_step (Sm_Io e) s =
     (case sm_phase s of
        Sm_Reading a \<Rightarrow>
          if e = Stop \<and> \<not> sm_stop s then None
          else map_option (\<lambda>b. s\<lparr>sm_phase := Sm_Reading b, sm_events := sm_events s @ [e]\<rparr>) (partial_step e a)
      | _ \<Rightarrow> None)"
| "stream_step Sm_Stop s = (if sm_stop s then None else Some (s\<lparr>sm_stop := True\<rparr>))"
| "stream_step Sm_Resume s =
     (case sm_phase s of
        Sm_Reading a \<Rightarrow> if posts a = 1 then Some (stream_result a (s\<lparr>sm_store := tfers a\<rparr>)) else None
      | _ \<Rightarrow> None)"

section \<open>The buffers\<close>

text \<open>The sixteen buffers are the array, one behind the other.\<close>

lemma segment_add: "segment p (m + n) = segment p m @ segment (p + of_nat m) n"
  by (rule nth_equalityI) (auto simp: segment_def nth_append algebra_simps simp flip: of_nat_add)

definition window_bytes :: "address \<times> c_int \<Rightarrow> address list" where
  "window_bytes w = segment (fst w) (nat (sint (snd w)))"

lemma segments_join:
  "concat (map (\<lambda>i. segment (p + of_nat i * of_nat n) n) [0..<k]) = segment p (k * n)"
  by (induction k) (simp_all add: segment_add add.commute [of n])

lemma bufs_in_bytes: "concat (map (window_bytes \<circ> buf_window) (bufs_in buf)) = segment buf (4 * 1024 * 1024)"
proof -
  have "window_bytes (buf_window \<lparr>buf_data = p, buf_size = stream_bufsz\<rparr>) = segment p (2 ^ 18)" for p
    by (simp add: window_bytes_def buf_window_def stream_bufsz_def)
  moreover have "stream_bufsz = of_nat (2 ^ 18)" by (simp add: stream_bufsz_def)
  ultimately have "concat (map (window_bytes \<circ> buf_window) (bufs_in buf)) = segment buf (16 * 2 ^ 18)"
    using segments_join [of buf "2 ^ 18" 16] by (simp add: bufs_in_def comp_def del: of_nat_power)
  then show ?thesis by simp
qed

section \<open>Invariant\<close>

text \<open>A read that reports no error handed every byte of the array to libusb once, and its result is the
  number of bytes libusb reported.\<close>

definition stream_read_ok :: "address \<Rightarrow> stream_read \<Rightarrow> bool" where
  "stream_read_ok buf r \<longleftrightarrow> (case r of (rec, rn, es, ws) \<Rightarrow> \<not> ec_bool rec \<longrightarrow>
     mset (concat (map window_bytes ws)) = mset (segment buf (4 * 1024 * 1024)) \<and> rn = run_bytes es
     \<and> list_all event_completed es)"

definition stream_reading_ok :: "tid list \<Rightarrow> address \<Rightarrow> io_event list \<Rightarrow> partial_await \<Rightarrow> bool" where
  "stream_reading_ok ts buf es a \<longleftrightarrow>
     (\<exists>self m. run partial_step es (partial_start self (make_view (Resources ts)) (bufs_in buf) m) = Some a
        \<and> (\<forall>x \<in> set ts. t_type (m x) \<noteq> LIBUSB_TRANSFER_TYPE_ISOCHRONOUS))"

definition sm_tfers :: "device_stream \<Rightarrow> tfer_store" where
  "sm_tfers s = (case sm_phase s of Sm_Reading a \<Rightarrow> tfers a | _ \<Rightarrow> sm_store s)"

fun stream_phase_ok :: "tid list \<Rightarrow> device_stream \<Rightarrow> stream_phase \<Rightarrow> bool" where
  "stream_phase_ok ts s (Sm_Reading a) \<longleftrightarrow> stream_reading_ok ts (sm_buf s) (sm_events s) a"
| "stream_phase_ok ts s Sm_Aborted \<longleftrightarrow> False"
| "stream_phase_ok ts s _ \<longleftrightarrow> sm_events s = []"

definition stream_ok :: "devh \<Rightarrow> tid list \<Rightarrow> device_stream \<Rightarrow> bool" where
  "stream_ok h ts s \<longleftrightarrow> dp_direction (sm_io s) = dir_in \<and> pb_view (dp_stream (sm_io s)) = make_view (Resources ts)
     \<and> (\<forall>x \<in> set ts. destination (sm_tfers s x) = (h, 0x81, 2, 50)) \<and> list_all (stream_read_ok (sm_buf s)) (sm_reads s)
     \<and> sm_total s = sum_list (map (\<lambda>(rec, rn, es, ws). rn) (sm_reads s)) \<and> stream_phase_ok ts s (sm_phase s)"

text \<open>The four transfers.\<close>

definition four :: "tid list \<Rightarrow> bool" where
  "four ts \<longleftrightarrow> length ts = 4 \<and> distinct ts"

lemma four_view:
  assumes "four ts"
  shows "view_ok (make_view (Resources ts))" "0 < view_size (make_view (Resources ts))" "sv_array (make_view (Resources ts)) = ts"
  using assms view_ok_resources [of ts] by (auto simp: four_def make_view_def view_size_def)

lemma bufs_in_some: "bufs_in buf \<noteq> []"
  by (simp add: bufs_in_def)

lemma same_bytes:
  assumes "mset ws = mset (map buf_window (bufs_in buf))"
  shows "mset (concat (map window_bytes ws)) = mset (segment buf (4 * 1024 * 1024))"
proof -
  have "mset (concat (map f xs)) = sum_mset (image_mset (\<lambda>x. mset (f x)) (mset xs))" for f :: "'a \<Rightarrow> 'b list" and xs
    by (induction xs) simp_all
  then have "mset (concat (map window_bytes ws)) = mset (concat (map window_bytes (map buf_window (bufs_in buf))))"
    using assms by metis
  then show ?thesis using bufs_in_bytes [of buf] by (simp add: comp_def)
qed

lemma reading_result:
  assumes "four ts" "stream_reading_ok ts buf es a" "posts a = 1" "partial_await_resume a = (rec, rn)"
  shows "stream_read_ok buf (rec, rn, es, log_windows a)"
proof -
  obtain self m where a: "run partial_step es (partial_start self (make_view (Resources ts)) (bufs_in buf) m) = Some a"
      "\<forall>x \<in> set ts. t_type (m x) \<noteq> LIBUSB_TRANSFER_TYPE_ISOCHRONOUS"
    using assms(2) by (auto simp: stream_reading_ok_def)
  have ec: "rec = pa_ec a" using assms(4) by (simp add: partial_await_resume_def)
  show ?thesis
    using partial_success [OF four_view(1,2) [OF assms(1)] bufs_in_some _ a(1) assms(3)] a(2) four_view(3) [OF assms(1)]
      same_bytes assms(4) by (auto simp: stream_read_ok_def ec)
qed

lemma stream_result_ok:
  assumes "stream_ok h ts s" "\<And>b. sm_phase s = Sm_Reading b \<Longrightarrow> sm_store s = tfers b"
    and "\<And>rec rn. partial_await_resume a = (rec, rn) \<Longrightarrow> stream_read_ok (sm_buf s) (rec, rn, sm_events s, log_windows a)"
  shows "stream_ok h ts (stream_result a s)"
proof -
  have "sm_tfers s = sm_store s" using assms(2) by (auto simp: sm_tfers_def split: stream_phase.splits)
  moreover obtain rec rn where r: "partial_await_resume a = (rec, rn)" by fastforce
  ultimately show ?thesis using assms(1) assms(3) [OF r]
    by (simp add: stream_result_def r stream_ok_def sm_tfers_def)
qed

lemma stream_call_ok:
  assumes ok: "stream_ok h ts s" and ph: "sm_phase s = Sm_Call" and ts: "four ts"
  shows "stream_ok h ts (stream_call self s)"
proof -
  let ?v = "make_view (Resources ts)" and ?bs = "bufs_in (sm_buf s)"
  have ev: "sm_events s = []" and dest: "\<forall>x \<in> set ts. destination (sm_store s x) = (h, 0x81, 2, 50)"
    using ok ph by (simp_all add: stream_ok_def sm_tfers_def)
  have call: "partial_read_some (sm_io s) (sm_stop s) self ?bs (sm_store s) =
      Some (partial_submit (sm_stop s) self ?v ?bs (sm_store s))"
    using ok by (simp add: partial_read_some_def only_for_def stream_ok_def)
  note submit = partial_submit_eq [OF four_view(1) [OF ts], of "sm_stop s" self ?bs "sm_store s"]
  show ?thesis
  proof (cases "sm_stop s")
    case True
    let ?a = "(partial_stopped_start self ?v ?bs (sm_store s))\<lparr>pa_ec := make_transfer_status (status_value St_cancelled)\<rparr>"
    have "stream_call self s = stream_result ?a s" unfolding stream_call_def call submit using True bufs_in_some by simp
    moreover have "ec_bool (fst (partial_await_resume ?a))" by (simp add: partial_await_resume_def)
    ultimately show ?thesis
      by (auto simp: stream_read_ok_def ph intro!: stream_result_ok [OF ok])
  next
    case False
    let ?a = "partial_start self ?v ?bs (sm_store s)"
    have "partial_submit False self ?v ?bs (sm_store s) = Some (Suspended ?a)" using submit False bufs_in_some by simp
    note same = fun_cong [OF partial_submit_destinations [OF this]]
    have "\<forall>x \<in> set ts. t_type (sm_store s x) \<noteq> LIBUSB_TRANSFER_TYPE_ISOCHRONOUS"
      using dest by (auto simp: destination_def)
    then have "stream_reading_ok ts (sm_buf s) [] ?a" by (auto simp: stream_reading_ok_def)
    moreover have "stream_call self s = s\<lparr>sm_phase := Sm_Reading ?a\<rparr>"
      unfolding stream_call_def call submit using False bufs_in_some by simp
    ultimately show ?thesis using ok dest ev same
      by (simp add: stream_ok_def sm_tfers_def destinations_def)
  qed
qed

lemma stream_reading_step:
  assumes "stream_reading_ok ts buf es a" "partial_step e a = Some b"
  shows "stream_reading_ok ts buf (es @ [e]) b"
proof -
  obtain self m where "run partial_step es (partial_start self (make_view (Resources ts)) (bufs_in buf) m) = Some a"
      "\<forall>x \<in> set ts. t_type (m x) \<noteq> LIBUSB_TRANSFER_TYPE_ISOCHRONOUS"
    using assms(1) by (auto simp: stream_reading_ok_def)
  then show ?thesis using assms(2) unfolding stream_reading_ok_def
    by (intro exI [of _ self] exI [of _ m]) (simp add: run_append)
qed

lemma stream_step_ok:
  assumes ok: "stream_ok h ts s" and st: "stream_step e s = Some t" and ts: "four ts"
  shows "stream_ok h ts t"
proof (cases e)
  case (Sm_Read self)
  with st have "sm_phase s = Sm_Call" "t = stream_call self s" by (auto split: stream_phase.splits)
  then show ?thesis using stream_call_ok [OF ok _ ts] by simp
next
  case (Sm_Io d)
  with st obtain a b where a: "sm_phase s = Sm_Reading a" "partial_step d a = Some b"
      "t = s\<lparr>sm_phase := Sm_Reading b, sm_events := sm_events s @ [d]\<rparr>"
    by (auto split: stream_phase.splits if_splits)
  note same = fun_cong [OF partial_step_destinations [OF a(2)]]
  show ?thesis using ok a(1,3) same stream_reading_step [OF _ a(2)]
    by (simp add: stream_ok_def sm_tfers_def destinations_def)
next
  case Sm_Resume
  with st obtain a where a: "sm_phase s = Sm_Reading a" "posts a = 1" "t = stream_result a (s\<lparr>sm_store := tfers a\<rparr>)"
    by (auto split: stream_phase.splits if_splits)
  have ok': "stream_ok h ts (s\<lparr>sm_store := tfers a\<rparr>)" using ok a(1) by (simp add: stream_ok_def sm_tfers_def)
  have "stream_reading_ok ts (sm_buf s) (sm_events s) a" using ok a(1) by (simp add: stream_ok_def)
  from reading_result [OF ts this a(2)] show ?thesis unfolding a(3)
    by (auto simp: a(1) intro!: stream_result_ok [OF ok'])
qed (use ok st in \<open>auto simp: stream_ok_def sm_tfers_def split: stream_phase.splits if_splits\<close>)

interpretation stream_machine: machine stream_step "\<lambda>s. stream_ok h ts s \<and> four ts"
  by unfold_locales (auto intro: stream_step_ok)

lemma stream_init_ok:
  assumes "stream_init fill env iface buf ts m svc = (svc', Returned (Inr s))" "fills_as 2 fill"
  shows "stream_ok (device_handle_of iface) ts s"
  using assms(1) fills_as_destination [OF assms(2)]
  by (auto simp: stream_init_def act_bind_Returned ep_simps stream_ok_def sm_tfers_def upd_all_def
      elim!: bulk_partial_made [OF _ prefill_bulk_store [OF assms(2)]])

lemma reading_outstanding:
  assumes "four ts" "stream_reading_ok ts buf es a"
  shows "outstanding a \<subseteq> set ts"
proof -
  let ?v = "make_view (Resources ts)"
  obtain self m where a: "run partial_step es (partial_start self ?v (bufs_in buf) m) = Some a"
    using assms(2) by (auto simp: stream_reading_ok_def)
  have "partial_wf a"
    using partial_bounded.run_inv [OF a] partial_start_wf [OF four_view(1) [OF assms(1)] bufs_in_some four_view(2) [OF assms(1)]]
    by blast
  then show ?thesis using partial_run_frame [OF a] used_tids_view [of "bufs_in buf" ts] by (auto simp: partial_wf_def)
qed

section \<open>Property\<close>

text \<open>C10: the device loop of example 02: whatever the timing and the failures, every read that reports no
  error handed each byte of the 4 MiB array to libusb exactly once, its result is the number of
  bytes libusb reported, and all its transfers were successful; the total is the sum of the
  results.  No assertion of the library fails, libusb never holds other transfers than the four,
  and these always go to the IN endpoint 1 of the claimed device.\<close>

theorem stream_fills_every_buffer:
  assumes "stream_init fill env iface buf ts m svc = (svc', Returned (Inr s0))" "fills_as 2 fill"
    and "length ts = 4" "distinct ts" "run stream_step es s0 = Some s"
  shows "list_all (stream_read_ok (sm_buf s)) (sm_reads s)
    \<and> sm_total s = sum_list (map (\<lambda>(rec, rn, es, ws). rn) (sm_reads s))
    \<and> (case sm_phase s of Sm_Aborted \<Rightarrow> False | Sm_Reading a \<Rightarrow> outstanding a \<subseteq> set ts | _ \<Rightarrow> True)
    \<and> (\<forall>x \<in> set ts. destination (sm_tfers s x) = (device_handle_of iface, 0x81, 2, 50))"
proof -
  have ts: "four ts" using assms(3,4) by (simp add: four_def)
  have ok: "stream_ok (device_handle_of iface) ts s"
    using stream_machine.run_inv [OF assms(5)] stream_init_ok [OF assms(1,2)] ts by blast
  then have "case sm_phase s of Sm_Aborted \<Rightarrow> False | Sm_Reading a \<Rightarrow> outstanding a \<subseteq> set ts | _ \<Rightarrow> True"
    using reading_outstanding [OF ts] by (cases "sm_phase s") (simp_all add: stream_ok_def, blast)
  then show ?thesis using ok unfolding stream_ok_def by blast
qed

text \<open>A read in which the first transfer gets a whole buffer, the second fails, and the others are
  cancelled.\<close>

definition ex_stream :: "service \<times> (aborted + device_stream) act" where
  "ex_stream = stream_init (fill_as 2) ex_env (Pointer_Source (Raw_Pointer (Some 1))) 100 [0, 1, 2, 3] (\<lambda>_. null_transfer) service_init"

definition ex_stream_run :: "stream_event list" where
  "ex_stream_run = [Sm_Turn, Sm_Read 7] @ map (\<lambda>_. Sm_Io (Submit 0)) [0..<4]
     @ [Sm_Io (Complete 0 (ex_done 0 262144) 0), Sm_Io (Complete 1 (ex_done 1 0) 0), Sm_Stop, Sm_Io Stop]
     @ map (\<lambda>x. Sm_Io (Complete x (ex_done 3 0) 0)) [2, 3, 0] @ [Sm_Resume]"

definition ex_stream_sat :: bool where
  "ex_stream_sat = (case snd ex_stream of
     Returned (Inr s0) \<Rightarrow> run_sat stream_step ex_stream_run s0 (\<lambda>s. sm_total s = 262144 \<and> length (sm_reads s) = 1)
   | _ \<Rightarrow> False)"

lemma ex_stream_sat: "ex_stream_sat"
  by code_simp

theorem stream_fills_every_buffer_witness:
  "\<exists>s0 s. snd ex_stream = Returned (Inr s0) \<and> run stream_step ex_stream_run s0 = Some s
     \<and> sum_list (map (\<lambda>(rec, rn, es, ws). rn) (sm_reads s)) = 262144"
proof -
  obtain s0 where s0: "snd ex_stream = Returned (Inr s0)"
      "run_sat stream_step ex_stream_run s0 (\<lambda>s. sm_total s = 262144 \<and> length (sm_reads s) = 1)"
    using ex_stream_sat by (auto simp: ex_stream_sat_def split: act.splits sum.splits)
  obtain s where s: "run stream_step ex_stream_run s0 = Some s" "sm_total s = 262144" using run_satD [OF s0(2)] by blast
  have "ex_stream = (fst ex_stream, Returned (Inr s0))" using s0(1) by (metis prod.collapse)
  from stream_fills_every_buffer [OF this [unfolded ex_stream_def] fills_as_fill_as _ _ s(1)]
  have "sum_list (map (\<lambda>(rec, rn, es, ws). rn) (sm_reads s)) = 262144" by (simp add: s(2))
  then show ?thesis using s0(1) s(1) by blast
qed

end
