(* ===== verification/Throughput.thy ===== *)
theory Throughput
  imports Buffer_Operation Device_Session
begin

text \<open>
  A client of the library, the coroutine \<open>dev_loop\<close> of \<open>src/examples/03-complete-io.cpp\<close>: it opens and
  claims a device like the device loop of example 02, and then fills a buffer of 4 MiB from an IN
  endpoint over and over, with complete reads through a sequence of six transfers, counting the
  bytes.  Here the session of \<open>Device_Session\<close> meets the machine of the complete operation.
\<close>

section \<open>The session\<close>

text \<open>Everything around the loop is the text of example 02, with six transfers.\<close>

definition throughput_session :: "bool \<Rightarrow> libusb_results \<Rightarrow> device_ref \<Rightarrow> usb_call list \<times> session_end" where
  "throughput_session wrappers_throw lu dev = dev_loop wrappers_throw lu 6 dev"

section \<open>The loop\<close>

datatype tp_phase = Tp_Test | Tp_Call | Tp_Reading complete_await | Tp_Over | Tp_Aborted

text \<open>
  For stating properties, \<open>tp_reads\<close> are the reads that ended, each with the bytes the device sent in
  it and those the loop then finds in its buffer; \<open>tp_current\<close> are the bytes sent so far in the one
  that has not.
\<close>

record throughput =
  tp_phase :: tp_phase
  tp_io :: direction_complete_io
  tp_buf :: address
  tp_store :: tfer_store
  tp_stop :: bool
  tp_total :: size_t
  tp_mem :: "address \<Rightarrow> u8"
  tp_reads :: "(error_code \<times> u8 list \<times> u8 list) list"
  tp_current :: "u8 list"

definition bufsz :: size_t where
  "bufsz = push_bit 18 1"

definition tp_buffer :: "throughput \<Rightarrow> buffer" where
  "tp_buffer s = \<lparr>buf_data = tp_buf s, buf_size = 16 * bufsz\<rparr>"

text \<open>The locals before the loop; \<open>ts\<close> are the transfers of \<open>transfers_in\<close>.\<close>

definition throughput_init ::
  "fill_fn \<Rightarrow> service_env \<Rightarrow> device_handle_source \<Rightarrow> address \<Rightarrow> (address \<Rightarrow> u8) \<Rightarrow> tid list \<Rightarrow> tfer_store
     \<Rightarrow> service \<Rightarrow> service \<times> (aborted + throughput) act" where
  "throughput_init fill env iface buf mem ts m s =
     act_bind (bulk_complete_io fill env (Resources ts) (ep_in 0x01 iface) bufsz 0 0 m s) (\<lambda>r s.
       (s, Returned (map_sum id (\<lambda>(io, m). \<lparr>tp_phase = Tp_Test, tp_io = io, tp_buf = buf, tp_store = m,
          tp_stop = False, tp_total = 0, tp_mem = mem, tp_reads = [], tp_current = []\<rparr>) r)))"

text \<open>The body of the loop behind the read.\<close>

definition throughput_result :: "error_code \<times> size_t \<Rightarrow> throughput \<Rightarrow> throughput" where
  "throughput_result r s =
     (case r of (rec, rn) \<Rightarrow>
        s\<lparr>tp_total := tp_total s + rn, tp_phase := if ec_bool rec then Tp_Over else Tp_Test,
          tp_reads := tp_reads s @ [(rec, tp_current s, map (tp_mem s) (segment (tp_buf s) (unat rn)))],
          tp_current := []\<rparr>)"

definition throughput_call :: "bool \<Rightarrow> nat \<Rightarrow> throughput \<Rightarrow> throughput" where
  "throughput_call checked self s =
     (case complete_read checked (tp_io s) (tp_stop s) self [tp_buffer s] (tp_store s) of
        Some (Inr (Suspended a)) \<Rightarrow> s\<lparr>tp_phase := Tp_Reading a\<rparr>
      | Some (Inr (Not_Suspended a)) \<Rightarrow> throughput_result (complete_await_resume a) s
      | _ \<Rightarrow> s\<lparr>tp_phase := Tp_Aborted\<rparr>)"

text \<open>\<open>Tp_Cancel\<close>: the stop callback of the read runs, some time after the stop request.\<close>

datatype tp_event = Tp_Turn | Tp_Read nat | Tp_Io io_event "u8 list" | Tp_Stop | Tp_Cancel | Tp_Resume

fun throughput_step :: "bool \<Rightarrow> tp_event \<Rightarrow> throughput \<Rightarrow> throughput option" where
  "throughput_step checked Tp_Turn s =
     (case tp_phase s of
        Tp_Test \<Rightarrow> Some (s\<lparr>tp_phase := if tp_stop s then Tp_Over else Tp_Call\<rparr>) | _ \<Rightarrow> None)"
| "throughput_step checked (Tp_Read self) s =
     (case tp_phase s of Tp_Call \<Rightarrow> Some (throughput_call checked self s) | _ \<Rightarrow> None)"
| "throughput_step checked (Tp_Io e ds) s =
     (case tp_phase s of
        Tp_Reading a \<Rightarrow>
          if io_data_ok e ds
          then map_option (\<lambda>b. s\<lparr>tp_phase := Tp_Reading b, tp_mem := receive e ds a (tp_mem s),
                                 tp_current := tp_current s @ ds\<rparr>) (conforming_step e a)
          else None
      | _ \<Rightarrow> None)"
| "throughput_step checked Tp_Stop s = (if tp_stop s then None else Some (s\<lparr>tp_stop := True\<rparr>))"
| "throughput_step checked Tp_Cancel s =
     (case tp_phase s of
        Tp_Reading a \<Rightarrow>
          if tp_stop s then map_option (\<lambda>b. s\<lparr>tp_phase := Tp_Reading b\<rparr>) (conforming_step Stop a) else None
      | _ \<Rightarrow> None)"
| "throughput_step checked Tp_Resume s =
     (case tp_phase s of
        Tp_Reading a \<Rightarrow>
          if posts a = 1 then Some (throughput_result (complete_await_resume a) (s\<lparr>tp_store := tfers a\<rparr>)) else None
      | _ \<Rightarrow> None)"

section \<open>Invariant\<close>

text \<open>What the constructor gave the object, and where the transfers go throughout.\<close>

definition tp_objects :: "tid list \<Rightarrow> throughput \<Rightarrow> bool" where
  "tp_objects ts s \<longleftrightarrow> dc_direction (tp_io s) = dir_in \<and> pb_view (dc_raw (tp_io s)) = make_view (Resources ts)
     \<and> cb_single_transfer_limit (dc_raw (tp_io s)) = bufsz"

definition tp_tfers :: "throughput \<Rightarrow> tfer_store" where
  "tp_tfers s = (case tp_phase s of Tp_Reading a \<Rightarrow> tfers a | _ \<Rightarrow> tp_store s)"

text \<open>A read that ended: the loop finds in its buffer what the device sent, and without an error the
  buffer is full.\<close>

definition read_ok :: "error_code \<times> u8 list \<times> u8 list \<Rightarrow> bool" where
  "read_ok r \<longleftrightarrow> (case r of (rec, sent, found) \<Rightarrow> found = sent \<and> (\<not> ec_bool rec \<longrightarrow> length found = 4 * 1024 * 1024))"

definition tp_received :: "throughput \<Rightarrow> u8 list" where
  "tp_received s = concat (map (\<lambda>(rec, sent, found). sent) (tp_reads s)) @ tp_current s"

fun tp_phase_ok :: "tid \<Rightarrow> throughput \<Rightarrow> tp_phase \<Rightarrow> bool" where
  "tp_phase_ok x s (Tp_Reading a) \<longleftrightarrow> complete_one x (tp_buffer s) a
     \<and> map (tp_mem s) (segment (tp_buf s) (one_moved x a)) = tp_current s"
| "tp_phase_ok x s Tp_Aborted \<longleftrightarrow> False"
| "tp_phase_ok x s _ \<longleftrightarrow> tp_current s = []"

definition throughput_ok :: "devh \<Rightarrow> tid list \<Rightarrow> throughput \<Rightarrow> bool" where
  "throughput_ok h ts s \<longleftrightarrow> tp_objects ts s \<and> (\<forall>x \<in> set ts. destination (tp_tfers s x) = (h, 0x81, 2, 0))
     \<and> list_all read_ok (tp_reads s)
     \<and> tp_total s = of_nat (length (concat (map (\<lambda>(rec, sent, found). sent) (tp_reads s))))
     \<and> tp_phase_ok (hd ts) s (tp_phase s)"

lemma tp_buffer_frame [simp]:
  "tp_buffer (s\<lparr>tp_phase := p\<rparr>) = tp_buffer s" "tp_buffer (s\<lparr>tp_stop := st\<rparr>) = tp_buffer s"
  "tp_buffer (s\<lparr>tp_store := m\<rparr>) = tp_buffer s" "tp_buffer (s\<lparr>tp_mem := mem, tp_current := ds\<rparr>) = tp_buffer s"
  "tp_buffer (s\<lparr>tp_phase := p, tp_mem := mem, tp_current := ds\<rparr>) = tp_buffer s"
  "buf_data (tp_buffer s) = tp_buf s" "buf_size (tp_buffer s) = 16 * bufsz"
  by (simp_all add: tp_buffer_def)

lemma bufsz_facts: "0 < bufsz" "unat bufsz < 2 ^ 31" "unat (16 * bufsz) = 4 * 1024 * 1024"
  by (simp_all add: bufsz_def)

lemma first_view:
  assumes "ts \<noteq> []" "distinct ts" "length ts < 2 ^ 64"
  shows "view_ok (make_view (Resources ts))" "used_tids [b] (make_view (Resources ts)) = [hd ts]"
    "sv_array (make_view (Resources ts)) = ts"
  using view_ok_resources [OF assms(2,3)] assms(1)
  by (cases ts; simp add: used_tids_def transfers_used_def make_view_def view_size_def min_def)+

lemma throughput_result_ok:
  assumes ok: "throughput_ok h ts s" and ph: "\<And>a. tp_phase s = Tp_Reading a \<Longrightarrow> tp_store s = tfers a"
    and r: "map (tp_mem s) (segment (tp_buf s) (unat rn)) = tp_current s"
    and full: "\<not> ec_bool rec \<Longrightarrow> unat rn = 4 * 1024 * 1024"
  shows "throughput_ok h ts (throughput_result (rec, rn) s)"
proof -
  have "tp_tfers s = tp_store s" using ph by (auto simp: tp_tfers_def split: tp_phase.splits)
  moreover have len: "unat rn = length (tp_current s)" using arg_cong [OF r, of length] by simp
  then have "of_nat (length (tp_current s)) = rn" by (metis of_nat_unat ucast_id)
  ultimately show ?thesis using ok r full len
    by (simp add: throughput_result_def throughput_ok_def tp_objects_def tp_tfers_def read_ok_def)
qed

lemma throughput_call_ok:
  assumes ok: "throughput_ok h ts s" and ph: "tp_phase s = Tp_Call"
    and ts: "ts \<noteq> []" "distinct ts" "length ts < 2 ^ 64"
  shows "throughput_ok h ts (throughput_call checked self s)"
proof -
  let ?v = "make_view (Resources ts)" and ?b = "tp_buffer s"
  note v = first_view [OF ts]
  have call: "complete_read checked (tp_io s) (tp_stop s) self [?b] (tp_store s) =
      Some (complete_submit checked (tp_stop s) self ?v [?b] bufsz (tp_store s))"
    using ok by (simp add: complete_read_def only_for_def throughput_ok_def tp_objects_def)
  note submit = complete_submit_one [OF v(1,2) bufsz_facts(1), where b = ?b and checked = checked
      and self = self and m = "tp_store s"]
  have cur: "tp_current s = []" and dest: "\<forall>x \<in> set ts. destination (tp_store s x) = (h, 0x81, 2, 0)"
    using ok ph by (simp_all add: throughput_ok_def tp_tfers_def)
  show ?thesis
  proof (cases "tp_stop s")
    case True
    then obtain a where "complete_submit checked (tp_stop s) self ?v [?b] bufsz (tp_store s) = Inr (Not_Suspended a)"
      "ec_bool (ca_ec a)" "ca_states a = []" using submit(1) by auto
    then show ?thesis unfolding throughput_call_def call
      by (auto simp: complete_await_resume_def sum_totals_def ph cur intro!: throughput_result_ok [OF ok])
  next
    case False
    let ?a = "complete_start self ?v [?b] bufsz (tp_store s)"
    have ty: "t_type (tp_store s y) \<noteq> LIBUSB_TRANSFER_TYPE_ISOCHRONOUS" if "y \<in> set (sv_array ?v)" for y
      using dest that by (auto simp: v(3) destination_def)
    note start = complete_one_start [where b = ?b and self = self and m = "tp_store s", OF v(1,2) bufsz_facts(1,2) ty]
    have "destination (tfers ?a x) = destination (tp_store s x)" for x
      by (simp add: v(2) complete_prepare_def destination_window)
    moreover have "throughput_call checked self s = s\<lparr>tp_phase := Tp_Reading ?a\<rparr>"
      unfolding throughput_call_def call using False submit(2) by simp
    ultimately show ?thesis using ok start dest cur
      by (simp add: throughput_ok_def tp_objects_def tp_tfers_def)
  qed
qed

lemma throughput_step_ok:
  assumes ok: "throughput_ok h ts s" and st: "throughput_step checked e s = Some t"
    and ts: "ts \<noteq> []" "distinct ts" "length ts < 2 ^ 64"
  shows "throughput_ok h ts t"
proof (cases e)
  case (Tp_Read self)
  with st have "tp_phase s = Tp_Call" "t = throughput_call checked self s" by (auto split: tp_phase.splits)
  then show ?thesis using throughput_call_ok [OF ok _ ts] by simp
next
  case (Tp_Io e ds)
  with st obtain a b where a: "tp_phase s = Tp_Reading a" "io_data_ok e ds" "conforming_step e a = Some b"
      "t = s\<lparr>tp_phase := Tp_Reading b, tp_mem := receive e ds a (tp_mem s), tp_current := tp_current s @ ds\<rparr>"
    by (auto split: tp_phase.splits if_splits)
  have one: "complete_one (hd ts) (tp_buffer s) a"
    and cur: "map (tp_mem s) (segment (buf_data (tp_buffer s)) (one_moved (hd ts) a)) = tp_current s"
    using ok a(1) by (simp_all add: throughput_ok_def)
  have "complete_step e a = Some b" using a(3) by (auto simp: conforming_step_def split: if_splits)
  note same = fun_cong [OF complete_step_destinations [OF this]]
  show ?thesis
    using ok a same complete_buffer.step_inv [OF one a(3)] complete_buffer.receive_bytes [OF one a(3,2) cur]
    by (simp add: throughput_ok_def tp_objects_def tp_tfers_def destinations_def)
next
  case Tp_Cancel
  with st obtain a b where a: "tp_phase s = Tp_Reading a" "conforming_step Stop a = Some b"
      "t = s\<lparr>tp_phase := Tp_Reading b\<rparr>"
    by (auto split: tp_phase.splits if_splits)
  have one: "complete_one (hd ts) (tp_buffer s) a" using ok a(1) by (simp add: throughput_ok_def)
  obtain xs where b: "b = a\<lparr>stopped := True, cancels := xs\<rparr>"
    using a(2) by (auto simp: conforming_step_def complete_stop_def split: if_splits)
  show ?thesis using ok a(1,3) b complete_buffer.step_inv [OF one a(2)]
    by (simp add: throughput_ok_def tp_objects_def tp_tfers_def one_moved_def)
next
  case Tp_Resume
  with st obtain a where a: "tp_phase s = Tp_Reading a" "posts a = 1"
      "t = throughput_result (complete_await_resume a) (s\<lparr>tp_store := tfers a\<rparr>)"
    by (auto split: tp_phase.splits if_splits)
  have one: "complete_one (hd ts) (tp_buffer s) a"
    and cur: "map (tp_mem s) (segment (tp_buf s) (one_moved (hd ts) a)) = tp_current s"
    using ok a(1) by (simp_all add: throughput_ok_def)
  have n: "unat (sum_totals (ca_states a)) = one_moved (hd ts) a"
    using complete_buffer.result_unat [OF one a(2)] by (simp add: complete_await_resume_def)
  have "throughput_ok h ts (s\<lparr>tp_store := tfers a\<rparr>)"
    using ok a(1) by (simp add: throughput_ok_def tp_objects_def tp_tfers_def)
  then show ?thesis unfolding a(3) complete_await_resume_def
    by (rule throughput_result_ok)
      (use a(1,2) cur complete_one_moved(2) [OF one] bufsz_facts(3) in \<open>simp_all add: n\<close>)
qed (use ok st in \<open>auto simp: throughput_ok_def tp_objects_def tp_tfers_def split: tp_phase.splits if_splits\<close>)

interpretation throughput_machine: machine "throughput_step checked"
  "\<lambda>s. throughput_ok h ts s \<and> ts \<noteq> [] \<and> distinct ts \<and> length ts < 2 ^ 64"
  by unfold_locales (auto intro: throughput_step_ok)

text \<open>The bytes the device sends in an event.\<close>

fun tp_sent :: "tp_event \<Rightarrow> u8 list" where
  "tp_sent (Tp_Io e ds) = ds"
| "tp_sent _ = []"

lemma throughput_call_received: "tp_received (throughput_call checked self s) = tp_received s"
  by (auto simp: throughput_call_def throughput_result_def tp_received_def
      split: option.splits sum.splits suspension.splits prod.splits)

lemma throughput_step_received:
  assumes "throughput_step checked e s = Some t"
  shows "tp_received t = tp_received s @ tp_sent e"
  using assms throughput_call_received
  by (cases e) (auto simp: throughput_result_def tp_received_def split: tp_phase.splits if_splits prod.splits)

lemma throughput_init_ok:
  assumes "throughput_init fill env iface buf mem ts m svc = (svc', Returned (Inr s))" "fills_as 2 fill"
  shows "throughput_ok (device_handle_of iface) ts s" "tp_received s = []"
  using assms(1) fills_as_destination [OF assms(2)]
  by (auto simp: throughput_init_def act_bind_Returned ep_simps throughput_ok_def tp_objects_def tp_tfers_def
      tp_received_def upd_all_def elim!: bulk_complete_made [OF _ prefill_bulk_store [OF assms(2)]])

section \<open>Properties\<close>

text \<open>C11: the throughput program counts and receives every byte: whatever the timing, the failures and the
  sizes of the completions, the bytes the device sent are those of the reads, one after the other;
  after each read the loop finds in its buffer what the device sent in it, 4 MiB if the read
  reports no error, and the total is the number of all the bytes of the reads, those of a failed
  read included.  No assertion of the library fails, and the transfers always go to the IN endpoint
  1 of the claimed device.\<close>

theorem throughput_counts_every_byte:
  assumes "throughput_init fill env iface buf mem ts m svc = (svc', Returned (Inr s0))" "fills_as 2 fill"
    and "length ts = 6" "distinct ts" "run (throughput_step checked) es s0 = Some s"
  shows "concat (map (\<lambda>(rec, sent, found). sent) (tp_reads s)) @ tp_current s = concat (map tp_sent es)
    \<and> list_all read_ok (tp_reads s)
    \<and> tp_total s = of_nat (length (concat (map (\<lambda>(rec, sent, found). found) (tp_reads s))))
    \<and> (case tp_phase s of Tp_Aborted \<Rightarrow> False | _ \<Rightarrow> True)
    \<and> (\<forall>x \<in> set ts. destination (tp_tfers s x) = (device_handle_of iface, 0x81, 2, 0))"
proof -
  have inv: "throughput_ok (device_handle_of iface) ts s0 \<and> ts \<noteq> [] \<and> distinct ts \<and> length ts < 2 ^ 64"
    using throughput_init_ok(1) [OF assms(1,2)] assms(3,4) by auto
  have ok: "throughput_ok (device_handle_of iface) ts s"
    using throughput_machine.run_inv [OF assms(5) inv] by blast
  have "tp_received s = tp_received s0 @ concat (map tp_sent es)"
    using assms(5) inv by (rule throughput_machine.run_collects) (rule throughput_step_received)
  then have "tp_received s = concat (map tp_sent es)" using throughput_init_ok(2) [OF assms(1,2)] by simp
  moreover have "concat (map (\<lambda>(rec, sent, found). found) (tp_reads s)) =
      concat (map (\<lambda>(rec, sent, found). sent) (tp_reads s))"
    using ok by (intro arg_cong [where f = concat] map_cong) (auto simp: throughput_ok_def list_all_iff read_ok_def)
  then have "tp_total s = of_nat (length (concat (map (\<lambda>(rec, sent, found). found) (tp_reads s))))"
    using ok unfolding throughput_ok_def by metis
  moreover have "case tp_phase s of Tp_Aborted \<Rightarrow> False | _ \<Rightarrow> True"
    using ok by (auto simp: throughput_ok_def split: tp_phase.splits)
  ultimately show ?thesis using ok unfolding throughput_ok_def tp_received_def by blast
qed

text \<open>A read that gets three bytes and fails.\<close>

definition ex_throughput :: "service \<times> (aborted + throughput) act" where
  "ex_throughput = throughput_init (fill_as 2) ex_env (Pointer_Source (Raw_Pointer (Some 1))) 100 (\<lambda>_. 0)
     [0, 1, 2, 3, 4, 5] (\<lambda>_. null_transfer) service_init"

definition ex_throughput_run :: "tp_event list" where
  "ex_throughput_run = [Tp_Turn, Tp_Read 7, Tp_Io (Submit 0) [], Tp_Io (Complete 0 (ex_done 0 2) 0) [8, 9],
     Tp_Io (Complete 0 (ex_done 1 1) 0) [7], Tp_Resume]"

definition ex_throughput_sat :: bool where
  "ex_throughput_sat = (case snd ex_throughput of
     Returned (Inr s0) \<Rightarrow> run_sat (throughput_step True) ex_throughput_run s0 (\<lambda>s. tp_total s = 3 \<and> tp_current s = [])
   | _ \<Rightarrow> False)"

lemma ex_throughput_sat: "ex_throughput_sat"
  by code_simp

lemma ex_throughput_result:
  obtains s0 s where "ex_throughput = (fst ex_throughput, Returned (Inr s0))"
    "run (throughput_step True) ex_throughput_run s0 = Some s" "tp_current s = []"
proof -
  obtain s0 where s0: "snd ex_throughput = Returned (Inr s0)"
      "run_sat (throughput_step True) ex_throughput_run s0 (\<lambda>s. tp_total s = 3 \<and> tp_current s = [])"
    using ex_throughput_sat by (auto simp: ex_throughput_sat_def split: act.splits sum.splits)
  then show ?thesis using that run_satD [OF s0(2)] by (metis prod.collapse)
qed

theorem throughput_counts_every_byte_witness:
  "\<exists>s0 s. snd ex_throughput = Returned (Inr s0) \<and> run (throughput_step True) ex_throughput_run s0 = Some s
     \<and> concat (map (\<lambda>(rec, sent, found). sent) (tp_reads s)) = [8, 9, 7]"
proof (rule ex_throughput_result)
  fix s0 s
  assume s: "ex_throughput = (fst ex_throughput, Returned (Inr s0))"
    "run (throughput_step True) ex_throughput_run s0 = Some s" "tp_current s = []"
  note throughput_counts_every_byte [OF s(1) [unfolded ex_throughput_def] fills_as_fill_as _ _ s(2)]
  then have "concat (map (\<lambda>(rec, sent, found). sent) (tp_reads s)) = [8, 9, 7]"
    by (simp add: ex_throughput_run_def s(3))
  moreover have "snd ex_throughput = Returned (Inr s0)" using s(1) by (metis snd_conv)
  ultimately show ?thesis using s(2) by blast
qed

text \<open>A buffer sequence of one buffer uses one transfer: libusb never holds another than the first of the
  six, and so never more than one at a time.\<close>

theorem throughput_uses_one_transfer:
  assumes "throughput_init fill env iface buf mem ts m svc = (svc', Returned (Inr s0))" "fills_as 2 fill"
    and "length ts = 6" "distinct ts" "run (throughput_step checked) es s0 = Some s" "tp_phase s = Tp_Reading a"
  shows "outstanding a \<subseteq> {hd ts}"
proof -
  have "throughput_ok (device_handle_of iface) ts s0 \<and> ts \<noteq> [] \<and> distinct ts \<and> length ts < 2 ^ 64"
    using throughput_init_ok(1) [OF assms(1,2)] assms(3,4) by auto
  from throughput_machine.run_inv [OF assms(5) this] show ?thesis
    using complete_one_tid(1) [of "hd ts" "tp_buffer s" a] assms(6) by (simp add: throughput_ok_def)
qed

text \<open>The session: whatever libusb returns, it uses libusb as it allows and gives everything back.\<close>

lemma throughput_session_closes:
  assumes "d \<in># refs" "\<And>x. fst (lu_open lu x) = LIBUSB_SUCCESS \<Longrightarrow> snd (lu_open lu x) \<noteq> None"
  shows "closes (refs - {#d#}) (usb_idle refs) (lu_release lu \<noteq> LIBUSB_SUCCESS \<or> lu_attach lu \<noteq> LIBUSB_SUCCESS)
    (throughput_session wrappers_throw lu \<lparr>m_dev = Some d\<rparr>)"
  unfolding throughput_session_def using assms by (rule dev_loop_closes)

end
