(* ===== verification/Session_Interleaving.thy ===== *)
theory Session_Interleaving
  imports Device_Session
begin

text \<open>
  Several device loops at once: \<open>accept_hotplug\<close> starts a \<open>dev_loop\<close> for every device that arrives, and
  their calls of libusb interleave.  What a session may do depends only on what it has in use
  itself (a frame rule), so any interleaving of sessions with different handles is as safe as the
  sessions are one by one.
\<close>

section \<open>A session beside others\<close>

definition same_use :: "usb_use \<Rightarrow> usb_use \<Rightarrow> bool" where
  "same_use u v \<longleftrightarrow> uu_refs u = uu_refs v \<and> mset (uu_open u) = mset (uu_open v)
     \<and> mset (uu_claimed u) = mset (uu_claimed v) \<and> mset (uu_detached u) = mset (uu_detached v)
     \<and> uu_transfers u = uu_transfers v \<and> uu_handler u = uu_handler v"

definition plus_use :: "usb_use \<Rightarrow> usb_use \<Rightarrow> usb_use" where
  "plus_use u v = \<lparr>uu_refs = uu_refs u + uu_refs v, uu_open = uu_open u @ uu_open v,
     uu_claimed = uu_claimed u @ uu_claimed v, uu_detached = uu_detached u @ uu_detached v,
     uu_transfers = uu_transfers u + uu_transfers v, uu_handler = uu_handler u + uu_handler v\<rparr>"

fun call_handles :: "usb_call \<Rightarrow> nat set" where
  "call_handles (U_Open h) = set_option h"
| "call_handles (U_Detach h n ok) = set_option h"
| "call_handles (U_Claim h n ok) = set_option h"
| "call_handles (U_Release h n) = {h}"
| "call_handles (U_Attach h n) = {h}"
| "call_handles (U_Close h) = {h}"
| "call_handles _ = {}"

definition handles_of :: "usb_call list \<Rightarrow> nat set" where
  "handles_of cs = (\<Union>c \<in> set cs. call_handles c)"

definition use_handles :: "usb_use \<Rightarrow> nat set" where
  "use_handles u = set (uu_open u) \<union> fst ` set (uu_claimed u) \<union> fst ` set (uu_detached u)"

lemma handles_of_simps [simp]:
  "handles_of [] = {}" "handles_of (c # cs) = call_handles c \<union> handles_of cs"
  by (simp_all add: handles_of_def)

lemma use_handles_step: "usb_allows c u = Some u' \<Longrightarrow> use_handles u' \<subseteq> use_handles u \<union> call_handles c"
  by (cases "(c, u)" rule: usb_allows.cases)
    (auto simp: use_handles_def dest!: set_remove1_subset [THEN subsetD] split: if_splits option.splits)

lemma same_set: "mset ws = mset xs + mset ys \<Longrightarrow> set ws = set xs \<union> set ys"
  by (metis mset_append set_append set_mset_mset)

text \<open>The frame rule.\<close>

lemma usb_allows_frame:
  assumes "usb_allows c u = Some u'" "same_use w (plus_use u v)" "call_handles c \<inter> use_handles v = {}"
  shows "\<exists>w'. usb_allows c w = Some w' \<and> same_use w' (plus_use u' v)"
proof -
  have s: "uu_refs w = uu_refs u + uu_refs v" "mset (uu_open w) = mset (uu_open u) + mset (uu_open v)"
    "mset (uu_claimed w) = mset (uu_claimed u) + mset (uu_claimed v)"
    "mset (uu_detached w) = mset (uu_detached u) + mset (uu_detached v)"
    "uu_transfers w = uu_transfers u + uu_transfers v" "uu_handler w = uu_handler u + uu_handler v"
    using assms(2) by (simp_all add: same_use_def plus_use_def)
  note sets = same_set [OF s(2)] same_set [OF s(3)] same_set [OF s(4)]
  have "\<forall>h \<in> call_handles c. \<forall>n. (h, n) \<notin> set (uu_claimed v)"
    using assms(3) by (force simp: use_handles_def)
  then show ?thesis using assms(1,3)
    by (cases "(c, u)" rule: usb_allows.cases)
      (auto simp: same_use_def plus_use_def use_handles_def s sets
          split: if_splits option.splits)
qed

section \<open>Interleavings\<close>

lemma shuffle_uses:
  assumes "cs \<in> shuffles as bs" "uses as u u'" "uses bs v v'" "same_use w (plus_use u v)"
    and "(handles_of as \<union> use_handles u) \<inter> (handles_of bs \<union> use_handles v) = {}"
  shows "\<exists>w'. uses cs w w' \<and> same_use w' (plus_use u' v')"
  using assms
proof (induction cs arbitrary: as bs u v w)
  case Nil
  then show ?case by auto
next
  case (Cons c cs)
  have sym: "same_use w (plus_use u v) \<longleftrightarrow> same_use w (plus_use v u)" for w u v
    by (simp add: same_use_def plus_use_def ac_simps)
  from Cons.prems(1) consider
    (left) as' where "as = c # as'" "cs \<in> shuffles as' bs"
  | (right) bs' where "bs = c # bs'" "cs \<in> shuffles as bs'"
    by (auto simp: Cons_in_shuffles_iff neq_Nil_conv)
  then show ?case
  proof cases
    case left
    obtain t where t: "usb_allows c u = Some t" "uses as' t u'"
      using Cons.prems(2) left by (auto split: option.splits)
    obtain w1 where w1: "usb_allows c w = Some w1" "same_use w1 (plus_use t v)"
      using usb_allows_frame [OF t(1) Cons.prems(4)] Cons.prems(5) left by auto
    have "(handles_of as' \<union> use_handles t) \<inter> (handles_of bs \<union> use_handles v) = {}"
      using Cons.prems(5) use_handles_step [OF t(1)] left by auto
    from Cons.IH [OF left(2) t(2) Cons.prems(3) w1(2) this] show ?thesis using w1(1) by auto
  next
    case right
    obtain t where t: "usb_allows c v = Some t" "uses bs' t v'"
      using Cons.prems(3) right by (auto split: option.splits)
    obtain w1 where w1: "usb_allows c w = Some w1" "same_use w1 (plus_use t u)"
      using usb_allows_frame [OF t(1) Cons.prems(4) [unfolded sym [of w u v]]] Cons.prems(5) right by auto
    have "(handles_of as \<union> use_handles u) \<inter> (handles_of bs' \<union> use_handles t) = {}"
      using Cons.prems(5) use_handles_step [OF t(1)] right by auto
    from Cons.IH [OF right(2) Cons.prems(2) t(2) w1(2) [unfolded sym [of w1 t u]] this]
    show ?thesis using w1(1) by auto
  qed
qed

fun interleavings :: "'a list list \<Rightarrow> 'a list set" where
  "interleavings [] = {[]}"
| "interleavings (xs # xss) = (\<Union>ys \<in> interleavings xss. shuffles xs ys)"

lemma handles_shuffle: "cs \<in> shuffles as bs \<Longrightarrow> handles_of cs = handles_of as \<union> handles_of bs"
  by (auto simp: handles_of_def dest: set_shuffles)

lemma handles_interleaving: "cs \<in> interleavings css \<Longrightarrow> handles_of cs = (\<Union>as \<in> set css. handles_of as)"
  by (induction css arbitrary: cs) (auto simp: handles_shuffle)

text \<open>A device with what libusb answers to its loop and the number of transfers.\<close>

type_synonym session = "nat \<times> libusb_results \<times> nat"

fun session_run :: "bool \<Rightarrow> session \<Rightarrow> usb_call list \<times> session_end" where
  "session_run wrappers_throw (d, lu, n) = dev_loop wrappers_throw lu n \<lparr>m_dev = Some d\<rparr>"

text \<open>libusb gives a handle if it opens a device.\<close>

fun opens :: "session \<Rightarrow> bool" where
  "opens (d, lu, n) \<longleftrightarrow> (\<forall>x. fst (lu_open lu x) = LIBUSB_SUCCESS \<longrightarrow> snd (lu_open lu x) \<noteq> None)"

lemma same_idle: "same_use u (usb_idle {#}) \<Longrightarrow> u = usb_idle {#}"
  by (cases u) (simp add: same_use_def usb_idle_def)

lemma plus_idle: "same_use (usb_idle (X + Y)) (plus_use (usb_idle X) (usb_idle Y))"
  by (simp add: same_use_def plus_use_def usb_idle_def)

lemma use_handles_idle [simp]: "use_handles (usb_idle X) = {}"
  by (simp add: use_handles_def usb_idle_def)

text \<open>What several have in use together.\<close>

fun use_sum :: "usb_use list \<Rightarrow> usb_use" where
  "use_sum [] = usb_idle {#}"
| "use_sum (u # us) = plus_use u (use_sum us)"

lemma use_sum_split: "same_use w (use_sum (as @ u # bs)) \<longleftrightarrow> same_use w (plus_use u (use_sum (as @ bs)))"
proof -
  have "same_use (use_sum (as @ u # bs)) (plus_use u (use_sum (as @ bs)))"
    by (induction as) (simp_all add: same_use_def plus_use_def ac_simps)
  then show ?thesis by (auto simp: same_use_def)
qed

lemma plus_use_handles [simp]: "use_handles (plus_use u v) = use_handles u \<union> use_handles v"
  by (simp add: use_handles_def plus_use_def image_Un ac_simps)

lemma use_sum_handles: "use_handles (use_sum us) = (\<Union>u \<in> set us. use_handles u)"
  by (induction us) simp_all

lemma use_sum_idle: "\<forall>u \<in> set us. u = usb_idle {#} \<Longrightarrow> use_sum us = usb_idle {#}"
  by (induction us) (simp_all add: plus_use_def usb_idle_def)

lemma same_use_trans: "same_use u v \<Longrightarrow> same_use v w \<Longrightarrow> same_use u w"
  by (simp add: same_use_def)

lemma same_use_plus: "same_use v w \<Longrightarrow> same_use (plus_use u v) (plus_use u w)"
  by (simp add: same_use_def plus_use_def)

text \<open>Any lists of calls with different handles, each allowed by itself.\<close>

lemma interleaving_allowed:
  assumes "\<forall>x \<in> set xs. uses (f x) (usb_idle (g x)) (h x)" "cs \<in> interleavings (map f xs)"
    and "sorted_wrt (\<lambda>x y. handles_of (f x) \<inter> handles_of (f y) = {}) xs"
  shows "\<exists>w. uses cs (usb_idle (sum_list (map g xs))) w \<and> same_use w (use_sum (map h xs))"
  using assms
proof (induction xs arbitrary: cs)
  case (Cons x xs)
  obtain bs where bs: "bs \<in> interleavings (map f xs)" "cs \<in> shuffles (f x) bs"
    using Cons.prems(2) by auto
  obtain v where rest: "uses bs (usb_idle (sum_list (map g xs))) v" "same_use v (use_sum (map h xs))"
    using Cons.IH [OF _ bs(1)] Cons.prems(1,3) by auto
  have one: "uses (f x) (usb_idle (g x)) (h x)" using Cons.prems(1) by simp
  have "(handles_of (f x) \<union> use_handles (usb_idle (g x)))
      \<inter> (handles_of bs \<union> use_handles (usb_idle (sum_list (map g xs)))) = {}"
    using Cons.prems(3) handles_interleaving [OF bs(1)] by auto
  from shuffle_uses [OF bs(2) one rest(1) plus_idle this]
  obtain w where "uses cs (usb_idle (g x + sum_list (map g xs))) w" "same_use w (plus_use (h x) v)" by blast
  then show ?case using same_use_trans [OF _ same_use_plus [OF rest(2)]] by auto
qed (auto simp: same_use_def)

lemma sum_single: "sum_list (map (\<lambda>x. {#h x#}) xs) = mset (map h xs)"
  by (induction xs) simp_all

text \<open>One session: what it has in use at the end of its calls.\<close>

lemma session_uses:
  assumes "opens s"
  shows "\<exists>t. uses (fst (session_run wt s)) (usb_idle {#fst s#}) t
    \<and> (case snd (session_run wt s) of Ended exc \<Rightarrow> t = usb_idle {#} | In_Loop \<Rightarrow> reads_on t
       | Std_Terminate \<Rightarrow> True | Undefined_Use \<Rightarrow> False)"
proof -
  obtain d lu n where s: "s = (d, lu, n)" by (cases s)
  then show ?thesis using dev_loop_closes [of d "{#d#}" lu wt n] assms
    by (fastforce simp: closes_def split: session_end.splits prod.splits)
qed

text \<open>How many of them are in their loop.\<close>

definition reading_sessions :: "bool \<Rightarrow> session list \<Rightarrow> nat" where
  "reading_sessions wt ss = length (filter (\<lambda>s. snd (session_run wt s) = In_Loop) ss)"

lemma sessions_use:
  assumes "\<forall>s \<in> set ss. snd (session_run wt s) \<noteq> Std_Terminate"
    and "\<forall>s \<in> set ss. case snd (session_run wt s) of Ended exc \<Rightarrow> h s = usb_idle {#} | In_Loop \<Rightarrow> reads_on (h s)
       | Std_Terminate \<Rightarrow> True | Undefined_Use \<Rightarrow> False"
  shows "uu_handler (use_sum (map h ss)) = reading_sessions wt ss"
    and "length (uu_open (use_sum (map h ss))) = reading_sessions wt ss"
    and "length (uu_claimed (use_sum (map h ss))) = reading_sessions wt ss"
proof -
  have "uu_handler (use_sum (map h ss)) = reading_sessions wt ss \<and> length (uu_open (use_sum (map h ss))) = reading_sessions wt ss
      \<and> length (uu_claimed (use_sum (map h ss))) = reading_sessions wt ss"
    using assms
  proof (induction ss)
    case (Cons s ss)
    then show ?case
      by (cases "snd (session_run wt s)") (auto simp: reading_sessions_def plus_use_def usb_idle_def reads_on_def)
  qed (simp add: reading_sessions_def usb_idle_def)
  then show "uu_handler (use_sum (map h ss)) = reading_sessions wt ss"
    "length (uu_open (use_sum (map h ss))) = reading_sessions wt ss"
    "length (uu_claimed (use_sum (map h ss))) = reading_sessions wt ss" by blast+
qed

lemma no_session_reads:
  assumes "\<forall>s \<in> set ss. \<exists>exc. snd (session_run wt s) = Ended exc"
    and "\<forall>s \<in> set ss. case snd (session_run wt s) of Ended exc \<Rightarrow> h s = usb_idle {#} | In_Loop \<Rightarrow> reads_on (h s)
       | Std_Terminate \<Rightarrow> True | Undefined_Use \<Rightarrow> False"
  shows "use_sum (map h ss) = usb_idle {#}"
proof (rule use_sum_idle)
  have "h s = usb_idle {#}" if "s \<in> set ss" for s
    using assms(1) bspec [OF assms(2) that] that by force
  then show "\<forall>u \<in> set (map h ss). u = usb_idle {#}" by auto
qed

section \<open>Property\<close>

text \<open>C8: device loops with different handles that run at once, whatever the order of their calls, use
  libusb as it allows, whether they have ended, read on, or had a destructor that threw.  When all have
  ended, nothing is left in use and every device has the reference back its loop was started with.
  While none was terminated, the handles open, the interfaces claimed and the references to the event
  handler are those of the loops that still read, one each.\<close>

theorem device_loops_interleave_safely:
  assumes "\<And>s. s \<in> set ss \<Longrightarrow> opens s"
    and "sorted_wrt (\<lambda>s t. handles_of (fst (session_run wrappers_throw s)) \<inter> handles_of (fst (session_run wrappers_throw t)) = {}) ss"
    and "cs \<in> interleavings (map (\<lambda>s. fst (session_run wrappers_throw s)) ss)"
  shows "\<exists>u. run usb_allows cs (usb_idle (mset (map fst ss))) = Some u
    \<and> ((\<forall>s \<in> set ss. \<exists>exc. snd (session_run wrappers_throw s) = Ended exc) \<longrightarrow> u = usb_idle {#})
    \<and> ((\<forall>s \<in> set ss. snd (session_run wrappers_throw s) \<noteq> Std_Terminate) \<longrightarrow>
         (let n = length (filter (\<lambda>s. snd (session_run wrappers_throw s) = In_Loop) ss)
          in uu_handler u = n \<and> length (uu_open u) = n \<and> length (uu_claimed u) = n))"
proof -
  have "\<forall>s \<in> set ss. \<exists>t. uses (fst (session_run wrappers_throw s)) (usb_idle {#fst s#}) t
      \<and> (case snd (session_run wrappers_throw s) of Ended exc \<Rightarrow> t = usb_idle {#} | In_Loop \<Rightarrow> reads_on t
         | Std_Terminate \<Rightarrow> True | Undefined_Use \<Rightarrow> False)"
    using session_uses assms(1) by blast
  from bchoice [OF this] obtain h where h: "\<forall>s \<in> set ss. uses (fst (session_run wrappers_throw s)) (usb_idle {#fst s#}) (h s)
      \<and> (case snd (session_run wrappers_throw s) of Ended exc \<Rightarrow> h s = usb_idle {#} | In_Loop \<Rightarrow> reads_on (h s)
         | Std_Terminate \<Rightarrow> True | Undefined_Use \<Rightarrow> False)" ..
  have ends: "\<forall>s \<in> set ss. case snd (session_run wrappers_throw s) of Ended exc \<Rightarrow> h s = usb_idle {#}
      | In_Loop \<Rightarrow> reads_on (h s) | Std_Terminate \<Rightarrow> True | Undefined_Use \<Rightarrow> False"
    and calls: "\<forall>s \<in> set ss. uses (fst (session_run wrappers_throw s)) (usb_idle {#fst s#}) (h s)"
    using h by blast+
  obtain u where u: "uses cs (usb_idle (mset (map fst ss))) u" "same_use u (use_sum (map h ss))"
    using interleaving_allowed [OF calls assms(3,2)] unfolding sum_single by blast
  have "uu_handler u = uu_handler (use_sum (map h ss))" "length (uu_open u) = length (uu_open (use_sum (map h ss)))"
    "length (uu_claimed u) = length (uu_claimed (use_sum (map h ss)))"
    using u(2) by (auto simp: same_use_def dest: mset_eq_length)
  moreover have "u = usb_idle {#}" if "\<forall>s \<in> set ss. \<exists>exc. snd (session_run wrappers_throw s) = Ended exc"
    using u(2) no_session_reads [OF that ends] same_idle by simp
  moreover have "run usb_allows cs (usb_idle (mset (map fst ss))) = Some u" using u(1) by (simp add: uses_def)
  ultimately show ?thesis unfolding Let_def reading_sessions_def [symmetric]
    using sessions_use [OF _ ends] by (intro exI [of _ u]) simp
qed

definition ex_session_of :: "nat \<Rightarrow> nat \<Rightarrow> session" where
  "ex_session_of d h = (d, (ex_libusb 0 0)\<lparr>lu_open := \<lambda>_. (0, Some h)\<rparr>, 1)"

lemma ex_sessions:
  "snd (session_run False (ex_session_of 9 5)) = Ended None" "snd (session_run False (ex_session_of 8 6)) = Ended None"
  "handles_of (fst (session_run False (ex_session_of 9 5))) = {5}"
  "handles_of (fst (session_run False (ex_session_of 8 6))) = {6}"
  "fst (session_run False (ex_session_of 9 5)) = U_Ref (Ref_Device 9) # tl (fst (session_run False (ex_session_of 9 5)))"
  by code_simp+

lemma append_in_shuffles: "ys @ xs \<in> shuffles xs ys"
  by (induction ys) (auto intro: Cons_in_shuffles_rightI)

text \<open>The first loop begins, then the second runs, then the first goes on.\<close>

theorem device_loops_interleave_safely_witness:
  "run usb_allows
     (U_Ref (Ref_Device 9) # fst (session_run False (ex_session_of 8 6)) @ tl (fst (session_run False (ex_session_of 9 5))))
     (usb_idle {#9, 8#}) = Some (usb_idle {#})"
proof -
  let ?a = "ex_session_of 9 5" and ?b = "ex_session_of 8 6"
  let ?as = "fst (session_run False ?a)" and ?bs = "fst (session_run False ?b)"
  have "?bs @ tl ?as \<in> shuffles (tl ?as) ?bs" by (rule append_in_shuffles)
  then have "U_Ref (Ref_Device 9) # ?bs @ tl ?as \<in> shuffles (U_Ref (Ref_Device 9) # tl ?as) ?bs"
    by (rule Cons_in_shuffles_leftI)
  then have "U_Ref (Ref_Device 9) # ?bs @ tl ?as \<in> shuffles ?as ?bs"
    unfolding ex_sessions(5) [symmetric] .
  then have cs: "U_Ref (Ref_Device 9) # ?bs @ tl ?as \<in> interleavings (map (\<lambda>s. fst (session_run False s)) [?a, ?b])"
    by simp
  have ok: "opens s" if "s \<in> set [?a, ?b]" for s using that by (auto simp: ex_session_of_def)
  have over: "\<forall>s \<in> set [?a, ?b]. \<exists>exc. snd (session_run False s) = Ended exc" using ex_sessions(1,2) by auto
  have dis: "sorted_wrt (\<lambda>s t. handles_of (fst (session_run False s)) \<inter> handles_of (fst (session_run False t)) = {}) [?a, ?b]"
    using ex_sessions(3,4) by simp
  have "mset (map fst [?a, ?b]) = {#9, 8#}" by (simp add: ex_session_of_def)
  then show ?thesis using device_loops_interleave_safely [OF ok dis cs] over by (simp only:) blast
qed

end
