(* ===== verification/Programs.thy ===== *)
theory Programs
  imports Session_Interleaving IO_Objects
begin

text \<open>
  Whole programs: the \<open>main\<close> functions of \<open>src/examples/00-simple-echo.cpp\<close> and
  \<open>01-multiple-transfers.cpp\<close>.  They make a context on a thread pool, open a device by its ids,
  detach the driver, claim the interface, start their coroutines, wait for them, and leave the
  scope, the thread pool and with it the service last.  Here the service, the device wrappers, the
  destructors of \<open>Device_Session\<close> and the interleaving of coroutines meet.
\<close>

section \<open>Coroutines\<close>

text \<open>The calls of a coroutine so far, and whether it has ended, by itself or by an exception that left
  it, or is in its loop.\<close>

datatype coroutine_end = Co_Returned | Co_Threw | Co_Loops

type_synonym coroutine = "usb_call list \<times> coroutine_end"

text \<open>The loops, given what they meet in each turn: whether stop is requested at the condition, and the
  error codes of the read and, in \<open>echo\<close>, of the write.  \<open>False\<close>: the loop has not ended when the list
  has.  What the reads and writes do is in \<open>Echo\<close> and \<open>Polling\<close>.\<close>

fun echo_loop :: "(bool \<times> error_code \<times> error_code) list \<Rightarrow> bool" where
  "echo_loop [] = False"
| "echo_loop ((stop, rec, wec) # rest) =
     (if stop then True else if ec_bool rec then True else if ec_bool wec then True else echo_loop rest)"

fun poll_loop :: "(bool \<times> error_code \<times> error_code) list \<Rightarrow> bool" where
  "poll_loop [] = False"
| "poll_loop ((stop, ec, unused) # rest) = (if stop then True else poll_loop rest)"

text \<open>\<open>echo\<close>: the array \<open>tfers\<close>, and the two I/O objects.\<close>

definition echo_coroutine :: "libusb_results \<Rightarrow> (bool \<times> error_code \<times> error_code) list \<Rightarrow> coroutine" where
  "echo_coroutine lu turns =
     (case resize_resources lu 0 2 [] of
        (None, cs) \<Rightarrow> (cs, Co_Threw)
      | (Some ts, cs) \<Rightarrow>
          (let cs = cs @ [U_Handler_Ref, U_Handler_Ref] in
           if echo_loop turns then (cs @ [U_Handler_Unref, U_Handler_Unref] @ map U_Free (rev ts), Co_Returned)
           else (cs, Co_Loops)))"

text \<open>The \<open>i\<close>th \<open>process_transfer\<close>: its transfer and its I/O object.\<close>

definition poll_coroutine ::
  "libusb_results \<Rightarrow> nat \<Rightarrow> (bool \<times> error_code \<times> error_code) list \<Rightarrow> coroutine" where
  "poll_coroutine lu i turns =
     (case make_resource (\<lambda>_. lu_alloc lu i) 0 of
        Inl Bad_Alloc \<Rightarrow> ([], Co_Threw)
      | Inr t \<Rightarrow>
          if poll_loop turns then ([U_Alloc t, U_Handler_Ref] @ [U_Handler_Unref, U_Free t], Co_Returned)
          else ([U_Alloc t, U_Handler_Ref], Co_Loops))"

section \<open>The programs\<close>

text \<open>
  What the program meets: the result of \<open>libusb_init\<close>, the block of the handler, the results of
  libusb, what the loop of each coroutine meets, how the executor interleaves the coroutines, whether it
  ends the program when an exception leaves one, and what libusb returns in the turn of the event loop
  that the destruction of the service waits for; the turns before succeed.  A thread can always be made.
\<close>

record program_env =
  pe_init :: "int \<times> nat"
  pe_block :: nat
  pe_open :: "usb_ctx \<Rightarrow> 16 word \<Rightarrow> 16 word \<Rightarrow> devh"
  pe_usb :: libusb_results
  pe_turns :: "nat \<Rightarrow> (bool \<times> error_code \<times> error_code) list"
  pe_order :: "usb_call list list \<Rightarrow> usb_call list"
  pe_rethrows :: bool
  pe_last_turn :: int

datatype program_call = Pc_Init nat | Pc_Exit nat | Pc_Usb usb_call

datatype program_end = Main_Returned | Program_Terminated | Program_Waits

definition main_triplet :: device_triplet where
  "main_triplet = any_triplet\<lparr>vid := 0x9f9f, pid := 0x9f9f\<rparr>"

text \<open>What the references of the coroutines' I/O objects do to the handler.\<close>

fun count_refs :: "usb_call list \<Rightarrow> service \<Rightarrow> service" where
  "count_refs [] s = s"
| "count_refs (U_Handler_Ref # cs) s = count_refs cs (service_handler s)"
| "count_refs (U_Handler_Unref # cs) s = count_refs cs (drop_reference s)"
| "count_refs (c # cs) s = count_refs cs s"

text \<open>The thread pool destroys the service; if that has to wait for the event loop, the loop makes its
  next turn meanwhile, in which libusb returns \<open>r\<close>.\<close>

definition exit_calls :: "service \<Rightarrow> program_call list" where
  "exit_calls s = (case sv_usb_ctx s of None \<Rightarrow> [] | Some c \<Rightarrow> [Pc_Exit c])"

definition pool_dtor :: "int \<Rightarrow> service \<Rightarrow> program_call list \<times> service \<times> program_end" where
  "pool_dtor r s =
     (case service_dtor s of
        (s, Returned _) \<Rightarrow> (exit_calls s, s, Main_Returned)
      | (s, Blocked) \<Rightarrow>
          (case service_turn r s of
             (s, Returned _) \<Rightarrow>
               (case service_dtor s of
                  (s, Returned _) \<Rightarrow> (exit_calls s, s, Main_Returned)
                | (s, _) \<Rightarrow> ([], s, Program_Waits))
           | (s, _) \<Rightarrow> ([], s, Program_Terminated))
      | (s, _) \<Rightarrow> ([], s, Program_Terminated))"

text \<open>
  From the start of the coroutines on; \<open>join\<close> waits until all have ended.  An exception that leaves
  \<open>main\<close> ends the program; what the coroutines did until one ended it is not followed.
\<close>

definition main_join ::
  "bool \<Rightarrow> program_env \<Rightarrow> coroutine list \<Rightarrow> local list \<Rightarrow> service \<Rightarrow> program_call list \<times> service \<times> program_end" where
  "main_join wrappers_throw env cors frame s =
     (if pe_rethrows env \<and> list_ex (\<lambda>c. snd c = Co_Threw) cors then ([], s, Program_Terminated)
      else
        (let cs = pe_order env (map fst cors); s = count_refs cs s in
         if list_ex (\<lambda>c. snd c = Co_Loops) cors then (map Pc_Usb cs, s, Program_Waits)
         else
         case leave_scope wrappers_throw (pe_usb env) None frame of
           (cs', session_end.Ended None) \<Rightarrow> (case pool_dtor (pe_last_turn env) s of (cs'', s, e) \<Rightarrow> (map Pc_Usb (cs @ cs') @ cs'', s, e))
         | (cs', _) \<Rightarrow> (map Pc_Usb (cs @ cs'), s, Program_Terminated)))"

definition main_claim ::
  "bool \<Rightarrow> program_env \<Rightarrow> coroutine list \<Rightarrow> device_handle \<Rightarrow> service \<Rightarrow> program_call list \<times> service \<times> program_end" where
  "main_claim wrappers_throw env cors devh s =
     (let h = device_handle_get devh; src = Pointer_Source (Raw_Pointer h); lu = pe_usb env;
          (maybe_guard, _) = detach_driver as_expected (lu_detach lu) src dev_iface_num ec_none;
          detach = U_Detach h dev_iface_num (case maybe_guard of Unexpected _ \<Rightarrow> False | Expected _ \<Rightarrow> True)
      in
        (case claim_interface_throwing (lu_claim lu) src dev_iface_num of
           Inl ec \<Rightarrow> ([Pc_Usb detach, Pc_Usb (U_Claim h dev_iface_num False)], s, Program_Terminated)
         | Inr iface \<Rightarrow>
             (case main_join wrappers_throw env cors [L_Interface iface, L_Guard maybe_guard, L_Handle devh] s of
                (cs, s, e) \<Rightarrow> (Pc_Usb detach # Pc_Usb (U_Claim h dev_iface_num True) # cs, s, e))))"

definition main_program ::
  "bool \<Rightarrow> handler_type \<Rightarrow> program_env \<Rightarrow> coroutine list \<Rightarrow> program_call list \<times> service \<times> program_end" where
  "main_program wrappers_throw ty env cors =
     (case make_context_default (pe_init env) True (pe_block env) ty service_init of
        (s, Returned (Inr _, _)) \<Rightarrow>
          (let init = Pc_Init (snd (pe_init env)) in
           case get_handler_service (pe_init env) True (pe_block env) s of
             (s, Returned _) \<Rightarrow>
               (case open_device_triplet_throwing (pe_open env) (service_usb_context s) main_triplet of
                  Inl ec \<Rightarrow> ([init, Pc_Usb (U_Open None)], s, Program_Terminated)
                | Inr devh \<Rightarrow>
                    (case main_claim wrappers_throw env cors devh s of
                       (cs, s, e) \<Rightarrow> (init # Pc_Usb (U_Open (device_handle_get devh)) # cs, s, e)))
           | (s, _) \<Rightarrow> ([init], s, Program_Terminated))
      | (s, _) \<Rightarrow> ([], s, Program_Terminated))"

definition echo_main :: "bool \<Rightarrow> program_env \<Rightarrow> program_call list \<times> service \<times> program_end" where
  "echo_main wrappers_throw env = main_program wrappers_throw Trivial_Type env [echo_coroutine (pe_usb env) (pe_turns env 0)]"

definition poll_total :: nat where
  "poll_total = 8"

definition polling_main :: "bool \<Rightarrow> program_env \<Rightarrow> program_call list \<times> service \<times> program_end" where
  "polling_main wrappers_throw env =
     main_program wrappers_throw Refcounted_Type env
       (map (\<lambda>i. poll_coroutine (pe_usb env) i (pe_turns env i)) [0..<poll_total])"

section \<open>What libusb asks of a program\<close>

text \<open>Devices are used while a context lives; a context is exited once, when no device is open and no
  transfer is left.\<close>

record program_use =
  pu_ctx :: usb_ctx
  pu_usb :: usb_use

definition program_idle :: program_use where
  "program_idle = \<lparr>pu_ctx = None, pu_usb = usb_idle {#}\<rparr>"

fun program_allows :: "program_call \<Rightarrow> program_use \<Rightarrow> program_use option" where
  "program_allows (Pc_Init c) p = (if pu_ctx p = None then Some (p\<lparr>pu_ctx := Some c\<rparr>) else None)"
| "program_allows (Pc_Exit c) p =
     (if pu_ctx p = Some c \<and> uu_open (pu_usb p) = [] \<and> uu_transfers (pu_usb p) = {#}
      then Some (p\<lparr>pu_ctx := None\<rparr>) else None)"
| "program_allows (Pc_Usb c) p =
     (if pu_ctx p = None then None else map_option (\<lambda>u. p\<lparr>pu_usb := u\<rparr>) (usb_allows c (pu_usb p)))"

lemma program_usb_run:
  "uses cs u v \<Longrightarrow> run program_allows (map Pc_Usb cs @ ds) \<lparr>pu_ctx = Some c, pu_usb = u\<rparr> =
     run program_allows ds \<lparr>pu_ctx = Some c, pu_usb = v\<rparr>"
  by (induction cs arbitrary: u) (auto split: option.splits)

section \<open>The service of a program\<close>

definition serving :: "nat \<Rightarrow> handler_type \<Rightarrow> nat \<Rightarrow> size_t \<Rightarrow> service" where
  "serving c ty blk n = service_init\<lparr>sv_usb_ctx := Some c, sv_started := True, sv_live := {c},
     sv_handler := \<lparr>ah_vtable = ty, ah_memres = 0, ah_storage = Some (blk,
       case ty of Trivial_Type \<Rightarrow> Trivial \<lparr>th_thread = Running (Some c) 0\<rparr>
       | Refcounted_Type \<Rightarrow> Refcounted \<lparr>rh_counter = n, rh_thread = Running (Some c) 0\<rparr>)\<rparr>\<rparr>"

lemma make_context_serving:
  "make_context_default (r, c) True blk ty service_init =
     (if r \<noteq> LIBUSB_SUCCESS then (service_init, Returned (Inl (make_usb_error_code r), ec_none))
      else (serving c ty blk 0, Returned (Inr (), ec_none)))"
  by (cases ty) (simp_all add: make_context_default_def make_context_def init_context_def as_exception_def
      make_context_rest_def emplace_and_start_def emplace_handler_def emplace_part_def any_emplace_def any_destroy_def
      any_stop_def any_deallocate_def any_construct_def any_valid_def any_default_def any_ref_def any_unref_def
      refcounted_ref_def refcounted_unref_def trivial_ref_def trivial_unref_def drop_reference_def service_start_def
      any_start_def refcounted_start_def trivial_start_def joinable_def serving_def service_init_def)

lemma serving_simps [simp]:
  "get_handler_service i spawn b (serving c ty blk n) = (serving c ty blk n, Returned ())"
  "service_usb_context (serving c ty blk n) = Some c"
  "service_handler (serving c ty blk n) = serving c ty blk (n + 1)"
  "drop_reference (serving c ty blk n) = serving c ty blk (n - 1)"
  by (cases ty; simp add: serving_def get_handler_service_def service_usb_context_def service_handler_def any_ref_def
      drop_reference_def any_unref_def refcounted_ref_def refcounted_unref_def trivial_ref_def trivial_unref_def)+

lemma count_refs_serving:
  "uses cs u v \<Longrightarrow> count_refs cs (serving c ty blk n) =
     serving c ty blk (n + of_nat (uu_handler v) - of_nat (uu_handler u))"
proof (induction cs arbitrary: u n)
  case (Cons x cs)
  obtain w where w: "usb_allows x u = Some w" "uses cs w v" using Cons.prems by (auto split: option.splits)
  show ?case using Cons.IH [OF w(2)] w(1)
    by (cases "(x, u)" rule: usb_allows.cases)
      (auto simp: algebra_simps of_nat_diff split: option.splits if_splits)
qed simp

text \<open>With no reference left the service can be destroyed, after one more turn of the loop, if that
  succeeds.\<close>

lemma pool_dtor_serving:
  "\<exists>t. pool_dtor r (serving c ty blk 0) = ([Pc_Exit c], t, Main_Returned) \<and> sv_live t = {}
       \<and> slot_thread (sv_handler t) = No_Thread
     \<or> r \<noteq> LIBUSB_SUCCESS \<and> pool_dtor r (serving c ty blk 0) = ([], t, Program_Terminated)"
  by (cases ty) (simp_all add: pool_dtor_def service_dtor_def shutdown_def any_stop_def serving_def trivial_stop_def
      refcounted_stop_def joinable_def join_thread_def service_turn_def any_turn_def trivial_turn_def
      refcounted_turn_def request_source_def libusb_exit_def exit_calls_def slot_thread_def service_init_def)

section \<open>The coroutines give back what they take\<close>

text \<open>What a coroutine calls is allowed, and when it has ended it has given back what it took.\<close>

definition coroutine_ok :: "coroutine \<Rightarrow> bool" where
  "coroutine_ok c \<longleftrightarrow> handles_of (fst c) = {}
     \<and> (\<exists>t. uses (fst c) (usb_idle {#}) t \<and> (snd c \<noteq> Co_Loops \<longrightarrow> t = usb_idle {#}))"

lemma resize_handles: "resize_resources lu i n ts = (r, cs) \<Longrightarrow> handles_of cs = {}"
  by (induction lu i n ts arbitrary: cs r rule: resize_resources.induct)
    (auto simp: handles_of_def split: sum.splits bad_alloc.splits prod.splits)

lemma resize_throws: "resize_resources lu i n ts = (None, cs) \<Longrightarrow> \<exists>j. lu_alloc lu j = None"
  by (induction lu i n ts arbitrary: cs rule: resize_resources.induct)
    (auto simp: make_resource_def split: option.splits prod.splits)

lemma echo_coroutine_ok: "coroutine_ok (echo_coroutine lu turns)"
proof -
  obtain r cs where r: "resize_resources lu 0 2 [] = (r, cs)" by fastforce
  have "uu_transfers (usb_idle {#}) = mset []" by (simp add: usb_idle_def)
  note alloc = resize_uses [OF r this]
  show ?thesis
  proof (cases r)
    case None
    then show ?thesis using alloc resize_handles [OF r] by (simp add: coroutine_ok_def echo_coroutine_def r usb_idle_def)
  next
    case (Some ts)
    let ?u = "(usb_idle {#})\<lparr>uu_transfers := mset ts\<rparr>"
    have "uses (cs @ [U_Handler_Ref, U_Handler_Ref]) (usb_idle {#}) (?u\<lparr>uu_handler := 2\<rparr>)"
      using alloc Some by (auto simp: uses_append usb_idle_def)
    moreover have "uses ([U_Handler_Unref, U_Handler_Unref] @ map U_Free (rev ts)) (?u\<lparr>uu_handler := 2\<rparr>) (usb_idle {#})"
      using free_all [of ?u "rev ts"] by (simp add: usb_idle_def)
    ultimately have "\<exists>t. uses (cs @ [U_Handler_Ref, U_Handler_Ref]) (usb_idle {#}) t"
      "uses ((cs @ [U_Handler_Ref, U_Handler_Ref]) @ [U_Handler_Unref, U_Handler_Unref] @ map U_Free (rev ts))
        (usb_idle {#}) (usb_idle {#})"
      unfolding uses_append [of "cs @ [U_Handler_Ref, U_Handler_Ref]"] by blast+
    moreover have "handles_of (cs @ [U_Handler_Ref, U_Handler_Ref] @ [U_Handler_Unref, U_Handler_Unref] @ map U_Free (rev ts)) = {}"
      using resize_handles [OF r] by (auto simp: handles_of_def)
    moreover have "handles_of (cs @ [U_Handler_Ref, U_Handler_Ref]) = {}"
      using resize_handles [OF r] by (auto simp: handles_of_def)
    ultimately show ?thesis using Some
      by (simp add: coroutine_ok_def echo_coroutine_def r Let_def del: uses_simps)
  qed
qed

lemma echo_coroutine_ends:
  "snd (echo_coroutine lu turns) = Co_Threw \<Longrightarrow> \<exists>j. lu_alloc lu j = None"
  "snd (echo_coroutine lu turns) = Co_Loops \<Longrightarrow> \<not> echo_loop turns"
  using resize_throws by (auto simp: echo_coroutine_def Let_def split: prod.splits option.splits if_splits)

lemma poll_coroutine_ok:
  "coroutine_ok (poll_coroutine lu i turns)" "snd (poll_coroutine lu i turns) = Co_Threw \<Longrightarrow> \<exists>j. lu_alloc lu j = None"
  "snd (poll_coroutine lu i turns) = Co_Loops \<Longrightarrow> \<not> poll_loop turns"
  by (auto simp: poll_coroutine_def make_resource_def coroutine_ok_def usb_idle_def split: option.splits if_splits)

text \<open>So do all of them together, in whatever order, whatever is in use beside them.\<close>

lemma same_use_session: "same_use w (in_session refs h det cl) \<Longrightarrow> w = in_session refs h det cl"
  by (cases w) (auto simp: same_use_def in_session_def usb_idle_def)

lemma coroutines_use:
  assumes "list_all coroutine_ok cors" "cs \<in> interleavings (map fst cors)"
  shows "\<exists>w. uses cs (in_session {#} h det cl) w
    \<and> (\<not> list_ex (\<lambda>c. snd c = Co_Loops) cors \<longrightarrow> w = in_session {#} h det cl)"
proof -
  let ?u = "in_session {#} h det cl"
  have sorted: "sorted_wrt (\<lambda>x y. handles_of (fst x) \<inter> handles_of (fst y) = {}) cors"
    using assms(1) by (auto simp: sorted_wrt_iff_nth_less list_all_length coroutine_ok_def)
  have "\<forall>c \<in> set cors. \<exists>t. uses (fst c) (usb_idle {#}) t \<and> (snd c \<noteq> Co_Loops \<longrightarrow> t = usb_idle {#})"
    using assms(1) by (simp add: list_all_iff coroutine_ok_def)
  from bchoice [OF this] obtain f
    where f: "\<forall>c \<in> set cors. uses (fst c) (usb_idle {#}) (f c) \<and> (snd c \<noteq> Co_Loops \<longrightarrow> f c = usb_idle {#})" ..
  then have calls: "\<forall>c \<in> set cors. uses (fst c) (usb_idle {#}) (f c)" by blast
  obtain v where v: "uses cs (usb_idle {#}) v" "same_use v (use_sum (map f cors))"
    using interleaving_allowed [OF calls assms(2) sorted] by (auto simp: sum_list_triv)
  have "handles_of cs = {}" using handles_interleaving [OF assms(2)] assms(1) by (simp add: list_all_iff coroutine_ok_def)
  then have disjoint: "(handles_of cs \<union> use_handles (usb_idle {#})) \<inter> (handles_of [] \<union> use_handles ?u) = {}"
    by (simp add: use_handles_idle handles_of_def)
  have same: "same_use ?u (plus_use (usb_idle {#}) ?u)" by (simp add: same_use_def plus_use_def usb_idle_def)
  have "cs \<in> shuffles cs []" "uses [] ?u ?u" by simp_all
  from shuffle_uses [OF this(1) v(1) this(2) same disjoint] obtain w
    where w: "uses cs ?u w" "same_use w (plus_use v ?u)" by blast
  have "w = ?u" if "\<not> list_ex (\<lambda>c. snd c = Co_Loops) cors"
  proof -
    have "use_sum (map f cors) = usb_idle {#}"
      by (rule use_sum_idle) (use that f in \<open>auto simp: list_ex_iff\<close>)
    then have "v = usb_idle {#}" using v(2) same_idle by simp
    moreover have "plus_use (usb_idle {#}) ?u = ?u" by (simp add: plus_use_def usb_idle_def in_session_def)
    ultimately show ?thesis using w(2) same_use_session by metis
  qed
  then show ?thesis using w(1) by blast
qed

section \<open>The whole program\<close>

text \<open>What can end a program before \<open>main\<close> returns: a call of libusb that fails, or no memory.\<close>

definition program_failure :: "program_env \<Rightarrow> bool" where
  "program_failure env \<longleftrightarrow>
     (let lu = pe_usb env in
      fst (pe_init env) \<noteq> LIBUSB_SUCCESS \<or> pe_open env (Some (snd (pe_init env))) 0x9f9f 0x9f9f = None
      \<or> (\<exists>h. lu_claim lu h dev_iface_num \<noteq> LIBUSB_SUCCESS) \<or> lu_release lu \<noteq> LIBUSB_SUCCESS
      \<or> lu_attach lu \<noteq> LIBUSB_SUCCESS \<or> (\<exists>j. lu_alloc lu j = None) \<or> pe_last_turn env \<noteq> LIBUSB_SUCCESS)"

text \<open>\<open>loops\<close>: some coroutine is in its loop.\<close>

definition program_safe ::
  "program_env \<Rightarrow> bool \<Rightarrow> program_use \<Rightarrow> program_call list \<times> service \<times> program_end \<Rightarrow> bool" where
  "program_safe env loops p r \<longleftrightarrow>
     (case r of (cs, s, e) \<Rightarrow> \<exists>q. run program_allows cs p = Some q \<and>
        (case e of
           Main_Returned \<Rightarrow> q = program_idle \<and> sv_live s = {} \<and> slot_thread (sv_handler s) = No_Thread
         | Program_Waits \<Rightarrow> loops
         | Program_Terminated \<Rightarrow> program_failure env))"

lemma main_frame:
  "\<exists>cs e t. leave_scope wt lu None [L_Interface \<lparr>if_devh = Some h, if_num = dev_iface_num\<rparr>, guard_local h rc,
        L_Handle \<lparr>m_storage = Some h\<rparr>] = (cs, e) \<and> uses cs (in_session {#} h (rc = LIBUSB_SUCCESS) True) t
     \<and> (if e = session_end.Ended None then t = usb_idle {#}
        else lu_release lu \<noteq> LIBUSB_SUCCESS \<or> lu_attach lu \<noteq> LIBUSB_SUCCESS)"
  by (auto simp: guard_local_def in_session_def usb_idle_def destroy_defs)

lemma main_join_safe:
  assumes cors: "list_all coroutine_ok cors" "list_ex (\<lambda>c. snd c = Co_Threw) cors \<Longrightarrow> \<exists>j. lu_alloc (pe_usb env) j = None"
    and order: "pe_order env (map fst cors) \<in> interleavings (map fst cors)"
  shows "program_safe env (list_ex (\<lambda>c. snd c = Co_Loops) cors)
    \<lparr>pu_ctx = Some c, pu_usb = in_session {#} h (rc = LIBUSB_SUCCESS) True\<rparr>
    (main_join wt env cors [L_Interface \<lparr>if_devh = Some h, if_num = dev_iface_num\<rparr>, guard_local h rc,
        L_Handle \<lparr>m_storage = Some h\<rparr>] (serving c ty blk 0))"
proof -
  let ?u = "in_session {#} h (rc = LIBUSB_SUCCESS) True" and ?cs = "pe_order env (map fst cors)"
  let ?loops = "list_ex (\<lambda>c. snd c = Co_Loops) cors"
  obtain w where use: "uses ?cs ?u w" "\<not> ?loops \<longrightarrow> w = ?u" using coroutines_use [OF cors(1) order] by blast
  show ?thesis
  proof (cases "pe_rethrows env \<and> list_ex (\<lambda>c. snd c = Co_Threw) cors")
    case True
    then show ?thesis using cors(2) by (simp add: main_join_def program_safe_def program_failure_def Let_def)
  next
    case False
    note joins = False
    show ?thesis
    proof (cases ?loops)
      case True
      then show ?thesis using joins program_usb_run [OF use(1), of "[]" c]
        by (auto simp: main_join_def program_safe_def Let_def)
    next
      case False
      then have use: "uses ?cs ?u ?u" using use by simp
      have refs: "count_refs ?cs (serving c ty blk 0) = serving c ty blk 0" using count_refs_serving [OF use] by simp
      obtain cs e t where leave: "leave_scope wt (pe_usb env) None [L_Interface \<lparr>if_devh = Some h, if_num = dev_iface_num\<rparr>,
            guard_local h rc, L_Handle \<lparr>m_storage = Some h\<rparr>] = (cs, e)" "uses cs ?u t"
          "if e = session_end.Ended None then t = usb_idle {#}
            else lu_release (pe_usb env) \<noteq> LIBUSB_SUCCESS \<or> lu_attach (pe_usb env) \<noteq> LIBUSB_SUCCESS"
        using main_frame [of wt "pe_usb env" h rc] by blast
      obtain v where v: "pool_dtor (pe_last_turn env) (serving c ty blk 0) = ([Pc_Exit c], v, Main_Returned)
            \<and> sv_live v = {} \<and> slot_thread (sv_handler v) = No_Thread
          \<or> pe_last_turn env \<noteq> LIBUSB_SUCCESS \<and> pool_dtor (pe_last_turn env) (serving c ty blk 0) = ([], v, Program_Terminated)"
        using pool_dtor_serving by blast
      have "uses (?cs @ cs) ?u t" using use leave(2) uses_append by blast
      note calls = program_usb_run [OF this, of _ c]
      show ?thesis using joins False leave(1,3) v calls [of "[]"] calls [of "[Pc_Exit c]"]
        by (cases "e = session_end.Ended None")
          (auto simp: main_join_def program_safe_def program_failure_def program_idle_def Let_def refs usb_idle_def
            split: session_end.splits option.splits)
    qed
  qed
qed

lemma program_safe_prepend:
  assumes "run program_allows cs p = Some q" "program_safe env loops q r"
  shows "program_safe env loops p (case r of (cs', s, e) \<Rightarrow> (cs @ cs', s, e))"
  using assms by (auto simp: program_safe_def run_append split: prod.splits)

lemma main_claim_safe:
  assumes "list_all coroutine_ok cors" "list_ex (\<lambda>c. snd c = Co_Threw) cors \<Longrightarrow> \<exists>j. lu_alloc (pe_usb env) j = None"
    and "pe_order env (map fst cors) \<in> interleavings (map fst cors)"
  shows "program_safe env (list_ex (\<lambda>c. snd c = Co_Loops) cors) \<lparr>pu_ctx = Some c, pu_usb = in_session {#} h False False\<rparr>
    (main_claim wt env cors \<lparr>m_storage = Some h\<rparr> (serving c ty blk 0))"
proof -
  let ?rc = "lu_detach (pe_usb env) (Some h) dev_iface_num"
  let ?d = "Pc_Usb (U_Detach (Some h) dev_iface_num (?rc = LIBUSB_SUCCESS))"
  let ?p = "\<lambda>det cl. \<lparr>pu_ctx = Some c, pu_usb = in_session {#} h det cl\<rparr>"
  have detach: "run program_allows [?d] (?p False False) = Some (?p (?rc = LIBUSB_SUCCESS) False)"
    "run program_allows [?d, Pc_Usb (U_Claim (Some h) dev_iface_num True)] (?p False False) =
       Some (?p (?rc = LIBUSB_SUCCESS) True)"
    by (simp_all add: in_session_def usb_idle_def)
  note join = main_join_safe [OF assms, of c h ?rc wt ty blk]
  show ?thesis
  proof (cases "lu_claim (pe_usb env) (Some h) dev_iface_num = LIBUSB_SUCCESS")
    case True
    have "main_claim wt env cors \<lparr>m_storage = Some h\<rparr> (serving c ty blk 0) =
      (case main_join wt env cors [L_Interface \<lparr>if_devh = Some h, if_num = dev_iface_num\<rparr>, guard_local h ?rc,
          L_Handle \<lparr>m_storage = Some h\<rparr>] (serving c ty blk 0)
       of (cs, s, e) \<Rightarrow> ([?d, Pc_Usb (U_Claim (Some h) dev_iface_num True)] @ cs, s, e))"
      using True by (simp add: main_claim_def claim_interface_throwing_def claim_interface_def detach_driver_def
          as_exception_def as_expected_def device_handle_get_def make_interface_def make_driver_guard_def
          guard_local_def Let_def)
    then show ?thesis using program_safe_prepend [OF detach(2) join] by simp
  next
    case False
    then have "main_claim wt env cors \<lparr>m_storage = Some h\<rparr> (serving c ty blk 0) =
        ([?d, Pc_Usb (U_Claim (Some h) dev_iface_num False)], serving c ty blk 0, Program_Terminated)"
      by (simp add: main_claim_def claim_interface_throwing_def claim_interface_def detach_driver_def
          as_exception_def as_expected_def device_handle_get_def Let_def)
    then show ?thesis using False
      by (auto simp: program_safe_def program_failure_def in_session_def usb_idle_def Let_def)
  qed
qed

lemma main_program_safe:
  assumes "list_all coroutine_ok cors" "list_ex (\<lambda>c. snd c = Co_Threw) cors \<Longrightarrow> \<exists>j. lu_alloc (pe_usb env) j = None"
    and "pe_order env (map fst cors) \<in> interleavings (map fst cors)"
  shows "program_safe env (list_ex (\<lambda>c. snd c = Co_Loops) cors) program_idle (main_program wt ty env cors)"
proof -
  obtain r c where i: "pe_init env = (r, c)" by fastforce
  let ?h = "pe_open env (Some c) 0x9f9f 0x9f9f"
  have open': "open_device_triplet_throwing (pe_open env) (Some c) main_triplet =
      (case ?h of None \<Rightarrow> Inl (make_usb_error_code (usb_error_value Usb_unknown)) | Some h \<Rightarrow> Inr \<lparr>m_storage = Some h\<rparr>)"
    by (simp add: open_device_triplet_throwing_def open_device_triplet_def main_triplet_def as_exception_def
        make_device_handle_def split: option.splits)
  show ?thesis
  proof (cases "r = LIBUSB_SUCCESS \<and> ?h \<noteq> None")
    case False
    then show ?thesis
      by (cases "r = LIBUSB_SUCCESS") (auto simp: main_program_def i make_context_serving open' program_safe_def
          program_failure_def program_idle_def Let_def)
  next
    case True
    then obtain h where h: "?h = Some h" by blast
    have "run program_allows [Pc_Init c, Pc_Usb (U_Open (Some h))] program_idle =
        Some \<lparr>pu_ctx = Some c, pu_usb = in_session {#} h False False\<rparr>"
      by (simp add: program_idle_def in_session_def usb_idle_def)
    from program_safe_prepend [OF this main_claim_safe [OF assms]] show ?thesis
      using True h by (simp add: main_program_def i make_context_serving open' device_handle_get_def)
  qed
qed

section \<open>Property\<close>

text \<open>C9: the programs of examples 00 and 01, whatever happens, use libusb as it allows from the first call
  to the last, and nothing is called without a context.  They wait only in \<open>join\<close>, for a coroutine whose
  loop has not ended: destroying the service never waits for ever.  When \<open>main\<close> returns, every transfer
  was freed, the interface released, the driver attached, the handle closed, and after that the context
  exited and the thread of the event loop joined.  That the program is terminated takes a call of libusb
  that fails, an allocation or a turn of the event loop.\<close>

theorem programs_give_everything_back:
  assumes "\<And>css. pe_order env css \<in> interleavings css"
    and "(r, loops) \<in> {(echo_main wrappers_throw env, \<not> echo_loop (pe_turns env 0)),
      (polling_main wrappers_throw env, \<exists>i < poll_total. \<not> poll_loop (pe_turns env i))}"
  shows "case r of (cs, s, e) \<Rightarrow> \<exists>q. run program_allows cs program_idle = Some q
    \<and> (case e of
         Main_Returned \<Rightarrow> q = program_idle \<and> sv_live s = {} \<and> slot_thread (sv_handler s) = No_Thread
       | Program_Waits \<Rightarrow> loops
       | Program_Terminated \<Rightarrow> program_failure env)"
proof -
  have "program_safe env (list_ex (\<lambda>c. snd c = Co_Loops) [echo_coroutine (pe_usb env) (pe_turns env 0)]) program_idle
      (echo_main wrappers_throw env)"
    unfolding echo_main_def
    by (rule main_program_safe [OF _ _ assms(1)]) (auto simp: echo_coroutine_ok dest: echo_coroutine_ends)
  moreover have "program_safe env (list_ex (\<lambda>c. snd c = Co_Loops)
        (map (\<lambda>i. poll_coroutine (pe_usb env) i (pe_turns env i)) [0..<poll_total])) program_idle
      (polling_main wrappers_throw env)"
    unfolding polling_main_def by (rule main_program_safe [OF _ _ assms(1)])
      (auto simp: list_all_iff list_ex_iff poll_coroutine_ok dest: poll_coroutine_ok(2))
  ultimately have "program_safe env loops program_idle r"
    using assms(2) echo_coroutine_ends(2) poll_coroutine_ok(3)
    by (fastforce simp: program_safe_def list_ex_iff split: prod.splits program_end.splits)
  then show ?thesis by (simp add: program_safe_def)
qed

definition ex_program_env :: program_env where
  "ex_program_env = \<lparr>pe_init = (0, 4), pe_block = 10, pe_open = (\<lambda>_ _ _. Some 5),
     pe_usb = (ex_libusb 0 0)\<lparr>lu_alloc := \<lambda>i. Some (10 + i)\<rparr>,
     pe_turns = (\<lambda>i. [(False, ec_none, ec_none), (True, ec_none, ec_none)]), pe_order = concat, pe_rethrows = True,
     pe_last_turn = 0\<rparr>"

lemma concat_interleavings: "concat css \<in> interleavings css"
proof (induction css)
  case (Cons cs css)
  have "cs @ concat css \<in> shuffles cs (concat css)"
    using append_in_shuffles [of cs "concat css"] by (simp add: shuffles_commutes)
  then show ?case using Cons by auto
qed simp

lemma ex_program_returns: "snd (snd (polling_main True ex_program_env)) = Main_Returned"
  by code_simp

lemma ex_program_order: "pe_order ex_program_env css \<in> interleavings css"
  by (simp add: ex_program_env_def concat_interleavings)

theorem programs_give_everything_back_witness:
  "run program_allows (fst (polling_main True ex_program_env)) program_idle = Some program_idle"
  using programs_give_everything_back [OF ex_program_order, of "polling_main True ex_program_env" _ True]
    ex_program_returns
  by (fastforce split: prod.splits)

end
