(* ===== verification/Acceptor.thy ===== *)
theory Acceptor
  imports Device
begin

text \<open>
  The acceptor of devices (\<open>hotplug/device_acceptor.hpp\<close>) as a machine.  Each event is one section
  under the acceptor's mutex, or one call of libusb; an accept is split where other threads can
  come between: \<open>await_ready\<close>, the test of the stop token in \<open>await_suspend\<close>, its section under
  the mutex, and the resumption.
\<close>

section \<open>State\<close>

datatype hotplug_event = Device_Arrived | Device_Left

text \<open>
  The frame of an \<open>accept\<close>: \<open>op_result\<close>, the \<open>resumption_t\<close> (only whether its \<open>aw_ctx\<close> and its
  continuation are set), whether stop was requested and where the coroutine is.  \<open>ao_posts\<close> counts
  how often its continuation was posted.
\<close>

datatype accept_stage = Starting | Checking | Locking | Suspended | Resumable | Finished

record accept_op =
  ao_dev :: device_ref
  ao_ec :: error_code
  ao_ctx :: bool
  ao_stop :: bool
  ao_stage :: accept_stage
  ao_posts :: nat

record dev_info =
  di_triplet :: device_triplet
  di_dev_ref :: device_ref

text \<open>
  \<open>ac_posted\<close>: the continuations the executor has not run yet, in order; \<open>ac_registered\<close>: the
  callbacks libusb knows.  The rest is for stating properties: the calls on reference counters,
  the references \<open>device_ref::operator=\<close> wrote over, the devices that arrived and those that were
  removed from the store again, the results of the accepts, and whether a coroutine that had ended
  was resumed.
\<close>

record acceptor =
  ac_resumptions :: "nat list"
  ac_arrived :: "dev_info list"
  ac_filter :: device_triplet
  ac_handle :: int
  ac_ops :: "nat \<Rightarrow> accept_op option"
  ac_posted :: "nat list"
  ac_registered :: "int list"
  ac_calls :: "ref_call list"
  ac_overwritten :: "nat list"
  ac_seen :: "nat list"
  ac_gone :: "nat list"
  ac_results :: "(nat \<times> error_code \<times> device_ref) list"
  ac_broken :: bool

definition acceptor_init :: acceptor where
  "acceptor_init = \<lparr>ac_resumptions = [], ac_arrived = [], ac_filter = any_triplet, ac_handle = 0,
     ac_ops = (\<lambda>_. None), ac_posted = [], ac_registered = [], ac_calls = [], ac_overwritten = [],
     ac_seen = [], ac_gone = [], ac_results = [], ac_broken = False\<rparr>"

definition canceled :: error_code where
  "canceled = std_make_error_code Operation_Canceled"

definition upd_op :: "nat \<Rightarrow> (accept_op \<Rightarrow> accept_op) \<Rightarrow> acceptor \<Rightarrow> acceptor" where
  "upd_op i f s = s\<lparr>ac_ops := (ac_ops s)(i := map_option f (ac_ops s i))\<rparr>"

text \<open>\<open>executor.post\<close>.\<close>

definition post :: "nat \<Rightarrow> acceptor \<Rightarrow> acceptor" where
  "post i s = (upd_op i (\<lambda>q. q\<lparr>ao_posts := ao_posts q + 1\<rparr>) s)\<lparr>ac_posted := ac_posted s @ [i]\<rparr>"

definition log_calls :: "ref_call list \<Rightarrow> acceptor \<Rightarrow> acceptor" where
  "log_calls cs s = s\<lparr>ac_calls := ac_calls s @ cs\<rparr>"

definition dev_list :: "dev_info list \<Rightarrow> nat list" where
  "dev_list xs = concat (map (\<lambda>d. dev_of (di_dev_ref d)) xs)"

section \<open>bind, listen, close\<close>

definition bind_ec :: "device_triplet \<Rightarrow> acceptor \<Rightarrow> error_code \<times> acceptor" where
  "bind_ec triplet s = (ec_none, s\<lparr>ac_filter := triplet\<rparr>)"

definition bind_acceptor :: "device_triplet \<Rightarrow> acceptor \<Rightarrow> error_code \<times> acceptor" where
  "bind_acceptor triplet s =
     (if ac_handle s \<noteq> 0 then (std_make_error_code Operation_In_Progress, s)
      else (ec_none, s\<lparr>ac_filter := triplet\<rparr>))"

text \<open>
  \<open>erase\<close> of a vector: the elements behind the erased one are assigned down and the last one is
  destroyed; the assignments are those of \<open>device_ref\<close>.
\<close>

definition vector_erase :: "dev_info list \<Rightarrow> dev_info list \<Rightarrow> dev_info list \<times> ref_call list \<times> nat list" where
  "vector_erase before rest =
     (before @ tl rest,
      concat (map (\<lambda>(a, b). snd (device_ref_assign (di_dev_ref a) (di_dev_ref b))) (zip rest (tl rest)))
        @ device_ref_dtor (di_dev_ref (last rest)),
      dev_list (butlast rest))"

text \<open>The callback given to libusb, for device \<open>d\<close>, with what \<open>libusb_get_device_descriptor\<close> gives.\<close>

definition on_left :: "device_triplet \<Rightarrow> acceptor \<Rightarrow> acceptor" where
  "on_left triplet s =
     (let differs = (\<lambda>info. \<not> wildcard_triplet_comparator (di_triplet info) triplet);
          rest = dropWhile differs (ac_arrived s)
      in if rest = [] then s
         else
           (case vector_erase (takeWhile differs (ac_arrived s)) rest of
              (xs, cs, over) \<Rightarrow>
                log_calls cs (s\<lparr>ac_arrived := xs, ac_overwritten := ac_overwritten s @ over,
                                ac_gone := ac_gone s @ dev_of (di_dev_ref (hd rest))\<rparr>)))"

definition on_arrived :: "nat \<Rightarrow> device_triplet \<Rightarrow> acceptor \<Rightarrow> acceptor" where
  "on_arrived d triplet s =
     (case ac_resumptions s of
        [] \<Rightarrow>
          log_calls [Ref_Device d, Ref_Device d, Unref_Device d]
            (s\<lparr>ac_arrived := ac_arrived s @ [\<lparr>di_triplet = triplet, di_dev_ref = \<lparr>m_dev = Some d\<rparr>\<rparr>]\<rparr>)
      | r # rs \<Rightarrow>
          let s = upd_op r (\<lambda>q. q\<lparr>ao_dev := fst (device_ref_assign (ao_dev q) \<lparr>m_dev = Some d\<rparr>)\<rparr>) s;
              s = log_calls [Ref_Device d, Ref_Device d, Unref_Device d] s;
              s = post r s
          in s\<lparr>ac_resumptions := rs\<rparr>)"

definition listen_callback :: "(nat \<Rightarrow> device_descriptor) \<Rightarrow> nat \<Rightarrow> hotplug_event \<Rightarrow> acceptor \<Rightarrow> acceptor" where
  "listen_callback descr d ev s =
     (let triplet = triplet_from_descriptor (descr d);
          s = log_calls [Ref_Device d] s;
          s = (case ev of
                 Device_Left \<Rightarrow> on_left triplet s
               | Device_Arrived \<Rightarrow> on_arrived d triplet (s\<lparr>ac_seen := ac_seen s @ [d]\<rparr>))
      in log_calls [Unref_Device d] s)"

text \<open>\<open>listen\<close>: \<open>reg\<close> is what \<open>libusb_hotplug_register_callback\<close> does: its result, the handle it
  stores, and the present devices for which it calls the callback.\<close>

definition listen ::
  "(nat \<Rightarrow> device_descriptor) \<Rightarrow> int \<times> int \<times> nat list \<Rightarrow> acceptor \<Rightarrow> error_code \<times> acceptor" where
  "listen descr reg s =
     (if ac_handle s \<noteq> 0 then (std_make_error_code Operation_In_Progress, s)
      else
        (case reg of
           (r, handle, present) \<Rightarrow>
             let s = fold (\<lambda>d. listen_callback descr d Device_Arrived) present s in
             if r \<noteq> LIBUSB_SUCCESS then (make_usb_error_code r, s)
             else (ec_none, s\<lparr>ac_handle := handle, ac_registered := ac_registered s @ [handle]\<rparr>)))"

definition deregister :: "int \<Rightarrow> acceptor \<Rightarrow> acceptor" where
  "deregister h s = s\<lparr>ac_registered := remove1 h (ac_registered s)\<rparr>"

definition close_acceptor :: "acceptor \<Rightarrow> error_code \<times> acceptor" where
  "close_acceptor s =
     (if ac_handle s = 0 then (std_make_error_code Invalid_Argument, s)
      else (ec_none, deregister (ac_handle s) s))"

section \<open>shutdown\<close>

definition cancel_resumption :: "nat \<Rightarrow> acceptor \<Rightarrow> acceptor" where
  "cancel_resumption i s = post i (upd_op i (\<lambda>q. q\<lparr>ao_ec := canceled\<rparr>) s)"

definition acceptor_shutdown :: "acceptor \<Rightarrow> acceptor" where
  "acceptor_shutdown s =
     (let handle = ac_handle s; s = s\<lparr>ac_handle := 0\<rparr> in
      if handle = 0 then s
      else
        let s = deregister handle s;
            s = fold cancel_resumption (ac_resumptions s) s;
            s = log_calls (concat (map (\<lambda>d. device_ref_dtor (di_dev_ref d)) (ac_arrived s))) s
        in s\<lparr>ac_resumptions := [], ac_arrived := [], ac_gone := ac_gone s @ dev_list (ac_arrived s)\<rparr>)"

section \<open>accept\<close>

definition fresh_accept :: "bool \<Rightarrow> accept_op" where
  "fresh_accept stop = \<lparr>ao_dev = device_ref_null, ao_ec = ec_none, ao_ctx = False, ao_stop = stop,
     ao_stage = Starting, ao_posts = 0\<rparr>"

text \<open>The stored device that arrived last goes to operation \<open>i\<close>.\<close>

definition take_back :: "nat \<Rightarrow> acceptor \<Rightarrow> acceptor" where
  "take_back i s =
     (let newest = di_dev_ref (last (ac_arrived s));
          s = upd_op i (\<lambda>q. q\<lparr>ao_dev := fst (device_ref_assign (ao_dev q) newest)\<rparr>) s
      in log_calls (snd (device_ref_assign device_ref_null newest) @ device_ref_dtor newest)
           (s\<lparr>ac_arrived := butlast (ac_arrived s)\<rparr>))"

definition accept_ready :: "nat \<Rightarrow> acceptor \<Rightarrow> bool \<times> acceptor" where
  "accept_ready i s = (if ac_arrived s \<noteq> [] then (True, take_back i s) else (False, s))"

definition set_stage :: "accept_stage \<Rightarrow> nat \<Rightarrow> acceptor \<Rightarrow> acceptor" where
  "set_stage st i s = upd_op i (\<lambda>q. q\<lparr>ao_stage := st\<rparr>) s"

text \<open>\<open>await_suspend\<close> up to the mutex; \<open>True\<close>: it returns the awaiting coroutine.\<close>

definition accept_check :: "bool \<Rightarrow> nat \<Rightarrow> acceptor \<Rightarrow> bool \<times> acceptor" where
  "accept_check stop_requested i s =
     (if stop_requested then (True, upd_op i (\<lambda>q. q\<lparr>ao_ec := canceled\<rparr>) s) else (False, s))"

definition accept_lock :: "nat \<Rightarrow> acceptor \<Rightarrow> bool \<times> acceptor" where
  "accept_lock i s =
     (if ac_arrived s \<noteq> [] then (True, take_back i s)
      else (False, (upd_op i (\<lambda>q. q\<lparr>ao_ctx := True\<rparr>) s)\<lparr>ac_resumptions := ac_resumptions s @ [i]\<rparr>))"

definition accept_resume :: "accept_op \<Rightarrow> (error_code \<times> device_ref) \<times> ref_call list" where
  "accept_resume q =
     (if ec_bool (ao_ec q) then ((ao_ec q, device_ref_null), [])
      else ((ec_none, fst (device_ref_copy (ao_dev q))), snd (device_ref_copy (ao_dev q))))"

definition stop_fn :: "nat \<Rightarrow> acceptor \<Rightarrow> acceptor" where
  "stop_fn i s =
     (case ac_ops s i of
        None \<Rightarrow> s
      | Some q \<Rightarrow>
          if ao_ctx q then
            let s = upd_op i (\<lambda>q. q\<lparr>ao_ec := canceled\<rparr>) s;
                s = post i s
            in s\<lparr>ac_resumptions := remove1 i (ac_resumptions s)\<rparr>
          else s)"

text \<open>The coroutine goes on: it returns its result, and its frame is destroyed.\<close>

definition finish_accept :: "nat \<Rightarrow> accept_op \<Rightarrow> acceptor \<Rightarrow> acceptor" where
  "finish_accept i q s =
     (case accept_resume q of
        ((ec, dev), cs) \<Rightarrow>
          log_calls (cs @ device_ref_dtor (ao_dev q))
            (s\<lparr>ac_ops := (ac_ops s)(i := Some (q\<lparr>ao_stage := Finished\<rparr>)),
               ac_results := ac_results s @ [(i, ec, dev)]\<rparr>))"

section \<open>The machine\<close>

datatype acceptor_event =
    Ac_Bind device_triplet | Ac_Bind_Ec device_triplet | Ac_Listen int int "nat list" | Ac_Close | Ac_Shutdown
  | Ac_Arrive nat | Ac_Leave nat
  | Ac_Accept nat bool | Ac_Ready nat | Ac_Check nat | Ac_Lock nat | Ac_Resume nat | Ac_Stop nat
  | Ac_Dispatch

text \<open>An event of operation \<open>i\<close> while its coroutine is at stage \<open>st\<close>.\<close>

definition at_stage :: "nat \<Rightarrow> accept_stage \<Rightarrow> (accept_op \<Rightarrow> acceptor) \<Rightarrow> acceptor \<Rightarrow> acceptor option" where
  "at_stage i st f s =
     (case ac_ops s i of None \<Rightarrow> None | Some q \<Rightarrow> if ao_stage q = st then Some (f q) else None)"

text \<open>
  libusb calls the callback only while it is registered, and registers it, or reports an error
  and calls nothing.  The stop callback runs at most once, and not after the frame is gone.
\<close>

fun acceptor_event_step :: "(nat \<Rightarrow> device_descriptor) \<Rightarrow> acceptor_event \<Rightarrow> acceptor \<Rightarrow> acceptor option" where
  "acceptor_event_step descr (Ac_Bind t) s = Some (snd (bind_acceptor t s))"
| "acceptor_event_step descr (Ac_Bind_Ec t) s = Some (snd (bind_ec t s))"
| "acceptor_event_step descr (Ac_Listen r handle present) s =
     (if r = LIBUSB_SUCCESS \<and> 0 < handle \<or> r \<noteq> LIBUSB_SUCCESS \<and> present = []
      then Some (snd (listen descr (r, handle, present) s)) else None)"
| "acceptor_event_step descr Ac_Close s = Some (snd (close_acceptor s))"
| "acceptor_event_step descr Ac_Shutdown s = Some (acceptor_shutdown s)"
| "acceptor_event_step descr (Ac_Arrive d) s =
     (if ac_registered s \<noteq> [] then Some (listen_callback descr d Device_Arrived s) else None)"
| "acceptor_event_step descr (Ac_Leave d) s =
     (if ac_registered s \<noteq> [] then Some (listen_callback descr d Device_Left s) else None)"
| "acceptor_event_step descr (Ac_Accept i stop) s =
     (if ac_ops s i = None then Some (s\<lparr>ac_ops := (ac_ops s)(i := Some (fresh_accept stop))\<rparr>) else None)"
| "acceptor_event_step descr (Ac_Ready i) s =
     at_stage i Starting (\<lambda>q. case accept_ready i s of
       (ready, s) \<Rightarrow> set_stage (if ready then Resumable else Checking) i s) s"
| "acceptor_event_step descr (Ac_Check i) s =
     at_stage i Checking (\<lambda>q. case accept_check (ao_stop q) i s of
       (goes_on, s) \<Rightarrow> set_stage (if goes_on then Resumable else Locking) i s) s"
| "acceptor_event_step descr (Ac_Lock i) s =
     at_stage i Locking (\<lambda>q. case accept_lock i s of
       (goes_on, s) \<Rightarrow> set_stage (if goes_on then Resumable else Suspended) i s) s"
| "acceptor_event_step descr (Ac_Resume i) s = at_stage i Resumable (\<lambda>q. finish_accept i q s) s"
| "acceptor_event_step descr (Ac_Stop i) s =
     (case ac_ops s i of
        None \<Rightarrow> None
      | Some q \<Rightarrow>
          if ao_stop q \<or> ao_stage q = Finished then None
          else Some (stop_fn i (upd_op i (\<lambda>q. q\<lparr>ao_stop := True\<rparr>) s)))"
| "acceptor_event_step descr Ac_Dispatch s =
     (case ac_posted s of
        [] \<Rightarrow> None
      | i # rest \<Rightarrow>
          let s = s\<lparr>ac_posted := rest\<rparr> in
          (case ac_ops s i of
             None \<Rightarrow> None
           | Some q \<Rightarrow>
               if ao_stage q = Suspended then Some (finish_accept i q s)
               else Some (s\<lparr>ac_broken := True\<rparr>)))"

definition acceptor_step :: "(nat \<Rightarrow> device_descriptor) \<Rightarrow> acceptor_event \<Rightarrow> acceptor \<Rightarrow> acceptor option" where
  "acceptor_step descr e s = (if ac_broken s then None else acceptor_event_step descr e s)"

lemma acceptor_stepD:
  assumes "acceptor_step descr e s = Some t"
  shows "\<not> ac_broken s" "acceptor_event_step descr e s = Some t"
  using assms by (simp_all add: acceptor_step_def split: if_splits)

section \<open>What the helpers change\<close>

lemma upd_op_simps [simp]:
  "ac_ops (upd_op i f s) = (ac_ops s)(i := map_option f (ac_ops s i))"
  "ac_resumptions (upd_op i f s) = ac_resumptions s" "ac_arrived (upd_op i f s) = ac_arrived s"
  "ac_posted (upd_op i f s) = ac_posted s" "ac_broken (upd_op i f s) = ac_broken s"
  "ac_handle (upd_op i f s) = ac_handle s" "ac_registered (upd_op i f s) = ac_registered s"
  "ac_calls (upd_op i f s) = ac_calls s" "ac_overwritten (upd_op i f s) = ac_overwritten s"
  "ac_seen (upd_op i f s) = ac_seen s" "ac_gone (upd_op i f s) = ac_gone s"
  "ac_results (upd_op i f s) = ac_results s" "ac_filter (upd_op i f s) = ac_filter s"
  by (simp_all add: upd_op_def)

lemma post_simps [simp]:
  "ac_ops (post i s) = (ac_ops s)(i := map_option (\<lambda>q. q\<lparr>ao_posts := ao_posts q + 1\<rparr>) (ac_ops s i))"
  "ac_resumptions (post i s) = ac_resumptions s" "ac_arrived (post i s) = ac_arrived s"
  "ac_posted (post i s) = ac_posted s @ [i]" "ac_broken (post i s) = ac_broken s"
  "ac_handle (post i s) = ac_handle s" "ac_registered (post i s) = ac_registered s"
  "ac_calls (post i s) = ac_calls s" "ac_overwritten (post i s) = ac_overwritten s"
  "ac_seen (post i s) = ac_seen s" "ac_gone (post i s) = ac_gone s"
  "ac_results (post i s) = ac_results s"
  by (simp_all add: post_def)

lemma log_calls_simps [simp]:
  "ac_ops (log_calls cs s) = ac_ops s" "ac_resumptions (log_calls cs s) = ac_resumptions s"
  "ac_arrived (log_calls cs s) = ac_arrived s" "ac_posted (log_calls cs s) = ac_posted s"
  "ac_broken (log_calls cs s) = ac_broken s" "ac_handle (log_calls cs s) = ac_handle s"
  "ac_registered (log_calls cs s) = ac_registered s" "ac_calls (log_calls cs s) = ac_calls s @ cs"
  "ac_overwritten (log_calls cs s) = ac_overwritten s" "ac_seen (log_calls cs s) = ac_seen s"
  "ac_gone (log_calls cs s) = ac_gone s" "ac_results (log_calls cs s) = ac_results s"
  by (simp_all add: log_calls_def)

lemma deregister_simps [simp]:
  "ac_ops (deregister h s) = ac_ops s" "ac_resumptions (deregister h s) = ac_resumptions s"
  "ac_arrived (deregister h s) = ac_arrived s" "ac_posted (deregister h s) = ac_posted s"
  "ac_broken (deregister h s) = ac_broken s" "ac_calls (deregister h s) = ac_calls s"
  "ac_overwritten (deregister h s) = ac_overwritten s" "ac_seen (deregister h s) = ac_seen s"
  "ac_gone (deregister h s) = ac_gone s" "ac_results (deregister h s) = ac_results s"
  "ac_handle (deregister h s) = ac_handle s"
  by (simp_all add: deregister_def)

section \<open>Invariant\<close>

text \<open>Operation \<open>i\<close> with frame \<open>q\<close>, the waiting operations \<open>R\<close> and the posted ones \<open>P\<close>.\<close>

definition op_ok :: "nat list \<Rightarrow> nat list \<Rightarrow> nat \<Rightarrow> accept_op \<Rightarrow> bool" where
  "op_ok R P i q \<longleftrightarrow>
     (case ao_stage q of
        Suspended \<Rightarrow> ao_ctx q \<and> (i \<in> set R \<longleftrightarrow> ao_posts q = 0) \<and> count_list P i = ao_posts q
          \<and> (ao_posts q = 0 \<longrightarrow> m_dev (ao_dev q) = None)
      | Finished \<Rightarrow> i \<notin> set R \<and> count_list P i = ao_posts q - 1
      | st \<Rightarrow> \<not> ao_ctx q \<and> ao_posts q = 0 \<and> count_list P i = 0 \<and> i \<notin> set R
          \<and> (st \<noteq> Resumable \<longrightarrow> m_dev (ao_dev q) = None))
     \<and> ao_posts q \<le> (if ao_stop q then 2 else 1)"

lemma op_ok_cong:
  assumes "i \<in> set R \<longleftrightarrow> i \<in> set R'" "count_list P i = count_list P' i"
  shows "op_ok R P i q \<longleftrightarrow> op_ok R' P' i q"
  using assms by (cases "ao_stage q") (simp_all add: op_ok_def)

definition waiting_ok :: "acceptor \<Rightarrow> bool" where
  "waiting_ok s \<longleftrightarrow> distinct (ac_resumptions s) \<and> (ac_resumptions s = [] \<or> ac_arrived s = [])
     \<and> (\<forall>i \<in> set (ac_resumptions s) \<union> set (ac_posted s). ac_ops s i \<noteq> None)
     \<and> (\<forall>i q. ac_ops s i = Some q \<longrightarrow> op_ok (ac_resumptions s) (ac_posted s) i q)"

text \<open>Once a coroutine was resumed that had ended, nothing is known but how that came about.\<close>

definition acceptor_ok :: "acceptor \<Rightarrow> bool" where
  "acceptor_ok s \<longleftrightarrow>
     (if ac_broken s then \<exists>i q. ac_ops s i = Some q \<and> ao_stop q \<and> ao_posts q = 2 else waiting_ok s)"

lemma waiting_okD:
  assumes "waiting_ok s" "ac_ops s i = Some q"
  shows "op_ok (ac_resumptions s) (ac_posted s) i q"
  using assms by (simp add: waiting_ok_def)

lemma waiting_resumption:
  assumes ok: "waiting_ok s" and i: "i \<in> set (ac_resumptions s)"
  obtains q where "ac_ops s i = Some q" "ao_stage q = Suspended" "ao_posts q = 0" "ao_ctx q"
    "m_dev (ao_dev q) = None" "i \<notin> set (ac_posted s)"
proof -
  have "ac_ops s i \<noteq> None" using ok i by (simp add: waiting_ok_def)
  then obtain q where q: "ac_ops s i = Some q" by blast
  show ?thesis using that [OF q] waiting_okD [OF ok q] i
    by (auto simp: op_ok_def count_list_0_iff split: accept_stage.splits)
qed

text \<open>A change of one frame, other frames being where they were.\<close>

lemma waiting_change:
  assumes ok: "waiting_ok s"
    and ops: "ac_ops t = (ac_ops s)(i := Some q)"
    and q: "op_ok (ac_resumptions t) (ac_posted t) i q"
    and other: "\<And>j. j \<noteq> i \<Longrightarrow> j \<in> set (ac_resumptions t) \<longleftrightarrow> j \<in> set (ac_resumptions s)"
      "\<And>j. j \<noteq> i \<Longrightarrow> count_list (ac_posted t) j = count_list (ac_posted s) j"
    and new: "distinct (ac_resumptions t)" "ac_resumptions t = [] \<or> ac_arrived t = []"
  shows "waiting_ok t"
proof -
  have posted: "j \<in> set (ac_posted t) \<longleftrightarrow> j \<in> set (ac_posted s)" if "j \<noteq> i" for j
    using other(2) [OF that] by (metis count_list_0_iff)
  have "ac_ops t j \<noteq> None" if "j \<in> set (ac_resumptions t) \<union> set (ac_posted t)" for j
    using that ok other(1) posted by (cases "j = i") (auto simp: ops waiting_ok_def)
  moreover have "op_ok (ac_resumptions t) (ac_posted t) j p" if "ac_ops t j = Some p" for j p
  proof (cases "j = i")
    case True
    then show ?thesis using that q by (simp add: ops)
  next
    case False
    then have "op_ok (ac_resumptions s) (ac_posted s) j p" using that ok by (simp add: ops waiting_ok_def)
    then show ?thesis using op_ok_cong other False by blast
  qed
  ultimately show ?thesis using new by (simp add: waiting_ok_def)
qed

lemma waiting_same:
  assumes "waiting_ok s" "ac_ops t = ac_ops s" "ac_resumptions t = ac_resumptions s"
    "ac_posted t = ac_posted s" "ac_resumptions t = [] \<or> ac_arrived t = []"
  shows "waiting_ok t"
  using assms by (simp add: waiting_ok_def)

text \<open>A waiting operation is woken: by an arrival, a stop, or the shutdown.\<close>

lemma waiting_wake:
  assumes ok: "waiting_ok s" and i: "i \<in> set (ac_resumptions s)"
    and t: "ac_ops t = (ac_ops s)(i := Some q)" "ac_posted t = ac_posted s @ [i]"
      "ac_resumptions t = remove1 i (ac_resumptions s)" "ac_arrived t = ac_arrived s"
    and q: "ao_stage q = Suspended" "ao_posts q = 1" "ao_ctx q"
  shows "waiting_ok t"
proof (rule waiting_change [OF ok t(1)])
  have d: "distinct (ac_resumptions s)" using ok by (simp add: waiting_ok_def)
  have "i \<notin> set (ac_posted s)" using ok i by (rule waiting_resumption)
  then show "op_ok (ac_resumptions t) (ac_posted t) i q"
    using q d by (simp add: op_ok_def t(2,3) count_list_0_iff)
  show "distinct (ac_resumptions t)" using d by (simp add: t(3))
  show "ac_resumptions t = [] \<or> ac_arrived t = []"
    using ok i by (auto simp: t(3,4) waiting_ok_def)
qed (auto simp: t(2,3) in_set_remove1)

end
