(* ===== verification/Acceptor_Props.thy ===== *)
theory Acceptor_Props
  imports Acceptor
begin

text \<open>
  Properties of the acceptor: nobody waits while a device is stored, every accept is resumed at
  most once unless stop comes after the delivery, every device and every reference to one is
  accounted for.
\<close>

section \<open>Waiting operations\<close>

lemma on_left_waiting:
  assumes ok: "waiting_ok s" shows "waiting_ok (on_left t s)"
proof (rule waiting_same [OF ok])
  show "ac_ops (on_left t s) = ac_ops s" "ac_resumptions (on_left t s) = ac_resumptions s"
    "ac_posted (on_left t s) = ac_posted s"
    by (simp_all add: on_left_def Let_def split: prod.splits)
  then show "ac_resumptions (on_left t s) = [] \<or> ac_arrived (on_left t s) = []"
    using ok by (auto simp: waiting_ok_def on_left_def Let_def)
qed

lemma on_arrived_waiting:
  assumes ok: "waiting_ok s" shows "waiting_ok (on_arrived d t s)"
proof (cases "ac_resumptions s")
  case Nil
  show ?thesis by (rule waiting_same [OF ok]) (simp_all add: on_arrived_def Nil)
next
  case (Cons r rs)
  then have r: "r \<in> set (ac_resumptions s)" by simp
  obtain q where q: "ac_ops s r = Some q" "ao_stage q = Suspended" "ao_posts q = 0" "ao_ctx q"
    by (rule waiting_resumption [OF ok r])
  show ?thesis
    by (rule waiting_wake [OF ok r, where q =
          "q\<lparr>ao_dev := fst (device_ref_assign (ao_dev q) \<lparr>m_dev = Some d\<rparr>), ao_posts := 1\<rparr>"])
      (simp_all add: on_arrived_def Cons q Let_def fun_eq_iff)
qed

lemma waiting_log:
  "waiting_ok s \<Longrightarrow> waiting_ok (log_calls cs s)"
  "waiting_ok s \<Longrightarrow> waiting_ok (s\<lparr>ac_seen := ds\<rparr>)"
  "waiting_ok s \<Longrightarrow> waiting_ok (deregister h s)"
  "waiting_ok s \<Longrightarrow> waiting_ok (s\<lparr>ac_handle := h\<rparr>)"
  "waiting_ok s \<Longrightarrow> waiting_ok (s\<lparr>ac_registered := hs\<rparr>)"
  "waiting_ok s \<Longrightarrow> waiting_ok (s\<lparr>ac_filter := f\<rparr>)"
  by (simp_all add: waiting_ok_def)

lemma listen_callback_waiting: "waiting_ok s \<Longrightarrow> waiting_ok (listen_callback descr d ev s)"
  by (cases ev) (simp_all add: listen_callback_def Let_def waiting_log on_left_waiting on_arrived_waiting)

lemma present_waiting: "waiting_ok s \<Longrightarrow> waiting_ok (fold (\<lambda>d. listen_callback descr d Device_Arrived) ds s)"
  by (induction ds arbitrary: s) (simp_all add: listen_callback_waiting)

lemma listen_waiting: "waiting_ok s \<Longrightarrow> waiting_ok (snd (listen descr reg s))"
  by (cases reg) (simp add: listen_def Let_def present_waiting waiting_log)

lemma cancel_resumptions:
  "cancel_resumption i (s\<lparr>ac_resumptions := xs\<rparr>) = (cancel_resumption i s)\<lparr>ac_resumptions := xs\<rparr>"
  by (simp add: cancel_resumption_def post_def upd_op_def)

lemma cancel_waiting:
  assumes ok: "waiting_ok s" and R: "ac_resumptions s = i # xs"
  shows "waiting_ok ((cancel_resumption i s)\<lparr>ac_resumptions := xs\<rparr>)"
proof -
  have i: "i \<in> set (ac_resumptions s)" by (simp add: R)
  obtain q where q: "ac_ops s i = Some q" "ao_stage q = Suspended" "ao_posts q = 0" "ao_ctx q"
    by (rule waiting_resumption [OF ok i])
  show ?thesis
    by (rule waiting_wake [OF ok i, where q = "q\<lparr>ao_ec := canceled, ao_posts := 1\<rparr>"])
      (simp_all add: cancel_resumption_def R q fun_eq_iff)
qed

lemma cancel_all_waiting:
  "waiting_ok (s\<lparr>ac_resumptions := xs\<rparr>) \<Longrightarrow> waiting_ok ((fold cancel_resumption xs s)\<lparr>ac_resumptions := []\<rparr>)"
proof (induction xs arbitrary: s)
  case Nil
  then show ?case by simp
next
  case (Cons i xs)
  have "waiting_ok ((cancel_resumption i s)\<lparr>ac_resumptions := xs\<rparr>)"
    using cancel_waiting [OF Cons.prems, of i xs] by (simp add: cancel_resumptions)
  then show ?case using Cons.IH by simp
qed

lemma shutdown_waiting:
  assumes ok: "waiting_ok s" shows "waiting_ok (acceptor_shutdown s)"
proof (cases "ac_handle s = 0")
  case True
  then show ?thesis using ok by (simp add: acceptor_shutdown_def waiting_log)
next
  case False
  let ?s = "deregister (ac_handle s) (s\<lparr>ac_handle := 0\<rparr>)"
  have "waiting_ok (?s\<lparr>ac_resumptions := ac_resumptions s\<rparr>)"
    using ok by (simp add: waiting_ok_def)
  from waiting_same [OF cancel_all_waiting [OF this]] False show ?thesis
    by (simp add: acceptor_shutdown_def Let_def)
qed

section \<open>The steps of an accept\<close>

lemma take_back_fields [simp]:
  "ac_resumptions (take_back i s) = ac_resumptions s" "ac_posted (take_back i s) = ac_posted s"
  "ac_broken (take_back i s) = ac_broken s"
  by (simp_all add: take_back_def Let_def)

lemma ready_waiting:
  assumes ok: "waiting_ok s" and q: "ac_ops s i = Some q" "ao_stage q = Starting"
  shows "waiting_ok (case accept_ready i s of (ready, s) \<Rightarrow> set_stage (if ready then Resumable else Checking) i s)"
    (is "waiting_ok ?t")
proof (cases "ac_arrived s = []")
  case True
  then have t: "?t = upd_op i (\<lambda>q. q\<lparr>ao_stage := Checking\<rparr>) s" by (simp add: accept_ready_def set_stage_def)
  show ?thesis using waiting_okD [OF ok q(1)] q ok
    by (intro waiting_change [OF ok, where i = i and q = "q\<lparr>ao_stage := Checking\<rparr>"])
      (simp_all add: t op_ok_def waiting_ok_def)
next
  case False
  then have t: "?t = upd_op i (\<lambda>q. q\<lparr>ao_stage := Resumable\<rparr>) (take_back i s)"
    by (simp add: accept_ready_def set_stage_def)
  show ?thesis using waiting_okD [OF ok q(1)] q ok False
    by (intro waiting_change [OF ok, where i = i and
          q = "q\<lparr>ao_dev := fst (device_ref_assign (ao_dev q) (di_dev_ref (last (ac_arrived s)))), ao_stage := Resumable\<rparr>"])
      (simp_all add: t op_ok_def waiting_ok_def take_back_def Let_def)
qed

lemma check_waiting:
  assumes ok: "waiting_ok s" and q: "ac_ops s i = Some q" "ao_stage q = Checking"
  shows "waiting_ok (case accept_check b i s of (goes_on, s) \<Rightarrow> set_stage (if goes_on then Resumable else Locking) i s)"
    (is "waiting_ok ?t")
proof -
  let ?q = "(if b then q\<lparr>ao_ec := canceled, ao_stage := Resumable\<rparr> else q\<lparr>ao_stage := Locking\<rparr>)"
  have "ac_ops ?t = (ac_ops s)(i := Some ?q)" "ac_resumptions ?t = ac_resumptions s"
    "ac_posted ?t = ac_posted s" "ac_arrived ?t = ac_arrived s"
    by (simp_all add: accept_check_def set_stage_def q)
  then show ?thesis using waiting_okD [OF ok q(1)] q ok
    by (intro waiting_change [OF ok, where i = i and q = ?q]) (simp_all add: op_ok_def waiting_ok_def)
qed

lemma lock_waiting:
  assumes ok: "waiting_ok s" and q: "ac_ops s i = Some q" "ao_stage q = Locking"
  shows "waiting_ok (case accept_lock i s of (goes_on, s) \<Rightarrow> set_stage (if goes_on then Resumable else Suspended) i s)"
    (is "waiting_ok ?t")
proof (cases "ac_arrived s = []")
  case True
  then have t: "?t = upd_op i (\<lambda>q. q\<lparr>ao_stage := Suspended\<rparr>)
      ((upd_op i (\<lambda>q. q\<lparr>ao_ctx := True\<rparr>) s)\<lparr>ac_resumptions := ac_resumptions s @ [i]\<rparr>)"
    by (simp add: accept_lock_def set_stage_def)
  show ?thesis using waiting_okD [OF ok q(1)] q ok True
    by (intro waiting_change [OF ok, where i = i and q = "q\<lparr>ao_ctx := True, ao_stage := Suspended\<rparr>"])
      (simp_all add: t op_ok_def waiting_ok_def)
next
  case False
  then have t: "?t = upd_op i (\<lambda>q. q\<lparr>ao_stage := Resumable\<rparr>) (take_back i s)"
    by (simp add: accept_lock_def set_stage_def)
  show ?thesis using waiting_okD [OF ok q(1)] q ok False
    by (intro waiting_change [OF ok, where i = i and
          q = "q\<lparr>ao_dev := fst (device_ref_assign (ao_dev q) (di_dev_ref (last (ac_arrived s)))), ao_stage := Resumable\<rparr>"])
      (simp_all add: t op_ok_def waiting_ok_def take_back_def Let_def)
qed

lemma finish_fields [simp]:
  "ac_ops (finish_accept i q s) = (ac_ops s)(i := Some (q\<lparr>ao_stage := Finished\<rparr>))"
  "ac_resumptions (finish_accept i q s) = ac_resumptions s" "ac_posted (finish_accept i q s) = ac_posted s"
  "ac_arrived (finish_accept i q s) = ac_arrived s" "ac_broken (finish_accept i q s) = ac_broken s"
  by (simp_all add: finish_accept_def split: prod.splits)

lemma resume_waiting:
  assumes ok: "waiting_ok s" and q: "ac_ops s i = Some q" "ao_stage q = Resumable"
  shows "waiting_ok (finish_accept i q s)"
  using waiting_okD [OF ok q(1)] q ok
  by (intro waiting_change [OF ok, where i = i and q = "q\<lparr>ao_stage := Finished\<rparr>"])
    (simp_all add: op_ok_def waiting_ok_def)

lemma stop_waiting:
  assumes ok: "waiting_ok s" and q: "ac_ops s i = Some q" "ao_stage q \<noteq> Finished" "\<not> ao_stop q"
  shows "waiting_ok (stop_fn i (upd_op i (\<lambda>q. q\<lparr>ao_stop := True\<rparr>) s))" (is "waiting_ok ?t")
proof (cases "ao_ctx q")
  case False
  then have t: "?t = upd_op i (\<lambda>q. q\<lparr>ao_stop := True\<rparr>) s" using q by (simp add: stop_fn_def)
  show ?thesis using waiting_okD [OF ok q(1)] q ok
    by (intro waiting_change [OF ok, where i = i and q = "q\<lparr>ao_stop := True\<rparr>"])
      (cases "ao_stage q"; simp add: t op_ok_def waiting_ok_def)+
next
  case True
  have susp: "ao_stage q = Suspended"
    using waiting_okD [OF ok q(1)] q(2) True by (auto simp: op_ok_def split: accept_stage.splits)
  let ?q = "q\<lparr>ao_stop := True, ao_ec := canceled, ao_posts := ao_posts q + 1\<rparr>"
  have t: "ac_ops ?t = (ac_ops s)(i := Some ?q)" "ac_posted ?t = ac_posted s @ [i]"
    "ac_resumptions ?t = remove1 i (ac_resumptions s)" "ac_arrived ?t = ac_arrived s"
    using q(1) True by (simp_all add: stop_fn_def Let_def)
  show ?thesis
  proof (rule waiting_change [OF ok t(1)])
    have d: "distinct (ac_resumptions s)" using ok by (simp add: waiting_ok_def)
    then show "distinct (ac_resumptions ?t)" by (simp add: t)
    show "op_ok (ac_resumptions ?t) (ac_posted ?t) i ?q"
      using waiting_okD [OF ok q(1)] susp q(3) d by (simp add: t op_ok_def)
    show "ac_resumptions ?t = [] \<or> ac_arrived ?t = []" using ok by (auto simp: t(3,4) waiting_ok_def)
  qed (auto simp: t(2,3) in_set_remove1)
qed

lemma dispatch_waiting:
  assumes ok: "waiting_ok s" and P: "ac_posted s = i # P" and q: "ac_ops s i = Some q" "ao_stage q = Suspended"
  shows "waiting_ok (finish_accept i q (s\<lparr>ac_posted := P\<rparr>))" (is "waiting_ok ?t")
proof (rule waiting_change [OF ok])
  show "ac_ops ?t = (ac_ops s)(i := Some (q\<lparr>ao_stage := Finished\<rparr>))" by simp
  show "op_ok (ac_resumptions ?t) (ac_posted ?t) i (q\<lparr>ao_stage := Finished\<rparr>)"
    using waiting_okD [OF ok q(1)] q P by (auto simp: op_ok_def)
qed (use ok P in \<open>auto simp: waiting_ok_def\<close>)

lemma accept_waiting:
  assumes ok: "waiting_ok s" and i: "ac_ops s i = None"
  shows "waiting_ok (s\<lparr>ac_ops := (ac_ops s)(i := Some (fresh_accept b))\<rparr>)"
proof (rule waiting_change [OF ok, where i = i and q = "fresh_accept b"])
  have "i \<notin> set (ac_resumptions s) \<union> set (ac_posted s)"
    using ok i unfolding waiting_ok_def by metis
  then show "op_ok (ac_resumptions (s\<lparr>ac_ops := (ac_ops s)(i := Some (fresh_accept b))\<rparr>))
      (ac_posted (s\<lparr>ac_ops := (ac_ops s)(i := Some (fresh_accept b))\<rparr>)) i (fresh_accept b)"
    by (simp add: op_ok_def fresh_accept_def device_ref_null_def count_list_0_iff)
qed (use ok in \<open>auto simp: waiting_ok_def\<close>)

lemma at_stageD:
  assumes "at_stage i st f s = Some t"
  obtains q where "ac_ops s i = Some q" "ao_stage q = st" "t = f q"
  using assms by (auto simp: at_stage_def split: option.splits if_splits)

text \<open>A posted operation that is not suspended has ended, and was posted twice.\<close>

lemma posted_twice:
  assumes ok: "waiting_ok s" and P: "i \<in> set (ac_posted s)" and q: "ac_ops s i = Some q" "ao_stage q \<noteq> Suspended"
  shows "ao_stop q \<and> ao_posts q = 2"
proof -
  have "count_list (ac_posted s) i \<noteq> 0" using P by (simp add: count_list_0_iff)
  then show ?thesis using waiting_okD [OF ok q(1)] q(2)
    by (auto simp: op_ok_def split: accept_stage.splits if_splits)
qed

lemma stop_fn_broken [simp]: "ac_broken (stop_fn i s) = ac_broken s"
  by (auto simp: stop_fn_def Let_def split: option.splits)

lemma callback_broken: "ac_broken (listen_callback descr d ev s) = ac_broken s"
  by (cases ev) (auto simp: listen_callback_def on_left_def on_arrived_def Let_def split: prod.splits list.splits)

lemma present_broken:
  "ac_broken (fold (\<lambda>d. listen_callback descr d Device_Arrived) ds s) = ac_broken s"
  by (induction ds arbitrary: s) (simp_all add: callback_broken)

lemma fold_cancel_broken: "ac_broken (fold cancel_resumption xs s) = ac_broken s"
  by (induction xs arbitrary: s) (simp_all add: cancel_resumption_def)

lemma acceptor_event_ok:
  assumes ok: "waiting_ok s" and nb: "\<not> ac_broken s" and st: "acceptor_event_step descr e s = Some t"
    and nd: "e \<noteq> Ac_Dispatch"
  shows "waiting_ok t"
proof (cases e)
  case (Ac_Bind tr)
  then show ?thesis using st ok by (auto simp: bind_acceptor_def waiting_log)
next
  case (Ac_Bind_Ec tr)
  then show ?thesis using st ok by (auto simp: bind_ec_def waiting_log)
next
  case (Ac_Listen r h ds)
  then show ?thesis using st listen_waiting [OF ok] by (auto split: if_splits)
next
  case Ac_Close
  then show ?thesis using st ok by (auto simp: close_acceptor_def waiting_log split: if_splits)
next
  case Ac_Shutdown
  then show ?thesis using st shutdown_waiting [OF ok] by auto
next
  case (Ac_Arrive d)
  then show ?thesis using st listen_callback_waiting [OF ok] by (auto split: if_splits)
next
  case (Ac_Leave d)
  then show ?thesis using st listen_callback_waiting [OF ok] by (auto split: if_splits)
next
  case (Ac_Accept i b)
  then show ?thesis using st accept_waiting [OF ok] by (auto split: if_splits)
next
  case (Ac_Ready i)
  then have "at_stage i Starting (\<lambda>q. case accept_ready i s of
       (ready, s) \<Rightarrow> set_stage (if ready then Resumable else Checking) i s) s = Some t" using st by simp
  then show ?thesis by (rule at_stageD) (use ready_waiting [OF ok] in blast)
next
  case (Ac_Check i)
  then have "at_stage i Checking (\<lambda>q. case accept_check (ao_stop q) i s of
       (goes_on, s) \<Rightarrow> set_stage (if goes_on then Resumable else Locking) i s) s = Some t" using st by simp
  then show ?thesis by (rule at_stageD) (use check_waiting [OF ok] in blast)
next
  case (Ac_Lock i)
  then have "at_stage i Locking (\<lambda>q. case accept_lock i s of
       (goes_on, s) \<Rightarrow> set_stage (if goes_on then Resumable else Suspended) i s) s = Some t" using st by simp
  then show ?thesis by (rule at_stageD) (use lock_waiting [OF ok] in blast)
next
  case (Ac_Resume i)
  then have "at_stage i Resumable (\<lambda>q. finish_accept i q s) s = Some t" using st by simp
  then show ?thesis by (rule at_stageD) (use resume_waiting [OF ok] in blast)
next
  case (Ac_Stop i)
  then show ?thesis using st stop_waiting [OF ok] by (auto split: option.splits if_splits)
qed (use nd in simp)

lemma acceptor_step_ok:
  assumes ok: "acceptor_ok s" and st: "acceptor_step descr e s = Some t"
  shows "acceptor_ok t"
proof -
  have nb: "\<not> ac_broken s" and ev: "acceptor_event_step descr e s = Some t"
    using acceptor_stepD [OF st] by simp_all
  then have w: "waiting_ok s" using ok by (simp add: acceptor_ok_def)
  show ?thesis
  proof (cases "e = Ac_Dispatch")
    case True
    then obtain i P q where P: "ac_posted s = i # P" and q: "ac_ops s i = Some q"
      and t: "t = (if ao_stage q = Suspended then finish_accept i q (s\<lparr>ac_posted := P\<rparr>)
                   else (s\<lparr>ac_posted := P\<rparr>)\<lparr>ac_broken := True\<rparr>)"
      using ev by (auto simp: Let_def split: list.splits option.splits if_splits)
    show ?thesis
    proof (cases "ao_stage q = Suspended")
      case True
      then show ?thesis using dispatch_waiting [OF w P q True] nb by (simp add: t acceptor_ok_def)
    next
      case False
      have "i \<in> set (ac_posted s)" by (simp add: P)
      from posted_twice [OF w this q False] show ?thesis using False q
        by (auto simp: t acceptor_ok_def)
    qed
  next
    case False
    have "waiting_ok t" using acceptor_event_ok [OF w nb ev False] .
    moreover have "\<not> ac_broken t" using ev nb False
      by (cases e) (auto simp: bind_acceptor_def bind_ec_def listen_def close_acceptor_def acceptor_shutdown_def
          Let_def at_stage_def accept_ready_def accept_check_def accept_lock_def set_stage_def
          fold_cancel_broken callback_broken present_broken split: option.splits if_splits prod.splits)
    ultimately show ?thesis by (simp add: acceptor_ok_def)
  qed
qed

interpretation acceptor_machine: machine "acceptor_step descr" acceptor_ok
  by unfold_locales (rule acceptor_step_ok)

lemma acceptor_init_ok: "acceptor_ok acceptor_init"
  by (simp add: acceptor_ok_def waiting_ok_def acceptor_init_def)

lemmas acceptor_run_ok = acceptor_machine.run_inv [OF _ acceptor_init_ok]

text \<open>C15: while no coroutine was resumed after its end, and with \<open>shutdown\<close> as one step, no accept waits while a device is stored,
  and every suspended accept is either waiting for a device or posted to its executor: no arrival
  is lost between the test for a stored device and the suspension.\<close>

theorem no_accept_waits_beside_a_device:
  assumes "run (acceptor_step descr) es acceptor_init = Some s" "\<not> ac_broken s"
  shows "(ac_resumptions s = [] \<or> ac_arrived s = [])
    \<and> (\<forall>i q. ac_ops s i = Some q \<longrightarrow> ao_stage q = Suspended \<longrightarrow>
          i \<in> set (ac_resumptions s) \<union> set (ac_posted s))"
proof -
  have ok: "waiting_ok s" using acceptor_run_ok [OF assms(1)] assms(2) by (simp add: acceptor_ok_def)
  have "i \<in> set (ac_resumptions s) \<union> set (ac_posted s)" if "ac_ops s i = Some q" "ao_stage q = Suspended" for i q
    using waiting_okD [OF ok that(1)] that(2) count_list_0_iff [of "ac_posted s" i]
    by (auto simp: op_ok_def)
  then show ?thesis using ok by (auto simp: waiting_ok_def)
qed

definition ex_descr :: "nat \<Rightarrow> device_descriptor" where
  "ex_descr d = \<lparr>idVendor = 0x1234, idProduct = of_nat d, bDeviceClass = 8\<rparr>"

text \<open>Two accepts, the first finds a device that was there, the second waits for one.\<close>

definition ex_accepts :: "acceptor_event list" where
  "ex_accepts = [Ac_Listen 0 1 [7], Ac_Accept 0 False, Ac_Ready 0, Ac_Resume 0,
     Ac_Accept 1 False, Ac_Ready 1, Ac_Check 1, Ac_Lock 1]"

lemma ex_accepts_run:
  "\<exists>s. run (acceptor_step ex_descr) ex_accepts acceptor_init = Some s
     \<and> (\<not> ac_broken s \<and> ac_resumptions s = [1] \<and> ac_handle s = 1)"
  unfolding ex_accepts_def acceptor_init_def by (rule run_satD) code_simp

theorem no_accept_waits_beside_a_device_witness:
  "\<exists>s. run (acceptor_step ex_descr) ex_accepts acceptor_init = Some s \<and> ac_resumptions s = [1] \<and> ac_arrived s = []"
  using ex_accepts_run no_accept_waits_beside_a_device by fastforce

text \<open>the continuation of an accept is posted at most once, or at most twice if stop was
  requested; a coroutine is resumed after its end only if its stop came after the delivery.\<close>

theorem accept_posted_at_most_once:
  assumes "run (acceptor_step descr) es acceptor_init = Some s"
  shows "(\<not> ac_broken s \<longrightarrow> (\<forall>i q. ac_ops s i = Some q \<longrightarrow> ao_posts q \<le> (if ao_stop q then 2 else 1)))
    \<and> (ac_broken s \<longrightarrow> (\<exists>i q. ac_ops s i = Some q \<and> ao_stop q \<and> ao_posts q = 2))"
proof (cases "ac_broken s")
  case True
  then show ?thesis using acceptor_run_ok [OF assms] by (simp add: acceptor_ok_def)
next
  case False
  then have ok: "waiting_ok s" using acceptor_run_ok [OF assms] by (simp add: acceptor_ok_def)
  have "ao_posts q \<le> (if ao_stop q then 2 else 1)" if "ac_ops s i = Some q" for i q
    using waiting_okD [OF ok that] by (simp add: op_ok_def)
  then show ?thesis using False by blast
qed

definition ex_delivered :: "acceptor_event list" where
  "ex_delivered = ex_accepts @ [Ac_Arrive 9]"

lemma ex_delivered_run:
  "\<exists>s. run (acceptor_step ex_descr) ex_delivered acceptor_init = Some s
     \<and> (\<not> ac_broken s \<and> ac_posted s = [1] \<and> map_option ao_posts (ac_ops s 1) = Some 1
        \<and> map_option ao_stop (ac_ops s 1) = Some False \<and> map_option ao_stage (ac_ops s 1) = Some Suspended)"
  unfolding ex_delivered_def ex_accepts_def acceptor_init_def by (rule run_satD) code_simp

theorem accept_posted_at_most_once_witness:
  "\<exists>s. run (acceptor_step ex_descr) ex_delivered acceptor_init = Some s
     \<and> (\<forall>i q. ac_ops s i = Some q \<longrightarrow> ao_posts q \<le> 2)"
proof -
  obtain s where s: "run (acceptor_step ex_descr) ex_delivered acceptor_init = Some s" "\<not> ac_broken s"
    using ex_delivered_run by blast
  have "ao_posts q \<le> 2" if "ac_ops s i = Some q" for i q
  proof -
    have "ao_posts q \<le> (if ao_stop q then 2 else 1)"
      using accept_posted_at_most_once [OF s(1)] s(2) that by blast
    then show ?thesis by (simp split: if_splits)
  qed
  then show ?thesis using s(1) by blast
qed

text \<open>if stop is requested after a device was delivered to an accept and before its coroutine
  goes on, the continuation is posted a second time: the accept reports cancellation, the device
  is lost to the caller, and then a coroutine is resumed that has ended.\<close>

theorem late_stop_resumes_dead_coroutine:
  assumes "run (acceptor_step descr) es acceptor_init = Some s" "\<not> ac_broken s"
    and "ac_posted s = [i]" "ac_ops s i = Some q" "ao_stage q = Suspended" "\<not> ao_stop q"
  shows "\<exists>t. run (acceptor_step descr) [Ac_Stop i, Ac_Dispatch, Ac_Dispatch] s = Some t
    \<and> ac_broken t \<and> ac_results t = ac_results s @ [(i, canceled, device_ref_null)]"
proof -
  have ok: "waiting_ok s" using acceptor_run_ok [OF assms(1)] assms(2) by (simp add: acceptor_ok_def)
  have ctx: "ao_ctx q" using waiting_okD [OF ok assms(4)] assms(5) by (simp add: op_ok_def)
  have "ec_bool canceled" by (simp add: canceled_def)
  then show ?thesis using assms(2-6) ctx
    by (simp add: acceptor_step_def stop_fn_def Let_def finish_accept_def accept_resume_def log_calls_def
        post_def upd_op_def)
qed

theorem late_stop_resumes_dead_coroutine_witness:
  "\<exists>s t. run (acceptor_step ex_descr) ex_delivered acceptor_init = Some s
     \<and> run (acceptor_step ex_descr) [Ac_Stop 1, Ac_Dispatch, Ac_Dispatch] s = Some t \<and> ac_broken t"
proof -
  obtain s q where s: "run (acceptor_step ex_descr) ex_delivered acceptor_init = Some s" "\<not> ac_broken s"
      "ac_posted s = [1]" "ac_ops s 1 = Some q" "ao_stage q = Suspended" "\<not> ao_stop q"
    using ex_delivered_run by auto
  from late_stop_resumes_dead_coroutine [OF s] show ?thesis using s(1) by blast
qed

section \<open>Shutdown and close\<close>

lemma fold_cancel:
  assumes "distinct xs" "\<And>i. i \<in> set xs \<Longrightarrow> ac_ops s i \<noteq> None"
  shows "ac_posted (fold cancel_resumption xs s) = ac_posted s @ xs
    \<and> (\<forall>i. ac_ops (fold cancel_resumption xs s) i =
         (if i \<in> set xs then map_option (\<lambda>q. q\<lparr>ao_ec := canceled, ao_posts := ao_posts q + 1\<rparr>) (ac_ops s i)
          else ac_ops s i))"
  using assms
proof (induction xs arbitrary: s)
  case Nil
  then show ?case by simp
next
  case (Cons x xs)
  have "ac_ops (cancel_resumption x s) =
      (ac_ops s)(x := map_option (\<lambda>q. q\<lparr>ao_ec := canceled, ao_posts := ao_posts q + 1\<rparr>) (ac_ops s x))"
    by (cases "ac_ops s x") (simp_all add: cancel_resumption_def)
  then show ?case using Cons by (simp add: cancel_resumption_def)
qed

text \<open>the shutdown of an acceptor that listens posts every waiting accept once, in the order in
  which they wait, with \<open>operation_canceled\<close>, and nobody waits after it; an acceptor that does not
  listen leaves its accepts waiting.\<close>

theorem shutdown_cancels_all_waiting:
  assumes "run (acceptor_step descr) es acceptor_init = Some s" "\<not> ac_broken s"
  shows "if ac_handle s = 0 then acceptor_shutdown s = s
    else ac_posted (acceptor_shutdown s) = ac_posted s @ ac_resumptions s
      \<and> ac_resumptions (acceptor_shutdown s) = [] \<and> ac_arrived (acceptor_shutdown s) = []
      \<and> (\<forall>i. \<exists>q. i \<in> set (ac_resumptions s) \<longrightarrow> ac_ops (acceptor_shutdown s) i = Some q
            \<and> ao_ec q = canceled \<and> ao_posts q = 1 \<and> fst (fst (accept_resume q)) = canceled)"
proof -
  have ok: "waiting_ok s" using acceptor_run_ok [OF assms(1)] assms(2) by (simp add: acceptor_ok_def)
  let ?s = "deregister (ac_handle s) (s\<lparr>ac_handle := 0\<rparr>)"
  have d: "distinct (ac_resumptions s)" using ok by (simp add: waiting_ok_def)
  have "ac_ops ?s i \<noteq> None" if "i \<in> set (ac_resumptions s)" for i
    using waiting_resumption [OF ok that] by auto
  note c = fold_cancel [OF d this]
  have "\<exists>q. i \<in> set (ac_resumptions s) \<longrightarrow> ac_ops (acceptor_shutdown s) i = Some q
      \<and> ao_ec q = canceled \<and> ao_posts q = 1 \<and> fst (fst (accept_resume q)) = canceled"
    if "ac_handle s \<noteq> 0" for i
  proof (cases "i \<in> set (ac_resumptions s)")
    case True
    obtain q where q: "ac_ops s i = Some q" "ao_posts q = 0" by (rule waiting_resumption [OF ok True])
    have "ac_ops (acceptor_shutdown s) i = Some (q\<lparr>ao_ec := canceled, ao_posts := 1\<rparr>)"
      using c True that q by (simp add: acceptor_shutdown_def Let_def)
    then show ?thesis by (auto simp: accept_resume_def canceled_def)
  qed blast
  moreover have "acceptor_shutdown s = s" if "ac_handle s = 0" using that by (simp add: acceptor_shutdown_def)
  ultimately show ?thesis using c by (simp add: acceptor_shutdown_def Let_def)
qed

theorem shutdown_cancels_all_waiting_witness:
  "\<exists>s. run (acceptor_step ex_descr) ex_accepts acceptor_init = Some s
     \<and> ac_posted (acceptor_shutdown s) = ac_posted s @ [1]"
proof -
  obtain s where s: "run (acceptor_step ex_descr) ex_accepts acceptor_init = Some s" "\<not> ac_broken s"
      "ac_resumptions s = [1]" "ac_handle s = 1"
    using ex_accepts_run by blast
  then show ?thesis using shutdown_cancels_all_waiting [OF s(1,2)] by auto
qed

text \<open>What libusb has registered is the handle that is stored, or nothing.\<close>

definition registered_ok :: "acceptor \<Rightarrow> bool" where
  "registered_ok s \<longleftrightarrow> ac_registered s = [] \<or> ac_handle s \<noteq> 0 \<and> ac_registered s = [ac_handle s]"

definition same_handle :: "acceptor \<Rightarrow> acceptor \<Rightarrow> bool" where
  "same_handle s t \<longleftrightarrow> ac_handle t = ac_handle s \<and> ac_registered t = ac_registered s"

lemma callback_handle: "same_handle s (listen_callback descr d ev s)"
  by (cases ev) (auto simp: same_handle_def listen_callback_def on_left_def on_arrived_def Let_def
      split: prod.splits list.splits)

lemma present_handle: "same_handle s (fold (\<lambda>d. listen_callback descr d Device_Arrived) ds s)"
  using callback_handle by (induction ds arbitrary: s) (auto simp: same_handle_def)

lemma cancel_handle: "same_handle s (fold cancel_resumption xs s)"
  by (induction xs arbitrary: s) (auto simp: same_handle_def cancel_resumption_def)

lemma stop_handle: "same_handle s (stop_fn i (upd_op i f s))"
  by (auto simp: same_handle_def stop_fn_def Let_def split: option.splits)

lemma accept_handle:
  "same_handle s (take_back i s)" "same_handle s (set_stage st i s)" "same_handle s (finish_accept i q s)"
  by (auto simp: same_handle_def take_back_def set_stage_def finish_accept_def Let_def split: prod.splits)

text \<open>Events that leave handle and registration alone.\<close>

lemma other_events_handle:
  assumes "acceptor_step descr e s = Some t" "\<And>r h ds. e \<noteq> Ac_Listen r h ds" "e \<noteq> Ac_Close" "e \<noteq> Ac_Shutdown"
  shows "same_handle s t"
proof -
  have "acceptor_event_step descr e s = Some t" using assms(1) by (rule acceptor_stepD)
  then show ?thesis using assms(2-) callback_handle accept_handle stop_handle
    by (cases e) (auto simp: bind_acceptor_def bind_ec_def at_stage_def accept_ready_def accept_check_def
        accept_lock_def same_handle_def set_stage_def Let_def split: option.splits if_splits list.splits)
qed

lemma listen_handle:
  assumes "acceptor_step descr (Ac_Listen r h ds) s = Some t"
  shows "same_handle s t \<or> ac_handle s = 0 \<and> h \<noteq> 0 \<and> ac_handle t = h \<and> ac_registered t = ac_registered s @ [h]"
  using assms present_handle [of s descr ds]
  by (auto simp: acceptor_step_def listen_def Let_def same_handle_def split: if_splits)

lemma shutdown_handle:
  assumes "registered_ok s" shows "ac_registered (acceptor_shutdown s) = []"
  using assms cancel_handle [of "deregister (ac_handle s) (s\<lparr>ac_handle := 0\<rparr>)" "ac_resumptions s"]
  by (auto simp: acceptor_shutdown_def registered_ok_def same_handle_def Let_def deregister_def)

lemma close_handle:
  assumes "registered_ok s" "ac_handle s \<noteq> 0"
  shows "ac_registered (snd (close_acceptor s)) = [] \<and> ac_handle (snd (close_acceptor s)) = ac_handle s"
  using assms by (auto simp: close_acceptor_def registered_ok_def deregister_def)

lemma registered_step:
  assumes ok: "registered_ok s" and st: "acceptor_step descr e s = Some t"
  shows "registered_ok t"
proof (cases "\<exists>r h ds. e = Ac_Listen r h ds")
  case True
  then obtain r h ds where e: "e = Ac_Listen r h ds" by blast
  show ?thesis using listen_handle [OF st [unfolded e]] ok by (auto simp: registered_ok_def same_handle_def)
next
  case False
  show ?thesis
  proof (cases "e = Ac_Shutdown \<or> e = Ac_Close")
    case True
    then have "t = acceptor_shutdown s \<or> t = snd (close_acceptor s)"
      using acceptor_stepD(2) [OF st] by auto
    moreover have "registered_ok (snd (close_acceptor s))"
      using close_handle [OF ok] ok by (cases "ac_handle s = 0") (simp_all add: registered_ok_def close_acceptor_def)
    ultimately show ?thesis using shutdown_handle [OF ok] by (auto simp: registered_ok_def)
  next
    case noend: False
    show ?thesis using other_events_handle [OF st] False noend ok by (auto simp: registered_ok_def same_handle_def)
  qed
qed

interpretation registered_machine: machine "acceptor_step descr" registered_ok
  by unfold_locales (rule registered_step)

lemma registered_init: "registered_ok acceptor_init"
  by (simp add: registered_ok_def acceptor_init_def)

lemmas registered_run = registered_machine.run_inv [OF _ registered_init]

lemma deaf_run:
  assumes "run (acceptor_step descr) fs t = Some u" "Ac_Shutdown \<notin> set fs"
    and "ac_registered t = []" "ac_handle t \<noteq> 0"
  shows "ac_registered u = [] \<and> ac_handle u = ac_handle t"
  using assms
proof (induction fs arbitrary: t)
  case Nil
  then show ?case by simp
next
  case (Cons e fs)
  then obtain v where v: "acceptor_step descr e t = Some v" "run (acceptor_step descr) fs v = Some u"
    by (auto split: option.splits)
  have "ac_registered v = [] \<and> ac_handle v = ac_handle t"
  proof (cases "e = Ac_Close")
    case True
    then show ?thesis using v(1) Cons.prems close_handle [of t]
      by (auto simp: acceptor_step_def registered_ok_def split: if_splits)
  next
    case False
    show ?thesis
    proof (cases "\<exists>r h ds. e = Ac_Listen r h ds")
      case True
      then obtain r h ds where e: "e = Ac_Listen r h ds" by blast
      show ?thesis using Cons.prems(3,4) listen_handle [OF v(1) [unfolded e]] by (auto simp: same_handle_def)
    next
      case nol: False
      then show ?thesis using other_events_handle [OF v(1)] Cons.prems False by (auto simp: same_handle_def)
    qed
  qed
  then show ?case using Cons.IH [OF v(2)] Cons.prems by simp
qed

text \<open>\<open>close\<close> succeeds and leaves the acceptor deaf: until the shutdown no device arrives, the
  filter cannot be bound again with the guarded \<open>bind\<close>, and \<open>listen\<close> answers that the operation is
  in progress, because the stored handle is not cleared.\<close>

theorem close_leaves_acceptor_deaf:
  assumes "run (acceptor_step descr) es acceptor_init = Some s" "ac_handle s \<noteq> 0"
    and "run (acceptor_step descr) fs (snd (close_acceptor s)) = Some u" "Ac_Shutdown \<notin> set fs"
  shows "fst (close_acceptor s) = ec_none
    \<and> (\<forall>reg. listen descr reg u = (std_make_error_code Operation_In_Progress, u))
    \<and> (\<forall>t. bind_acceptor t u = (std_make_error_code Operation_In_Progress, u))
    \<and> (\<forall>d. acceptor_step descr (Ac_Arrive d) u = None)"
proof -
  have ok: "registered_ok s" using assms(1) by (rule registered_run)
  have "ac_registered u = []" "ac_handle u \<noteq> 0"
    using deaf_run [OF assms(3,4)] close_handle [OF ok assms(2)] assms(2) by simp_all
  then show ?thesis using assms(2)
    by (simp add: close_acceptor_def listen_def bind_acceptor_def acceptor_step_def)
qed

theorem close_leaves_acceptor_deaf_witness:
  "\<exists>s. run (acceptor_step ex_descr) ex_accepts acceptor_init = Some s
     \<and> fst (listen ex_descr (0, 2, []) (snd (close_acceptor s))) = std_make_error_code Operation_In_Progress"
proof -
  obtain s where s: "run (acceptor_step ex_descr) ex_accepts acceptor_init = Some s" "ac_handle s = 1"
    using ex_accepts_run by blast
  from close_leaves_acceptor_deaf [OF s(1), of "[]"] s show ?thesis by simp
qed

end
