(* ===== verification/Acceptor_Devices.thy ===== *)
theory Acceptor_Devices
  imports Acceptor_Props
begin

text \<open>
  Accounting for the devices that arrive at an acceptor and for the references it takes on them.
\<close>

section \<open>The account\<close>

definition got :: "accept_op \<Rightarrow> nat list" where
  "got q = dev_of (ao_dev q)"

definition holds :: "accept_op \<Rightarrow> nat list" where
  "holds q = (if ao_stage q = Finished then [] else dev_of (ao_dev q))"

definition result_devs :: "acceptor \<Rightarrow> nat list" where
  "result_devs s = concat (map (\<lambda>(i, ec, dev). dev_of dev) (ac_results s))"

definition seen_ok :: "acceptor \<Rightarrow> bool" where
  "seen_ok s \<longleftrightarrow>
     mset (ac_seen s) = mset (dev_list (ac_arrived s)) + held got (ac_ops s) + mset (ac_gone s)"

text \<open>\<open>X\<close>: the references a callback holds while it runs.\<close>

definition refs_ok :: "nat multiset \<Rightarrow> acceptor \<Rightarrow> bool" where
  "refs_ok X s \<longleftrightarrow>
     mset (refs_of (ac_calls s)) = mset (unrefs_of (ac_calls s)) + mset (dev_list (ac_arrived s))
       + held holds (ac_ops s) + mset (result_devs s) + mset (ac_overwritten s) + X"

definition devices_ok :: "nat multiset \<Rightarrow> acceptor \<Rightarrow> bool" where
  "devices_ok X s \<longleftrightarrow> finite (dom (ac_ops s)) \<and> seen_ok s \<and> refs_ok X s"

lemma dev_list_simps [simp]:
  "dev_list [] = []"
  "dev_list (x # xs) = dev_of (di_dev_ref x) @ dev_list xs"
  "dev_list (xs @ ys) = dev_list xs @ dev_list ys"
  by (simp_all add: dev_list_def)

lemma dev_of_simps [simp]:
  "dev_of \<lparr>m_dev = Some d\<rparr> = [d]" "dev_of device_ref_null = []"
  "m_dev r = None \<Longrightarrow> dev_of r = []"
  by (simp_all add: dev_of_def device_ref_null_def)

lemma ref_calls [simp]:
  "dev_of (fst (device_ref_assign a b)) = dev_of b"
  "refs_of (snd (device_ref_assign a b)) = dev_of b" "unrefs_of (snd (device_ref_assign a b)) = []"
  "dev_of (fst (device_ref_copy b)) = dev_of b"
  "refs_of (snd (device_ref_copy b)) = dev_of b" "unrefs_of (snd (device_ref_copy b)) = []"
  "refs_of (device_ref_dtor b) = []" "unrefs_of (device_ref_dtor b) = dev_of b"
  by (cases "m_dev b"; simp add: device_ref_defs)+

lemma held_frame:
  assumes "finite (dom m)" "m i = Some q"
  shows "held toks (m(i := Some p)) + mset (toks q) = held toks m + mset (toks p)"
  using held_update [OF assms(1), of toks i "Some p"] assms(2) by simp

lemma held_same:
  assumes "finite (dom m)" "m i = Some q" "toks p = toks q"
  shows "held toks (m(i := Some p)) = held toks m"
  using held_frame [OF assms(1,2), of toks p] assms(3) by simp

section \<open>The callback\<close>

lemma erase_calls:
  "refs_of (concat (map (\<lambda>(a, b). snd (device_ref_assign (di_dev_ref a) (di_dev_ref b))) (zip xs ys))) =
     dev_list (map snd (zip xs ys))"
  "unrefs_of (concat (map (\<lambda>(a, b). snd (device_ref_assign (di_dev_ref a) (di_dev_ref b))) (zip xs ys))) = []"
  by (induction xs ys rule: list_induct2') simp_all

lemma map_snd_zip_tl: "map snd (zip xs (tl xs)) = tl xs"
  by (simp add: map_snd_zip_take)

lemma dev_list_last:
  "xs \<noteq> [] \<Longrightarrow> mset (dev_list (butlast xs)) + mset (dev_of (di_dev_ref (last xs))) = mset (dev_list xs)"
  by (metis append_butlast_last_id dev_list_simps mset_append append_Nil2)

lemma dev_list_hd:
  "xs \<noteq> [] \<Longrightarrow> mset (dev_of (di_dev_ref (hd xs))) + mset (dev_list (tl xs)) = mset (dev_list xs)"
  by (cases xs) simp_all

text \<open>An erased vector: what is referenced, released and written over accounts for the elements.\<close>

lemma vector_erase_account:
  assumes "vector_erase before rest = (xs, cs, over)" "rest \<noteq> []"
  shows "mset (dev_list xs) + mset (dev_of (di_dev_ref (hd rest))) = mset (dev_list before) + mset (dev_list rest)"
    and "mset (refs_of cs) + mset (dev_list (before @ rest)) =
      mset (unrefs_of cs) + mset (dev_list xs) + mset over"
proof -
  have e: "xs = before @ tl rest" "mset (refs_of cs) = mset (dev_list (tl rest))"
    "mset (unrefs_of cs) = mset (dev_of (di_dev_ref (last rest)))" "mset over = mset (dev_list (butlast rest))"
    using assms(1) by (auto simp: vector_erase_def erase_calls map_snd_zip_tl)
  show "mset (dev_list xs) + mset (dev_of (di_dev_ref (hd rest))) = mset (dev_list before) + mset (dev_list rest)"
    using dev_list_hd [OF assms(2)] by (simp add: e(1) ac_simps)
  show "mset (refs_of cs) + mset (dev_list (before @ rest)) =
      mset (unrefs_of cs) + mset (dev_list xs) + mset over"
    using dev_list_last [OF assms(2)] unfolding e(2,3,4) by (simp add: e(1) ac_simps)
qed

lemma on_left_devices:
  assumes ok: "devices_ok X s" shows "devices_ok X (on_left t s)"
proof -
  let ?differs = "\<lambda>info. \<not> wildcard_triplet_comparator (di_triplet info) t"
  define rest where "rest = dropWhile ?differs (ac_arrived s)"
  define before where "before = takeWhile ?differs (ac_arrived s)"
  have split: "ac_arrived s = before @ rest" by (simp add: before_def rest_def)
  show ?thesis
  proof (cases "rest = []")
    case True
    then have "on_left t s = s"
      unfolding on_left_def Let_def rest_def [symmetric] before_def [symmetric] by simp
    then show ?thesis using ok by simp
  next
    case False
    obtain xs cs over where v: "vector_erase before rest = (xs, cs, over)" by (cases "vector_erase before rest") auto
    have t: "on_left t s = log_calls cs (s\<lparr>ac_arrived := xs, ac_overwritten := ac_overwritten s @ over,
        ac_gone := ac_gone s @ dev_of (di_dev_ref (hd rest))\<rparr>)"
      using False v unfolding on_left_def Let_def rest_def [symmetric] before_def [symmetric] by simp
    note acc = vector_erase_account [OF v False]
    have seen: "mset (ac_seen s) = mset (dev_list before) + mset (dev_list rest) + held got (ac_ops s) + mset (ac_gone s)"
      and refs: "mset (refs_of (ac_calls s)) = mset (unrefs_of (ac_calls s)) + mset (dev_list (before @ rest))
        + held holds (ac_ops s) + mset (result_devs s) + mset (ac_overwritten s) + X"
      using ok by (simp_all add: devices_ok_def seen_ok_def refs_ok_def split)
    have "seen_ok (on_left t s)"
      unfolding seen_ok_def using seen [folded acc(1)] by (simp add: t ac_simps)
    moreover have "refs_ok X (on_left t s)"
    proof -
      have "mset (refs_of (ac_calls s)) + mset (refs_of cs) = mset (unrefs_of (ac_calls s))
          + (mset (refs_of cs) + mset (dev_list (before @ rest)))
          + held holds (ac_ops s) + mset (result_devs s) + mset (ac_overwritten s) + X"
        unfolding refs by (simp only: ac_simps)
      then show ?thesis unfolding acc(2) by (simp add: refs_ok_def t result_devs_def ac_simps)
    qed
    ultimately show ?thesis using ok by (simp add: devices_ok_def t)
  qed
qed

lemma on_arrived_devices:
  assumes w: "waiting_ok s" and ok: "devices_ok X s"
  shows "devices_ok X (on_arrived d t (s\<lparr>ac_seen := ac_seen s @ [d]\<rparr>))"
proof (cases "ac_resumptions s")
  case Nil
  then show ?thesis using ok
    by (simp add: devices_ok_def seen_ok_def refs_ok_def on_arrived_def result_devs_def ac_simps)
next
  case (Cons r rs)
  then have r: "r \<in> set (ac_resumptions s)" by simp
  obtain q where q: "ac_ops s r = Some q" "ao_stage q = Suspended" "m_dev (ao_dev q) = None"
    by (rule waiting_resumption [OF w r])
  let ?q = "q\<lparr>ao_dev := fst (device_ref_assign (ao_dev q) \<lparr>m_dev = Some d\<rparr>), ao_posts := ao_posts q + 1\<rparr>"
  have ops: "ac_ops (on_arrived d t (s\<lparr>ac_seen := ac_seen s @ [d]\<rparr>)) = (ac_ops s)(r := Some ?q)"
    by (simp add: on_arrived_def Cons q Let_def fun_eq_iff)
  have "held got ((ac_ops s)(r := Some ?q)) = held got (ac_ops s) + {#d#}"
    "held holds ((ac_ops s)(r := Some ?q)) = held holds (ac_ops s) + {#d#}"
    using held_frame [where m = "ac_ops s" and i = r and q = q and p = ?q and toks = got]
      held_frame [where m = "ac_ops s" and i = r and q = q and p = ?q and toks = holds] ok q
    by (simp_all add: devices_ok_def got_def holds_def)
  then show ?thesis using ok
    by (simp add: devices_ok_def seen_ok_def refs_ok_def ops)
      (simp add: on_arrived_def Cons Let_def result_devs_def ac_simps)
qed

lemma devices_ref:
  "devices_ok (X + {#d#}) (log_calls [Ref_Device d] s) \<longleftrightarrow> devices_ok X s"
  by (simp add: devices_ok_def seen_ok_def refs_ok_def result_devs_def)

lemma devices_unref:
  "devices_ok X (log_calls [Unref_Device d] s) \<longleftrightarrow> devices_ok (X + {#d#}) s"
  by (simp add: devices_ok_def seen_ok_def refs_ok_def result_devs_def)

lemma callback_devices:
  assumes w: "waiting_ok s" and ok: "devices_ok X s"
  shows "devices_ok X (listen_callback descr d ev s)"
proof -
  have ok': "devices_ok (X + {#d#}) (log_calls [Ref_Device d] s)" using ok by (simp only: devices_ref)
  have w': "waiting_ok (log_calls [Ref_Device d] s)" using w by (rule waiting_log)
  show ?thesis
  proof (cases ev)
    case Device_Arrived
    then show ?thesis using on_arrived_devices [OF w' ok']
      by (simp add: listen_callback_def Let_def devices_unref)
  next
    case Device_Left
    then show ?thesis using on_left_devices [OF ok']
      by (simp add: listen_callback_def Let_def devices_unref)
  qed
qed

lemma present_devices:
  "waiting_ok s \<Longrightarrow> devices_ok X s \<Longrightarrow>
   devices_ok X (fold (\<lambda>d. listen_callback descr d Device_Arrived) ds s)"
  by (induction ds arbitrary: s) (simp_all add: listen_callback_waiting callback_devices)

text \<open>Changes that do not touch a device.\<close>

lemma devices_same:
  assumes "devices_ok X s"
    and "ac_arrived t = ac_arrived s" "ac_ops t = ac_ops s" "ac_seen t = ac_seen s" "ac_gone t = ac_gone s"
      "ac_calls t = ac_calls s" "ac_results t = ac_results s" "ac_overwritten t = ac_overwritten s"
  shows "devices_ok X t"
  using assms by (simp add: devices_ok_def seen_ok_def refs_ok_def result_devs_def)

lemma devices_frame:
  assumes ok: "devices_ok X s"
    and q: "ac_ops s i = Some q" "got p = got q" "holds p = holds q" "ac_ops t = (ac_ops s)(i := Some p)"
    and t: "ac_arrived t = ac_arrived s" "ac_seen t = ac_seen s" "ac_gone t = ac_gone s"
      "ac_calls t = ac_calls s" "ac_results t = ac_results s" "ac_overwritten t = ac_overwritten s"
  shows "devices_ok X t"
proof -
  have fin: "finite (dom (ac_ops s))" using ok by (simp add: devices_ok_def)
  have "held got (ac_ops t) = held got (ac_ops s)" "held holds (ac_ops t) = held holds (ac_ops s)"
    unfolding q(4) by (rule held_same [OF fin q(1,2)], rule held_same [OF fin q(1,3)])
  then show ?thesis using ok t q(4) by (simp add: devices_ok_def seen_ok_def refs_ok_def result_devs_def)
qed

lemma listen_devices:
  assumes "waiting_ok s" "devices_ok X s"
  shows "devices_ok X (snd (listen descr reg s))"
proof (cases reg)
  case (fields r h ds)
  have "devices_ok X (fold (\<lambda>d. listen_callback descr d Device_Arrived) ds s)" (is "devices_ok X ?u")
    using assms by (rule present_devices)
  then have "devices_ok X (?u\<lparr>ac_handle := h, ac_registered := ac_registered ?u @ [h]\<rparr>)"
    by (rule devices_same) simp_all
  then show ?thesis using \<open>devices_ok X ?u\<close> assms(2) by (simp add: fields listen_def Let_def)
qed

lemma cancel_devices:
  "devices_ok X s \<Longrightarrow> devices_ok X (cancel_resumption i s)"
proof (cases "ac_ops s i")
  case None
  assume "devices_ok X s"
  then show ?thesis
    by (rule devices_same) (simp_all add: cancel_resumption_def None fun_eq_iff)
next
  case (Some q)
  assume "devices_ok X s"
  then show ?thesis
    by (rule devices_frame [where i = i and q = q and p = "q\<lparr>ao_ec := canceled, ao_posts := ao_posts q + 1\<rparr>"])
      (simp_all add: cancel_resumption_def Some got_def holds_def)
qed

lemma cancel_all_devices: "devices_ok X s \<Longrightarrow> devices_ok X (fold cancel_resumption xs s)"
  by (induction xs arbitrary: s) (simp_all add: cancel_devices)

lemma cancel_all_arrived: "ac_arrived (fold cancel_resumption xs s) = ac_arrived s"
  by (induction xs arbitrary: s) (simp_all add: cancel_resumption_def)

lemma dtor_list:
  "refs_of (concat (map (\<lambda>d. device_ref_dtor (di_dev_ref d)) xs)) = []"
  "unrefs_of (concat (map (\<lambda>d. device_ref_dtor (di_dev_ref d)) xs)) = dev_list xs"
  by (induction xs) simp_all

lemma shutdown_devices:
  assumes ok: "devices_ok X s" shows "devices_ok X (acceptor_shutdown s)"
proof (cases "ac_handle s = 0")
  case True
  then show ?thesis using ok devices_same [OF ok] by (simp add: acceptor_shutdown_def)
next
  case False
  let ?u = "fold cancel_resumption (ac_resumptions s) (deregister (ac_handle s) (s\<lparr>ac_handle := 0\<rparr>))"
  have "devices_ok X (deregister (ac_handle s) (s\<lparr>ac_handle := 0\<rparr>))"
    by (rule devices_same [OF ok]) simp_all
  then have "devices_ok X ?u" by (rule cancel_all_devices)
  then show ?thesis using False
    by (simp add: acceptor_shutdown_def Let_def devices_ok_def seen_ok_def refs_ok_def result_devs_def
        dtor_list ac_simps)
qed

section \<open>The steps of an accept\<close>

lemma take_back_devices:
  assumes ok: "devices_ok X s" and q: "ac_ops s i = Some q" "m_dev (ao_dev q) = None" "ao_stage q \<noteq> Finished"
    and a: "ac_arrived s \<noteq> []"
  shows "devices_ok X (take_back i s)"
proof -
  let ?newest = "di_dev_ref (last (ac_arrived s))"
  let ?q = "q\<lparr>ao_dev := fst (device_ref_assign (ao_dev q) ?newest)\<rparr>"
  have fin: "finite (dom (ac_ops s))" using ok by (simp add: devices_ok_def)
  have "held got ((ac_ops s)(i := Some ?q)) = held got (ac_ops s) + mset (dev_of ?newest)"
    "held holds ((ac_ops s)(i := Some ?q)) = held holds (ac_ops s) + mset (dev_of ?newest)"
    using held_frame [OF fin, where i = i and q = q and p = ?q and toks = got]
      held_frame [OF fin, where i = i and q = q and p = ?q and toks = holds] q
    by (simp_all add: got_def holds_def)
  then show ?thesis using ok q(1) dev_list_last [OF a]
    by (simp add: take_back_def Let_def devices_ok_def seen_ok_def refs_ok_def result_devs_def)
qed

lemma stage_devices:
  assumes ok: "devices_ok X s" and q: "ac_ops s i = Some q" "ao_stage q \<noteq> Finished" "st \<noteq> Finished"
  shows "devices_ok X (set_stage st i s)"
  using ok q(1) by (rule devices_frame [where p = "q\<lparr>ao_stage := st\<rparr>"])
    (use q in \<open>simp_all add: got_def holds_def set_stage_def\<close>)

lemma finish_devices:
  assumes ok: "devices_ok X s" and q: "ac_ops s i = Some q" "ao_stage q \<noteq> Finished"
  shows "devices_ok X (finish_accept i q s)"
proof -
  let ?q = "q\<lparr>ao_stage := Finished\<rparr>"
  have fin: "finite (dom (ac_ops s))" using ok by (simp add: devices_ok_def)
  have "held got ((ac_ops s)(i := Some ?q)) = held got (ac_ops s)"
    by (rule held_same [OF fin q(1)]) (simp add: got_def)
  moreover have "held holds ((ac_ops s)(i := Some ?q)) + mset (dev_of (ao_dev q)) = held holds (ac_ops s)"
    using held_frame [OF fin, where i = i and q = q and p = ?q and toks = holds] q by (simp add: holds_def)
  ultimately show ?thesis using ok
    by (cases "ec_bool (ao_ec q)")
      (auto simp: finish_accept_def accept_resume_def devices_ok_def seen_ok_def refs_ok_def result_devs_def ac_simps)
qed

section \<open>The machine\<close>

lemma ready_devices:
  assumes w: "waiting_ok s" and ok: "devices_ok X s" and q: "ac_ops s i = Some q" "ao_stage q = Starting"
  shows "devices_ok X (case accept_ready i s of (ready, s) \<Rightarrow> set_stage (if ready then Resumable else Checking) i s)"
proof (cases "ac_arrived s = []")
  case True
  then show ?thesis using stage_devices [OF ok q(1)] q(2) by (simp add: accept_ready_def)
next
  case False
  have n: "m_dev (ao_dev q) = None" using waiting_okD [OF w q(1)] q(2) by (simp add: op_ok_def)
  have "devices_ok X (take_back i s)" using take_back_devices [OF ok q(1) n _ False] q(2) by simp
  then have "devices_ok X (set_stage Resumable i (take_back i s))"
    by (rule stage_devices [where q = "q\<lparr>ao_dev := fst (device_ref_assign (ao_dev q) (di_dev_ref (last (ac_arrived s))))\<rparr>"])
      (use q in \<open>simp_all add: take_back_def Let_def\<close>)
  then show ?thesis using False by (simp add: accept_ready_def)
qed

lemma check_devices:
  assumes ok: "devices_ok X s" and q: "ac_ops s i = Some q" "ao_stage q = Checking"
  shows "devices_ok X (case accept_check b i s of (goes_on, s) \<Rightarrow> set_stage (if goes_on then Resumable else Locking) i s)"
  using ok q(1)
  by (rule devices_frame [where p = "if b then q\<lparr>ao_ec := canceled, ao_stage := Resumable\<rparr> else q\<lparr>ao_stage := Locking\<rparr>"])
    (use q in \<open>simp_all add: got_def holds_def set_stage_def accept_check_def\<close>)

lemma lock_devices:
  assumes w: "waiting_ok s" and ok: "devices_ok X s" and q: "ac_ops s i = Some q" "ao_stage q = Locking"
  shows "devices_ok X (case accept_lock i s of (goes_on, s) \<Rightarrow> set_stage (if goes_on then Resumable else Suspended) i s)"
proof (cases "ac_arrived s = []")
  case True
  show ?thesis using ok q(1)
    by (rule devices_frame [where p = "q\<lparr>ao_ctx := True, ao_stage := Suspended\<rparr>"])
      (use q True in \<open>simp_all add: got_def holds_def set_stage_def accept_lock_def\<close>)
next
  case False
  have n: "m_dev (ao_dev q) = None" using waiting_okD [OF w q(1)] q(2) by (simp add: op_ok_def)
  have "devices_ok X (take_back i s)" using take_back_devices [OF ok q(1) n _ False] q(2) by simp
  then have "devices_ok X (set_stage Resumable i (take_back i s))"
    by (rule stage_devices [where q = "q\<lparr>ao_dev := fst (device_ref_assign (ao_dev q) (di_dev_ref (last (ac_arrived s))))\<rparr>"])
      (use q in \<open>simp_all add: take_back_def Let_def\<close>)
  then show ?thesis using False by (simp add: accept_lock_def)
qed

lemma stop_devices:
  assumes ok: "devices_ok X s" and q: "ac_ops s i = Some q"
  shows "devices_ok X (stop_fn i (upd_op i (\<lambda>q. q\<lparr>ao_stop := True\<rparr>) s))"
  using ok q
  by (rule devices_frame [where p = "if ao_ctx q then q\<lparr>ao_stop := True, ao_ec := canceled, ao_posts := ao_posts q + 1\<rparr>
        else q\<lparr>ao_stop := True\<rparr>"])
    (use q in \<open>simp_all add: got_def holds_def stop_fn_def Let_def\<close>)

lemma new_accept_devices:
  assumes ok: "devices_ok X s" and i: "ac_ops s i = None"
  shows "devices_ok X (s\<lparr>ac_ops := (ac_ops s)(i := Some (fresh_accept b))\<rparr>)"
  using ok i held_update [of "ac_ops s" got i "Some (fresh_accept b)"]
    held_update [of "ac_ops s" holds i "Some (fresh_accept b)"]
  by (simp add: devices_ok_def seen_ok_def refs_ok_def result_devs_def fresh_accept_def got_def holds_def)

lemma acceptor_event_devices:
  assumes w: "waiting_ok s" and ok: "devices_ok X s" and st: "acceptor_event_step descr e s = Some t"
  shows "devices_ok X t"
proof (cases e)
  case (Ac_Bind tr)
  then show ?thesis using st devices_same [OF ok, of t] ok by (auto simp: bind_acceptor_def)
next
  case (Ac_Bind_Ec tr)
  then show ?thesis using st by (intro devices_same [OF ok]) (auto simp: bind_ec_def)
next
  case (Ac_Listen r h ds)
  then show ?thesis using st listen_devices [OF w ok] by (auto split: if_splits)
next
  case Ac_Close
  then show ?thesis using st by (intro devices_same [OF ok]) (auto simp: close_acceptor_def)
next
  case Ac_Shutdown
  then show ?thesis using st shutdown_devices [OF ok] by auto
next
  case (Ac_Arrive d)
  then show ?thesis using st callback_devices [OF w ok] by (auto split: if_splits)
next
  case (Ac_Leave d)
  then show ?thesis using st callback_devices [OF w ok] by (auto split: if_splits)
next
  case (Ac_Accept i b)
  then show ?thesis using st new_accept_devices [OF ok] by (auto split: if_splits)
next
  case (Ac_Ready i)
  then have "at_stage i Starting (\<lambda>q. case accept_ready i s of
       (ready, s) \<Rightarrow> set_stage (if ready then Resumable else Checking) i s) s = Some t" using st by simp
  then show ?thesis by (rule at_stageD) (use ready_devices [OF w ok] in blast)
next
  case (Ac_Check i)
  then have "at_stage i Checking (\<lambda>q. case accept_check (ao_stop q) i s of
       (goes_on, s) \<Rightarrow> set_stage (if goes_on then Resumable else Locking) i s) s = Some t" using st by simp
  then show ?thesis by (rule at_stageD) (use check_devices [OF ok] in blast)
next
  case (Ac_Lock i)
  then have "at_stage i Locking (\<lambda>q. case accept_lock i s of
       (goes_on, s) \<Rightarrow> set_stage (if goes_on then Resumable else Suspended) i s) s = Some t" using st by simp
  then show ?thesis by (rule at_stageD) (use lock_devices [OF w ok] in blast)
next
  case (Ac_Resume i)
  then have "at_stage i Resumable (\<lambda>q. finish_accept i q s) s = Some t" using st by simp
  then show ?thesis by (rule at_stageD) (use finish_devices [OF ok] in auto)
next
  case (Ac_Stop i)
  then show ?thesis using st stop_devices [OF ok] by (auto split: option.splits if_splits)
next
  case Ac_Dispatch
  then obtain i P q where P: "ac_posted s = i # P" and q: "ac_ops s i = Some q"
    and t: "t = (if ao_stage q = Suspended then finish_accept i q (s\<lparr>ac_posted := P\<rparr>)
                 else (s\<lparr>ac_posted := P\<rparr>)\<lparr>ac_broken := True\<rparr>)"
    using st by (auto simp: Let_def split: list.splits option.splits if_splits)
  have "devices_ok X (s\<lparr>ac_posted := P\<rparr>)" by (rule devices_same [OF ok]) simp_all
  then show ?thesis using finish_devices [of X "s\<lparr>ac_posted := P\<rparr>" i q] q devices_same [OF ok, of t]
    by (cases "ao_stage q = Suspended") (simp_all add: t)
qed

definition accounted_ok :: "acceptor \<Rightarrow> bool" where
  "accounted_ok s \<longleftrightarrow> acceptor_ok s \<and> devices_ok {#} s"

lemma acceptor_account_step:
  assumes "accounted_ok s" "acceptor_step descr e s = Some t"
  shows "accounted_ok t"
proof -
  have nb: "\<not> ac_broken s" and ev: "acceptor_event_step descr e s = Some t"
    using acceptor_stepD [OF assms(2)] by simp_all
  have ok: "acceptor_ok s" and dev: "devices_ok {#} s" using assms(1) by (simp_all add: accounted_ok_def)
  have "waiting_ok s" using ok nb by (simp add: acceptor_ok_def)
  then have "devices_ok {#} t" using dev ev by (rule acceptor_event_devices)
  then show ?thesis using acceptor_step_ok [OF ok assms(2)] by (simp add: accounted_ok_def)
qed

interpretation accounted_machine: machine "acceptor_step descr" accounted_ok
  by unfold_locales (rule acceptor_account_step)

lemma acceptor_account_init: "accounted_ok acceptor_init"
  using acceptor_init_ok
  by (simp add: accounted_ok_def devices_ok_def seen_ok_def refs_ok_def acceptor_init_def result_devs_def held_def)

lemmas accounted_run = accounted_machine.run_inv [OF _ acceptor_account_init]

text \<open>every device that arrived is in exactly one place: stored, delivered to exactly one accept,
  or removed from the store (because it left, or by the shutdown).\<close>

theorem every_arrival_is_in_one_place:
  assumes "run (acceptor_step descr) es acceptor_init = Some s"
  shows "mset (ac_seen s) = mset (dev_list (ac_arrived s)) + held (\<lambda>q. dev_of (ao_dev q)) (ac_ops s)
    + mset (ac_gone s)"
proof -
  have "got = (\<lambda>q. dev_of (ao_dev q))" by (simp add: fun_eq_iff got_def)
  then show ?thesis using accounted_run [OF assms] by (simp add: accounted_ok_def devices_ok_def seen_ok_def)
qed

theorem every_arrival_is_in_one_place_witness:
  "\<exists>s. run (acceptor_step ex_descr) ex_accepts acceptor_init = Some s
     \<and> mset (ac_seen s) = mset (dev_list (ac_arrived s)) + held (\<lambda>q. dev_of (ao_dev q)) (ac_ops s) + mset (ac_gone s)"
  using ex_accepts_run every_arrival_is_in_one_place by blast

text \<open>C30: the references taken on devices are those released, those held by the store, by accepts in
  progress and by results, and those that were written over when a device that leaves is erased
  from the middle of the store: \<open>device_ref::operator=\<close> does not release the reference it replaces.\<close>

theorem acceptor_reference_balance:
  assumes "run (acceptor_step descr) es acceptor_init = Some s"
  shows "mset (refs_of (ac_calls s)) = mset (unrefs_of (ac_calls s)) + mset (dev_list (ac_arrived s))
    + held holds (ac_ops s) + mset (result_devs s) + mset (ac_overwritten s)"
  using accounted_run [OF assms] by (simp add: accounted_ok_def devices_ok_def refs_ok_def)

definition ex_erase :: "acceptor_event list" where
  "ex_erase = [Ac_Listen 0 1 [7, 8], Ac_Leave 7, Ac_Shutdown]"

lemma ex_erase_run:
  "\<exists>s. run (acceptor_step ex_descr) ex_erase acceptor_init = Some s
     \<and> (ac_arrived s = [] \<and> ac_overwritten s = [7] \<and> ac_results s = [])"
  unfolding ex_erase_def acceptor_init_def by (rule run_satD) code_simp

theorem acceptor_reference_balance_witness:
  "\<exists>s. run (acceptor_step ex_descr) ex_erase acceptor_init = Some s
     \<and> mset (refs_of (ac_calls s)) = mset (unrefs_of (ac_calls s)) + held holds (ac_ops s) + {#7#}"
proof -
  obtain s where s: "run (acceptor_step ex_descr) ex_erase acceptor_init = Some s"
      "ac_arrived s = []" "ac_overwritten s = [7]" "ac_results s = []"
    using ex_erase_run by blast
  from acceptor_reference_balance [OF s(1)] show ?thesis using s by (auto simp: result_devs_def)
qed

end
