(* ===== verification/Hotplug_Client.thy ===== *)
theory Hotplug_Client
  imports Acceptor_Devices
begin

text \<open>
  A client of the acceptor, the coroutine \<open>accept_hotplug\<close> of \<open>src/examples/02-hotplug-integration.cpp\<close>
  (\<open>03-complete-io.cpp\<close> has the same): it binds an acceptor, listens, accepts devices one after the
  other until it is stopped, starts \<open>dev_loop\<close> for each, and shuts the acceptor down.  It runs beside
  libusb's callbacks, the executor and the thread that requests stop.
\<close>

section \<open>The coroutine\<close>

text \<open>Where it is: before the first statement, at the condition of the loop, at the call of \<open>accept\<close>,
  awaiting its accept, behind the loop, and ended.\<close>

datatype client_pc = Client_Begin | Client_Loop | Client_Call | Client_Await nat | Client_Leave | Client_Ended

text \<open>
  \<open>hc_count\<close>: the accepts so far, which number their frames; \<open>hc_started\<close>: the devices \<open>dev_loop\<close> was
  started with, whose coroutine then owns a reference; \<open>hc_calls\<close>: the client's own calls on
  reference counters; \<open>hc_lost\<close>, for stating properties: the devices an accept held that reported an
  error.
\<close>

record hotplug_client =
  hc_acceptor :: acceptor
  hc_pc :: client_pc
  hc_stop :: bool
  hc_count :: nat
  hc_started :: "nat list"
  hc_calls :: "ref_call list"
  hc_lost :: "nat list"

definition client_init :: hotplug_client where
  "client_init = \<lparr>hc_acceptor = acceptor_init, hc_pc = Client_Begin, hc_stop = False, hc_count = 0,
     hc_started = [], hc_calls = [], hc_lost = []\<rparr>"

definition client_triplet :: device_triplet where
  "client_triplet = any_triplet\<lparr>vid := 0x9f9f, pid := 0x9f9f\<rparr>"

text \<open>\<open>bind\<close> and \<open>listen\<close>; their errors are printed, and nothing else.\<close>

definition client_listen :: "(nat \<Rightarrow> device_descriptor) \<Rightarrow> int \<times> int \<times> nat list \<Rightarrow> acceptor \<Rightarrow> acceptor" where
  "client_listen descr reg a = snd (listen descr reg (snd (bind_acceptor client_triplet a)))"

text \<open>The argument is copied into the parameter and from there into the frame of the coroutine; the
  parameter and, at the end of the loop's body, \<open>dev\<close> itself are destroyed.\<close>

definition start_dev_loop :: "device_ref \<Rightarrow> hotplug_client \<Rightarrow> hotplug_client" where
  "start_dev_loop dev w =
     (case device_ref_copy dev of (param, cs) \<Rightarrow>
        (case device_ref_copy param of (own, cs') \<Rightarrow>
           w\<lparr>hc_started := hc_started w @ dev_of own,
             hc_calls := hc_calls w @ cs @ cs' @ device_ref_dtor param @ device_ref_dtor dev\<rparr>))"

text \<open>The result of accept \<open>n\<close>, once its coroutine has ended.\<close>

definition accept_result :: "nat \<Rightarrow> acceptor \<Rightarrow> (error_code \<times> device_ref) option" where
  "accept_result n a = map_of (ac_results a) n"

definition client_got :: "nat \<Rightarrow> error_code \<times> device_ref \<Rightarrow> hotplug_client \<Rightarrow> hotplug_client" where
  "client_got n r w =
     (case r of (ec, dev) \<Rightarrow>
        if ec_bool ec
        then w\<lparr>hc_pc := Client_Leave, hc_calls := hc_calls w @ device_ref_dtor dev,
               hc_lost := hc_lost w @ (case ac_ops (hc_acceptor w) n of None \<Rightarrow> [] | Some q \<Rightarrow> got q)\<rparr>
        else (start_dev_loop dev w)\<lparr>hc_pc := Client_Loop\<rparr>)"

text \<open>\<open>acceptor.shutdown()\<close>, and the destructor of the acceptor as the coroutine ends.\<close>

definition client_leave :: "hotplug_client \<Rightarrow> hotplug_client" where
  "client_leave w =
     w\<lparr>hc_acceptor := acceptor_shutdown (acceptor_shutdown (hc_acceptor w)), hc_pc := Client_Ended\<rparr>"

section \<open>The machine\<close>

datatype client_event = Hc_Begin int int "nat list" | Hc_Turn | Hc_Call | Hc_Got | Hc_Leave
  | Hc_Stop | Hc_Acceptor acceptor_event

text \<open>What goes on in the acceptor without the client: the callbacks, the steps of the accept, the
  executor.\<close>

fun beside_client :: "acceptor_event \<Rightarrow> bool" where
  "beside_client (Ac_Arrive d) = True"
| "beside_client (Ac_Leave d) = True"
| "beside_client (Ac_Ready i) = True"
| "beside_client (Ac_Check i) = True"
| "beside_client (Ac_Lock i) = True"
| "beside_client (Ac_Resume i) = True"
| "beside_client Ac_Dispatch = True"
| "beside_client _ = False"

definition in_acceptor ::
  "(nat \<Rightarrow> device_descriptor) \<Rightarrow> acceptor_event \<Rightarrow> hotplug_client \<Rightarrow> hotplug_client option" where
  "in_acceptor descr e w = map_option (\<lambda>a. w\<lparr>hc_acceptor := a\<rparr>) (acceptor_step descr e (hc_acceptor w))"

text \<open>\<open>Hc_Stop\<close>: stop is requested, once; the stop callback of an accept in progress runs.\<close>

fun client_step :: "(nat \<Rightarrow> device_descriptor) \<Rightarrow> client_event \<Rightarrow> hotplug_client \<Rightarrow> hotplug_client option" where
  "client_step descr (Hc_Begin r handle present) w =
     (if hc_pc w = Client_Begin \<and> (r = LIBUSB_SUCCESS \<and> 0 < handle \<or> r \<noteq> LIBUSB_SUCCESS \<and> present = [])
      then Some (w\<lparr>hc_acceptor := client_listen descr (r, handle, present) (hc_acceptor w), hc_pc := Client_Loop\<rparr>)
      else None)"
| "client_step descr Hc_Turn w =
     (if hc_pc w = Client_Loop then Some (w\<lparr>hc_pc := if hc_stop w then Client_Leave else Client_Call\<rparr>) else None)"
| "client_step descr Hc_Call w =
     (if hc_pc w = Client_Call
      then map_option (\<lambda>w. w\<lparr>hc_pc := Client_Await (hc_count w), hc_count := hc_count w + 1\<rparr>)
             (in_acceptor descr (Ac_Accept (hc_count w) (hc_stop w)) w)
      else None)"
| "client_step descr Hc_Got w =
     (case hc_pc w of
        Client_Await n \<Rightarrow> map_option (\<lambda>r. client_got n r w) (accept_result n (hc_acceptor w))
      | _ \<Rightarrow> None)"
| "client_step descr Hc_Leave w = (if hc_pc w = Client_Leave then Some (client_leave w) else None)"
| "client_step descr Hc_Stop w =
     (if hc_stop w then None
      else
        (case hc_pc w of
           Client_Await n \<Rightarrow>
             if accept_result n (hc_acceptor w) = None
             then map_option (\<lambda>w. w\<lparr>hc_stop := True\<rparr>) (in_acceptor descr (Ac_Stop n) w)
             else Some (w\<lparr>hc_stop := True\<rparr>)
         | _ \<Rightarrow> Some (w\<lparr>hc_stop := True\<rparr>)))"
| "client_step descr (Hc_Acceptor e) w = (if beside_client e then in_acceptor descr e w else None)"

section \<open>One accept at a time\<close>

text \<open>An event changes the frame of at most one accept, one that has not ended; and when it ends, its
  result is what \<open>await_resume\<close> gives.\<close>

definition changes_one :: "acceptor \<Rightarrow> acceptor \<Rightarrow> bool" where
  "changes_one s t \<longleftrightarrow>
     ac_ops t = ac_ops s \<and> ac_results t = ac_results s \<or>
     (\<exists>n q p. ac_ops s n = Some q \<and> ao_stage q \<noteq> Finished \<and> ac_ops t = (ac_ops s)(n := Some p)
        \<and> ac_results t = ac_results s @ (if ao_stage p = Finished then [(n, fst (accept_resume p))] else []))"

lemma changes_one_refl: "ac_ops t = ac_ops s \<Longrightarrow> ac_results t = ac_results s \<Longrightarrow> changes_one s t"
  by (simp add: changes_one_def)

lemma changes_oneI:
  "ac_ops s n = Some q \<Longrightarrow> ao_stage q \<noteq> Finished \<Longrightarrow> ac_ops t = (ac_ops s)(n := Some p) \<Longrightarrow>
   ac_results t = ac_results s @ (if ao_stage p = Finished then [(n, fst (accept_resume p))] else []) \<Longrightarrow>
   changes_one s t"
  unfolding changes_one_def by blast

lemma callback_changes_one:
  assumes ok: "waiting_ok s" shows "changes_one s (listen_callback descr d ev s)"
proof (cases ev)
  case Device_Left
  then show ?thesis
    by (intro changes_one_refl) (auto simp: listen_callback_def on_left_def Let_def split: prod.splits)
next
  case Device_Arrived
  show ?thesis
  proof (cases "ac_resumptions s")
    case Nil
    then show ?thesis using Device_Arrived
      by (intro changes_one_refl) (simp_all add: listen_callback_def on_arrived_def Let_def)
  next
    case (Cons r rs)
    then have "r \<in> set (ac_resumptions s)" by simp
    then obtain q where q: "ac_ops s r = Some q" "ao_stage q = Suspended" by (rule waiting_resumption [OF ok])
    show ?thesis
      by (rule changes_oneI [OF q(1)]) (use q Device_Arrived Cons in
          \<open>auto simp: listen_callback_def on_arrived_def Let_def fun_eq_iff\<close>)
  qed
qed

lemma finish_changes_one:
  assumes "ac_ops s i = Some q" "ao_stage q \<noteq> Finished" "ac_ops s' = ac_ops s" "ac_results s' = ac_results s"
  shows "changes_one s (finish_accept i q s')"
  by (rule changes_oneI [OF assms(1,2)])
    (use assms(3,4) in \<open>auto simp: finish_accept_def accept_resume_def split: prod.splits\<close>)

lemma stage_changes_one:
  assumes "ac_ops s i = Some q" "ao_stage q \<noteq> Finished" "st \<noteq> Finished"
    and "ac_ops s' i = Some q'" "ac_ops s' = (ac_ops s)(i := Some q')" "ac_results s' = ac_results s"
  shows "changes_one s (set_stage st i s')"
  by (rule changes_oneI [OF assms(1,2), where p = "q'\<lparr>ao_stage := st\<rparr>"])
    (use assms(3-6) in \<open>simp_all add: set_stage_def\<close>)

lemma take_back_op:
  "ac_ops s i = Some q \<Longrightarrow>
   ac_ops (take_back i s) = (ac_ops s)(i := Some (q\<lparr>ao_dev := fst (device_ref_assign (ao_dev q) (di_dev_ref (last (ac_arrived s))))\<rparr>))"
  "ac_results (take_back i s) = ac_results s"
  by (simp_all add: take_back_def Let_def)

lemma event_changes_one:
  assumes ok: "waiting_ok s" and st: "acceptor_event_step descr e s = Some t" and e: "beside_client e \<or> e = Ac_Stop n"
  shows "changes_one s t"
proof (cases e)
  case (Ac_Arrive d)
  then show ?thesis using st callback_changes_one [OF ok] by (auto split: if_splits)
next
  case (Ac_Leave d)
  then show ?thesis using st callback_changes_one [OF ok] by (auto split: if_splits)
next
  case (Ac_Ready i)
  then obtain q where q: "ac_ops s i = Some q" "ao_stage q = Starting"
    and t: "t = (case accept_ready i s of (ready, s) \<Rightarrow> set_stage (if ready then Resumable else Checking) i s)"
    using st by (auto simp: at_stage_def split: option.splits if_splits)
  show ?thesis using q unfolding t accept_ready_def
    by (cases "ac_arrived s = []") (simp_all add: stage_changes_one [OF q(1)] take_back_op fun_upd_idem)
next
  case (Ac_Check i)
  then obtain q where q: "ac_ops s i = Some q" "ao_stage q = Checking"
    and t: "t = (case accept_check (ao_stop q) i s of (goes_on, s) \<Rightarrow> set_stage (if goes_on then Resumable else Locking) i s)"
    using st by (auto simp: at_stage_def split: option.splits if_splits)
  show ?thesis using q unfolding t accept_check_def
    by (cases "ao_stop q") (simp_all add: stage_changes_one [OF q(1)] fun_upd_idem)
next
  case (Ac_Lock i)
  then obtain q where q: "ac_ops s i = Some q" "ao_stage q = Locking"
    and t: "t = (case accept_lock i s of (goes_on, s) \<Rightarrow> set_stage (if goes_on then Resumable else Suspended) i s)"
    using st by (auto simp: at_stage_def split: option.splits if_splits)
  show ?thesis using q unfolding t accept_lock_def
    by (cases "ac_arrived s = []") (simp_all add: stage_changes_one [OF q(1)] take_back_op)
next
  case (Ac_Resume i)
  then show ?thesis using st
    by (auto simp: at_stage_def intro: finish_changes_one split: option.splits if_splits)
next
  case (Ac_Stop i)
  then obtain q where q: "ac_ops s i = Some q" "ao_stage q \<noteq> Finished"
    and t: "t = stop_fn i (upd_op i (\<lambda>q. q\<lparr>ao_stop := True\<rparr>) s)"
    using st by (auto split: option.splits if_splits)
  show ?thesis
    by (rule changes_oneI [OF q, where p = "if ao_ctx q then q\<lparr>ao_stop := True, ao_ec := canceled, ao_posts := ao_posts q + 1\<rparr>
          else q\<lparr>ao_stop := True\<rparr>"]) (use q in \<open>simp_all add: t stop_fn_def Let_def\<close>)
next
  case Ac_Dispatch
  then obtain i P q where P: "ac_posted s = i # P" and q: "ac_ops s i = Some q"
    and t: "t = (if ao_stage q = Suspended then finish_accept i q (s\<lparr>ac_posted := P\<rparr>)
                 else (s\<lparr>ac_posted := P\<rparr>)\<lparr>ac_broken := True\<rparr>)"
    using st by (auto simp: Let_def split: list.splits option.splits if_splits)
  show ?thesis using q
    by (cases "ao_stage q = Suspended") (auto simp: t intro: finish_changes_one changes_one_refl)
qed (use e in auto)

text \<open>The results are those of the accepts that have ended.\<close>

definition results_ok :: "acceptor \<Rightarrow> bool" where
  "results_ok a \<longleftrightarrow>
     (\<forall>n q. ac_ops a n = Some q \<longrightarrow>
        accept_result n a = (if ao_stage q = Finished then Some (fst (accept_resume q)) else None))
     \<and> (\<forall>n. ac_ops a n = None \<longrightarrow> accept_result n a = None)"

lemma changes_one_results:
  assumes ok: "results_ok s" and ch: "changes_one s t" shows "results_ok t"
  using ch unfolding changes_one_def
proof
  assume "ac_ops t = ac_ops s \<and> ac_results t = ac_results s"
  then show ?thesis using ok by (simp add: results_ok_def accept_result_def)
next
  assume "\<exists>n q p. ac_ops s n = Some q \<and> ao_stage q \<noteq> Finished \<and> ac_ops t = (ac_ops s)(n := Some p)
        \<and> ac_results t = ac_results s @ (if ao_stage p = Finished then [(n, fst (accept_resume p))] else [])"
  then obtain n q p where q: "ac_ops s n = Some q" "ao_stage q \<noteq> Finished" "ac_ops t = (ac_ops s)(n := Some p)"
    "ac_results t = ac_results s @ (if ao_stage p = Finished then [(n, fst (accept_resume p))] else [])"
    by blast
  then have n: "accept_result n s = None" using ok by (simp add: results_ok_def)
  have "accept_result m t = (if m = n then if ao_stage p = Finished then Some (fst (accept_resume p)) else None
      else accept_result m s)" for m
    using n by (simp add: accept_result_def q(4) map_add_def split: option.splits)
  then show ?thesis using ok q(3) by (simp add: results_ok_def)
qed

section \<open>The invariant\<close>

text \<open>What the accept in progress has: \<open>toks n\<close> if the client awaits accept \<open>n\<close>.\<close>

definition awaited :: "(nat \<Rightarrow> nat list) \<Rightarrow> hotplug_client \<Rightarrow> nat multiset" where
  "awaited toks w = (case hc_pc w of Client_Await n \<Rightarrow> mset (toks n) | _ \<Rightarrow> {#})"

definition op_got :: "acceptor \<Rightarrow> nat \<Rightarrow> nat list" where
  "op_got a n = (case ac_ops a n of None \<Rightarrow> [] | Some q \<Rightarrow> got q)"

definition op_result :: "acceptor \<Rightarrow> nat \<Rightarrow> nat list" where
  "op_result a n = (case accept_result n a of None \<Rightarrow> [] | Some (ec, dev) \<Rightarrow> dev_of dev)"

definition silent :: "acceptor \<Rightarrow> bool" where
  "silent a \<longleftrightarrow> ac_registered a = [] \<and> ac_resumptions a = [] \<and> ac_arrived a = []"

definition client_ok :: "hotplug_client \<Rightarrow> bool" where
  "client_ok w \<longleftrightarrow>
     (let a = hc_acceptor w in
      accounted_ok a \<and> registered_ok a \<and> results_ok a
      \<and> (ac_handle a = 0 \<longrightarrow> ac_arrived a = [])
      \<and> (\<forall>i. ac_ops a i \<noteq> None \<longleftrightarrow> i < hc_count w)
      \<and> (\<forall>i q. ac_ops a i = Some q \<longrightarrow> ao_stage q = Finished \<or> hc_pc w = Client_Await i)
      \<and> (\<forall>n. hc_pc w = Client_Await n \<longrightarrow> Suc n = hc_count w)
      \<and> (hc_pc w = Client_Begin \<longrightarrow> a = acceptor_init)
      \<and> (hc_pc w = Client_Ended \<longrightarrow> silent a)
      \<and> held got (ac_ops a) = mset (hc_started w) + mset (hc_lost w) + awaited (op_got a) w
      \<and> mset (result_devs a) = mset (hc_started w) + awaited (op_result a) w
      \<and> mset (refs_of (hc_calls w)) = mset (unrefs_of (hc_calls w))
      \<and> (if hc_pc w = Client_Leave \<or> hc_pc w = Client_Ended then length (hc_lost w) \<le> Suc 0 else hc_lost w = []))"

definition client_inv :: "hotplug_client \<Rightarrow> bool" where
  "client_inv w \<longleftrightarrow> ac_broken (hc_acceptor w) \<or> client_ok w"

lemma client_init_ok: "client_ok client_init"
  using acceptor_account_init registered_init
  by (simp add: client_ok_def client_init_def acceptor_init_def results_ok_def accept_result_def
      held_def result_devs_def awaited_def)

text \<open>An event in the acceptor while the client is at its place.\<close>

lemma awaited_changes:
  assumes ok: "client_ok w" and ch: "changes_one (hc_acceptor w) a"
  shows "held got (ac_ops a) = mset (hc_started w) + mset (hc_lost w) + awaited (op_got a) w
    \<and> mset (result_devs a) = mset (hc_started w) + awaited (op_result a) w
    \<and> (\<forall>i. ac_ops a i \<noteq> None \<longleftrightarrow> i < hc_count w)
    \<and> (\<forall>i q. ac_ops a i = Some q \<longrightarrow> ao_stage q = Finished \<or> hc_pc w = Client_Await i)"
  using ch unfolding changes_one_def
proof
  assume "ac_ops a = ac_ops (hc_acceptor w) \<and> ac_results a = ac_results (hc_acceptor w)"
  then have "op_got a = op_got (hc_acceptor w)" "op_result a = op_result (hc_acceptor w)"
    "result_devs a = result_devs (hc_acceptor w)" "ac_ops a = ac_ops (hc_acceptor w)"
    by (simp_all add: op_got_def op_result_def accept_result_def result_devs_def fun_eq_iff)
  then show ?thesis using ok by (simp add: client_ok_def Let_def)
next
  let ?a = "hc_acceptor w"
  assume "\<exists>n q p. ac_ops ?a n = Some q \<and> ao_stage q \<noteq> Finished \<and> ac_ops a = (ac_ops ?a)(n := Some p)
        \<and> ac_results a = ac_results ?a @ (if ao_stage p = Finished then [(n, fst (accept_resume p))] else [])"
  then obtain n q p where q: "ac_ops ?a n = Some q" "ao_stage q \<noteq> Finished" "ac_ops a = (ac_ops ?a)(n := Some p)"
    "ac_results a = ac_results ?a @ (if ao_stage p = Finished then [(n, fst (accept_resume p))] else [])"
    by blast
  have pc: "hc_pc w = Client_Await n" using ok q(1,2) by (auto simp: client_ok_def Let_def)
  have none: "accept_result n ?a = None" using ok q(1,2) by (simp add: client_ok_def Let_def results_ok_def)
  have fin: "finite (dom (ac_ops ?a))" using ok by (simp add: client_ok_def Let_def accounted_ok_def devices_ok_def)
  have eq: "held got (ac_ops ?a) = mset (hc_started w) + mset (hc_lost w) + mset (got q)"
    "mset (result_devs ?a) = mset (hc_started w)"
    using ok q(1) none by (simp_all add: client_ok_def Let_def awaited_def pc op_got_def op_result_def)
  have "held got (ac_ops a) + mset (got q) = held got (ac_ops ?a) + mset (got p)"
    unfolding q(3) by (rule held_frame [OF fin q(1)])
  then have "held got (ac_ops a) = mset (hc_started w) + mset (hc_lost w) + mset (got p)" by (simp add: eq)
  moreover have "mset (result_devs a) = mset (hc_started w) + mset (op_result a n)"
    using none q(4) by (auto simp: op_result_def accept_result_def map_add_def result_devs_def
        eq(2) [unfolded result_devs_def] split: prod.splits)
  ultimately show ?thesis using ok q(1) by (auto simp: client_ok_def Let_def awaited_def pc op_got_def q(3))
qed

lemma idle_events:
  assumes "acceptor_step descr e a = Some t" "beside_client e \<or> e = Ac_Stop n" "ac_registered a = []"
    and "\<forall>i q. ac_ops a i = Some q \<longrightarrow> ao_stage q = Finished"
  shows "ac_broken t"
proof -
  have ev: "acceptor_event_step descr e a = Some t" using assms(1) by (rule acceptor_stepD)
  have "ao_stage q = st \<Longrightarrow> ac_ops a i = Some q \<Longrightarrow> st = Finished" for i q st using assms(4) by blast
  then show ?thesis using ev assms(2,3)
    by (cases e) (fastforce simp: at_stage_def Let_def split: option.splits if_splits list.splits)+
qed

lemma event_arrived:
  assumes "acceptor_step descr e a = Some t" "beside_client e \<or> e = Ac_Stop n"
    and "ac_registered a = []" "ac_arrived a = []"
  shows "ac_arrived t = []"
proof -
  have ev: "acceptor_event_step descr e a = Some t" using assms(1) by (rule acceptor_stepD)
  show ?thesis using ev assms(2-)
    by (cases e) (auto simp: at_stage_def accept_ready_def accept_check_def accept_lock_def set_stage_def
        finish_accept_def stop_fn_def Let_def split: option.splits if_splits list.splits prod.splits)
qed

lemma acceptor_event_client:
  assumes ok: "client_ok w" and st: "acceptor_step descr e (hc_acceptor w) = Some a"
    and e: "beside_client e \<or> e = Ac_Stop n"
  shows "client_inv (w\<lparr>hc_acceptor := a, hc_stop := b\<rparr>)"
proof (cases "ac_broken a")
  case True
  then show ?thesis by (simp add: client_inv_def)
next
  case False
  let ?a = "hc_acceptor w"
  have nb: "\<not> ac_broken ?a" and ev: "acceptor_event_step descr e ?a = Some a"
    using acceptor_stepD [OF st] by simp_all
  have acc: "accounted_ok ?a" and reg: "registered_ok ?a" and res: "results_ok ?a"
    and fin: "\<forall>i q. ac_ops ?a i = Some q \<longrightarrow> ao_stage q = Finished \<or> hc_pc w = Client_Await i"
    using ok by (simp_all add: client_ok_def Let_def)
  have wait: "waiting_ok ?a" using acc nb by (simp add: accounted_ok_def acceptor_ok_def)
  have ch: "changes_one ?a a" using wait ev e by (rule event_changes_one)
  have h: "same_handle ?a a" by (rule other_events_handle [OF st]) (use e in auto)
  have idle: "hc_pc w \<noteq> Client_Begin" "hc_pc w \<noteq> Client_Ended"
  proof -
    have "ac_registered ?a \<noteq> []" if "hc_pc w = Client_Begin \<or> hc_pc w = Client_Ended"
      using idle_events [OF st e] fin False that by fastforce
    then show "hc_pc w \<noteq> Client_Begin" "hc_pc w \<noteq> Client_Ended"
      using ok by (auto simp: client_ok_def Let_def silent_def acceptor_init_def)
  qed
  have arr: "ac_handle a = 0 \<longrightarrow> ac_arrived a = []"
    using event_arrived [OF st e] ok h reg by (auto simp: client_ok_def Let_def same_handle_def registered_ok_def)
  note aw = awaited_changes [OF ok ch]
  have f: "awaited toks (w\<lparr>hc_acceptor := a, hc_stop := b\<rparr>) = awaited toks w" for toks by (simp add: awaited_def)
  show ?thesis using ok acceptor_account_step [OF acc st] registered_step [OF reg st] changes_one_results [OF res ch]
      idle arr aw
    by (simp add: client_inv_def client_ok_def Let_def f)
qed

lemma present_ops:
  "ac_resumptions s = [] \<Longrightarrow>
   ac_ops (fold (\<lambda>d. listen_callback descr d Device_Arrived) ds s) = ac_ops s
   \<and> ac_results (fold (\<lambda>d. listen_callback descr d Device_Arrived) ds s) = ac_results s"
proof (induction ds arbitrary: s)
  case (Cons d ds)
  then show ?case using Cons.IH [of "listen_callback descr d Device_Arrived s"]
    by (simp add: listen_callback_def on_arrived_def Let_def)
qed simp

lemma listen_client:
  fixes descr :: "nat \<Rightarrow> device_descriptor"
  assumes "r = LIBUSB_SUCCESS \<and> 0 < h \<or> r \<noteq> LIBUSB_SUCCESS \<and> ds = []"
  defines "a \<equiv> client_listen descr (r, h, ds) acceptor_init"
  shows "accounted_ok a \<and> registered_ok a \<and> (ac_handle a = 0 \<longrightarrow> ac_arrived a = [])
    \<and> ac_ops a = (\<lambda>_. None) \<and> ac_results a = []"
proof -
  let ?b = "acceptor_init\<lparr>ac_filter := client_triplet\<rparr>"
  have b: "ac_handle ?b = 0" "ac_arrived ?b = []" "ac_resumptions ?b = []" by (simp_all add: acceptor_init_def)
  have bind: "snd (bind_acceptor client_triplet acceptor_init) = ?b" by (simp add: bind_acceptor_def acceptor_init_def)
  have "run (acceptor_step descr) [Ac_Bind client_triplet, Ac_Listen r h ds] acceptor_init = Some a"
    using assms(1) by (simp add: acceptor_step_def bind a_def client_listen_def) (simp add: acceptor_init_def)
  from accounted_run [OF this] registered_run [OF this] have "accounted_ok a" "registered_ok a" .
  moreover have "ac_handle a = 0 \<longrightarrow> ac_arrived a = []"
    using assms(1) b by (auto simp: a_def client_listen_def bind listen_def Let_def)
  moreover have "ac_ops a = ac_ops ?b \<and> ac_results a = ac_results ?b"
    using present_ops [of ?b descr ds] b by (auto simp: a_def client_listen_def bind listen_def Let_def)
  ultimately show ?thesis by (simp add: acceptor_init_def)
qed

lemma begin_client:
  assumes ok: "client_ok w" and pc: "hc_pc w = Client_Begin"
    and r: "r = LIBUSB_SUCCESS \<and> 0 < h \<or> r \<noteq> LIBUSB_SUCCESS \<and> ds = []"
  shows "client_ok (w\<lparr>hc_acceptor := client_listen descr (r, h, ds) (hc_acceptor w), hc_pc := Client_Loop\<rparr>)"
proof -
  have a: "hc_acceptor w = acceptor_init" using ok pc by (simp add: client_ok_def Let_def)
  note l = listen_client [OF r, of descr]
  have "results_ok (client_listen descr (r, h, ds) acceptor_init)"
    using l by (simp add: results_ok_def accept_result_def)
  then show ?thesis using ok l pc
    by (simp add: client_ok_def Let_def a awaited_def result_devs_def) (simp add: acceptor_init_def)
qed

lemma call_client:
  assumes ok: "client_ok w" and pc: "hc_pc w = Client_Call"
    and st: "acceptor_step descr (Ac_Accept (hc_count w) (hc_stop w)) (hc_acceptor w) = Some a"
  shows "client_ok (w\<lparr>hc_acceptor := a, hc_pc := Client_Await (hc_count w), hc_count := hc_count w + 1\<rparr>)"
proof -
  let ?a = "hc_acceptor w" and ?n = "hc_count w"
  have t: "a = ?a\<lparr>ac_ops := (ac_ops ?a)(?n := Some (fresh_accept (hc_stop w)))\<rparr>" and none: "ac_ops ?a ?n = None"
    using acceptor_stepD(2) [OF st] by (auto split: if_splits)
  have acc: "accounted_ok ?a" and reg: "registered_ok ?a" using ok by (simp_all add: client_ok_def Let_def)
  have fin: "finite (dom (ac_ops ?a))" using acc by (simp add: accounted_ok_def devices_ok_def)
  have "held got (ac_ops a) = held got (ac_ops ?a)"
    using held_update [OF fin, of got ?n "Some (fresh_accept (hc_stop w))"] none
    by (simp add: t got_def fresh_accept_def)
  moreover have "results_ok a"
    using ok none by (auto simp: t client_ok_def Let_def results_ok_def accept_result_def fresh_accept_def)
  ultimately show ?thesis
    using ok none pc acceptor_account_step [OF acc st] registered_step [OF reg st]
    by (auto simp: client_ok_def Let_def awaited_def op_got_def op_result_def t results_ok_def got_def fresh_accept_def
        accept_result_def result_devs_def less_Suc_eq)
qed

lemma dev_of_one: "length (dev_of r) \<le> Suc 0"
  by (simp add: dev_of_def split: option.splits)

lemma got_client:
  assumes ok: "client_ok w" and pc: "hc_pc w = Client_Await n" and r: "accept_result n (hc_acceptor w) = Some r"
  shows "client_ok (client_got n r w)"
proof -
  let ?a = "hc_acceptor w"
  obtain q where q: "ac_ops ?a n = Some q" using ok r
    by (cases "ac_ops ?a n") (auto simp: client_ok_def Let_def results_ok_def)
  then have f: "ao_stage q = Finished" "r = fst (accept_resume q)"
    using ok r by (auto simp: client_ok_def Let_def results_ok_def split: if_splits)
  have keep: "accept_result m (hc_acceptor (client_got n r w)) = accept_result m ?a"
    "hc_acceptor (client_got n r w) = ?a" "hc_count (client_got n r w) = hc_count w" for m
    by (simp_all add: client_got_def start_dev_loop_def split: prod.splits)
  have all: "\<forall>i q. ac_ops ?a i = Some q \<longrightarrow> ao_stage q = Finished"
    using ok f(1) q by (fastforce simp: client_ok_def Let_def pc)
  show ?thesis
  proof (cases "ec_bool (ao_ec q)")
    case True
    then have r: "r = (ao_ec q, device_ref_null)" by (simp add: f(2) accept_resume_def)
    show ?thesis using ok all q True dev_of_one [of "ao_dev q"]
      by (simp add: client_ok_def Let_def pc client_got_def r awaited_def op_got_def op_result_def got_def
          device_ref_dtor_def device_ref_null_def assms(3))
  next
    case False
    then have r: "r = (ec_none, fst (device_ref_copy (ao_dev q)))" by (simp add: f(2) accept_resume_def)
    show ?thesis using ok all q False assms(3)
      by (simp add: client_ok_def Let_def pc client_got_def r awaited_def op_got_def op_result_def got_def
          start_dev_loop_def split_def)
  qed
qed

lemma shutdown_twice: "acceptor_shutdown (acceptor_shutdown a) = acceptor_shutdown a"
proof (cases "ac_handle a = 0")
  case True
  then show ?thesis by (simp add: acceptor_shutdown_def)
next
  case False
  have "ac_handle (acceptor_shutdown a) = 0"
    using cancel_handle [of "deregister (ac_handle a) (a\<lparr>ac_handle := 0\<rparr>)" "ac_resumptions a"] False
    by (simp add: acceptor_shutdown_def Let_def same_handle_def)
  then show ?thesis by (simp add: acceptor_shutdown_def [of "acceptor_shutdown a"])
qed

lemma leave_client:
  assumes ok: "client_ok w" and pc: "hc_pc w = Client_Leave" and nb: "\<not> ac_broken (hc_acceptor w)"
  shows "client_ok (client_leave w)"
proof -
  let ?a = "hc_acceptor w" and ?t = "acceptor_shutdown (hc_acceptor w)"
  have acc: "accounted_ok ?a" and reg: "registered_ok ?a" using ok by (simp_all add: client_ok_def Let_def)
  have st: "acceptor_step descr Ac_Shutdown ?a = Some ?t" for descr using nb by (simp add: acceptor_step_def)
  have wait: "waiting_ok ?a" using acc nb by (simp add: accounted_ok_def acceptor_ok_def)
  have fin: "\<forall>i q. ac_ops ?a i = Some q \<longrightarrow> ao_stage q = Finished"
    using ok by (simp add: client_ok_def Let_def pc)
  have "set (ac_resumptions ?a) = {}"
    using waiting_resumption [OF wait] fin by fastforce
  then have none: "ac_resumptions ?a = []" by simp
  have same: "ac_ops ?t = ac_ops ?a" "ac_results ?t = ac_results ?a" "ac_resumptions ?t = []"
    using none by (simp_all add: acceptor_shutdown_def Let_def)
  have arr: "ac_arrived ?t = []" using ok none by (auto simp: client_ok_def Let_def acceptor_shutdown_def)
  have "silent ?t" using shutdown_handle [OF reg] same(3) arr by (simp add: silent_def)
  then show ?thesis
    using ok same arr pc acceptor_account_step [OF acc st] registered_step [OF reg st]
    by (simp add: client_ok_def Let_def client_leave_def shutdown_twice awaited_def results_ok_def accept_result_def
        result_devs_def)
qed

lemma broken_step:
  "ac_broken (hc_acceptor w) \<Longrightarrow> client_step descr ev w = Some w' \<Longrightarrow> ac_broken (hc_acceptor w')"
  by (cases ev) (auto simp: in_acceptor_def acceptor_step_def client_listen_def bind_acceptor_def listen_def
      present_broken Let_def client_got_def start_dev_loop_def client_leave_def shutdown_twice acceptor_shutdown_def
      fold_cancel_broken split: if_splits client_pc.splits prod.splits)

lemma client_step_ok:
  assumes inv: "client_inv w" and st: "client_step descr ev w = Some w'"
  shows "client_inv w'"
proof (cases "ac_broken (hc_acceptor w)")
  case True
  then show ?thesis using broken_step st by (simp add: client_inv_def)
next
  case False
  then have ok: "client_ok w" using inv by (simp add: client_inv_def)
  have "client_ok w' \<or> client_inv w'"
  proof (cases ev)
    case (Hc_Begin r h ds)
    then show ?thesis using st begin_client [OF ok] by (auto split: if_splits)
  next
    case Hc_Turn
    then show ?thesis using st ok by (auto simp: client_ok_def Let_def awaited_def split: if_splits)
  next
    case Hc_Call
    then show ?thesis using st call_client [OF ok] by (auto simp: in_acceptor_def split: if_splits)
  next
    case Hc_Got
    then show ?thesis using st got_client [OF ok] by (auto split: client_pc.splits)
  next
    case Hc_Leave
    then show ?thesis using st leave_client [OF ok _ False] by (auto split: if_splits)
  next
    case Hc_Stop
    have "client_ok (w\<lparr>hc_stop := True\<rparr>)" using ok by (simp add: client_ok_def Let_def awaited_def)
    then show ?thesis using st Hc_Stop acceptor_event_client [OF ok]
      by (auto simp: in_acceptor_def split: if_splits client_pc.splits)
  next
    case (Hc_Acceptor e)
    then obtain a where "acceptor_step descr e (hc_acceptor w) = Some a" "beside_client e" "w' = w\<lparr>hc_acceptor := a\<rparr>"
      using st by (auto simp: in_acceptor_def split: if_splits)
    then show ?thesis using acceptor_event_client [OF ok, of descr e a _ "hc_stop w"] by simp
  qed
  then show ?thesis by (auto simp: client_inv_def)
qed

interpretation client_machine: machine "client_step descr" client_inv
  by unfold_locales (rule client_step_ok)

lemma client_init_inv: "client_inv client_init"
  using client_init_ok by (simp add: client_inv_def)

lemmas client_run = client_machine.run_inv [OF _ client_init_inv]

section \<open>Properties\<close>

text \<open>C7: when the client has ended, every device that arrived was handed to exactly one \<open>dev_loop\<close>, or
  left the store again (it left, or \<open>shutdown\<close> cleared the store), or was lost with the one accept that a
  stop cancelled after the delivery, as long as no late stop resumed a coroutine that had ended;
  nothing is registered with libusb, nobody waits and nothing is stored; and the references on
  devices that are not given back are those the device loops own, one each, and those \<open>erase\<close> wrote
  over.\<close>

theorem client_hands_on_every_device:
  assumes "run (client_step descr) es client_init = Some w" "hc_pc w = Client_Ended" "\<not> ac_broken (hc_acceptor w)"
  shows "mset (ac_seen (hc_acceptor w)) = mset (hc_started w) + mset (hc_lost w) + mset (ac_gone (hc_acceptor w))
    \<and> length (hc_lost w) \<le> 1
    \<and> ac_registered (hc_acceptor w) = [] \<and> ac_resumptions (hc_acceptor w) = [] \<and> ac_arrived (hc_acceptor w) = []
    \<and> mset (refs_of (ac_calls (hc_acceptor w) @ hc_calls w)) =
        mset (unrefs_of (ac_calls (hc_acceptor w) @ hc_calls w)) + mset (hc_started w)
          + mset (ac_overwritten (hc_acceptor w))"
proof -
  let ?a = "hc_acceptor w"
  have ok: "client_ok w" using client_run [OF assms(1)] assms(3) by (simp add: client_inv_def)
  then have dev: "seen_ok ?a" "refs_ok {#} ?a" and quiet: "silent ?a"
    and held: "held got (ac_ops ?a) = mset (hc_started w) + mset (hc_lost w)"
    and res: "mset (result_devs ?a) = mset (hc_started w)"
    and fin: "\<forall>i q. ac_ops ?a i = Some q \<longrightarrow> ao_stage q = Finished"
    using assms(2) by (simp_all add: client_ok_def Let_def accounted_ok_def devices_ok_def awaited_def)
  have "held holds (ac_ops ?a) = {#}"
    unfolding held_def using fin by (intro sum.neutral) (auto simp: holds_def)
  then show ?thesis using ok dev quiet held res assms(2)
    by (simp add: client_ok_def Let_def seen_ok_def refs_ok_def silent_def)
qed

text \<open>Two devices arrive, the first is taken from the store, the second is waited for; then stop.\<close>

definition ex_client :: "client_event list" where
  "ex_client = [Hc_Begin 0 1 [7], Hc_Turn, Hc_Call, Hc_Acceptor (Ac_Ready 0), Hc_Acceptor (Ac_Resume 0), Hc_Got,
     Hc_Turn, Hc_Call, Hc_Acceptor (Ac_Ready 1), Hc_Acceptor (Ac_Check 1), Hc_Acceptor (Ac_Lock 1),
     Hc_Acceptor (Ac_Arrive 8), Hc_Acceptor Ac_Dispatch, Hc_Got,
     Hc_Turn, Hc_Call, Hc_Acceptor (Ac_Ready 2), Hc_Acceptor (Ac_Check 2), Hc_Acceptor (Ac_Lock 2)]"

lemma ex_client_run:
  "\<exists>w. run (client_step ex_descr) ex_client client_init = Some w
     \<and> (\<not> ac_broken (hc_acceptor w) \<and> hc_started w = [7, 8] \<and> ac_resumptions (hc_acceptor w) = [2])"
  unfolding ex_client_def client_init_def acceptor_init_def by (rule run_satD) code_simp

lemma ex_client_end:
  "\<exists>w. run (client_step ex_descr) (ex_client @ [Hc_Stop, Hc_Acceptor Ac_Dispatch, Hc_Got, Hc_Leave]) client_init = Some w
     \<and> (\<not> ac_broken (hc_acceptor w) \<and> hc_started w = [7, 8] \<and> (case hc_pc w of Client_Ended \<Rightarrow> True | _ \<Rightarrow> False))"
  unfolding ex_client_def client_init_def acceptor_init_def by (rule run_satD) code_simp


theorem client_hands_on_every_device_witness:
  "\<exists>w. run (client_step ex_descr) (ex_client @ [Hc_Stop, Hc_Acceptor Ac_Dispatch, Hc_Got, Hc_Leave]) client_init = Some w
     \<and> hc_started w = [7, 8] \<and> ac_registered (hc_acceptor w) = []"
proof -
  obtain w where w: "run (client_step ex_descr) (ex_client @ [Hc_Stop, Hc_Acceptor Ac_Dispatch, Hc_Got, Hc_Leave]) client_init = Some w"
      "\<not> ac_broken (hc_acceptor w)" "hc_started w = [7, 8]"
      and pc: "case hc_pc w of Client_Ended \<Rightarrow> True | _ \<Rightarrow> False"
    using ex_client_end by blast
  have "hc_pc w = Client_Ended" using pc by (cases "hc_pc w") simp_all
  from client_hands_on_every_device [OF w(1) this w(2)] show ?thesis using w(1,3) by blast
qed

text \<open>C33: a stop ends a client that waits: its accept is cancelled and resumed, the loop is left and
  the acceptor shut down.\<close>

theorem stop_ends_the_client:
  assumes "run (client_step descr) es client_init = Some w" "\<not> ac_broken (hc_acceptor w)"
    and "hc_pc w = Client_Await n" "n \<in> set (ac_resumptions (hc_acceptor w))" "ac_posted (hc_acceptor w) = []"
    and "\<not> hc_stop w" "map_option ao_stop (ac_ops (hc_acceptor w) n) = Some False"
  shows "\<exists>w'. run (client_step descr) [Hc_Stop, Hc_Acceptor Ac_Dispatch, Hc_Got, Hc_Leave] w = Some w'
    \<and> hc_pc w' = Client_Ended \<and> silent (hc_acceptor w') \<and> \<not> ac_broken (hc_acceptor w')
    \<and> hc_started w' = hc_started w \<and> hc_lost w' = []"
proof -
  let ?a = "hc_acceptor w"
  have ok: "client_ok w" using client_run [OF assms(1)] assms(2) by (simp add: client_inv_def)
  have wait: "waiting_ok ?a" using ok assms(2) by (simp add: client_ok_def Let_def accounted_ok_def acceptor_ok_def)
  obtain q where q: "ac_ops ?a n = Some q" "ao_stage q = Suspended" "ao_ctx q" "m_dev (ao_dev q) = None"
    by (rule waiting_resumption [OF wait assms(4)])
  have none: "accept_result n ?a = None" and lost: "hc_lost w = []"
    using ok q assms(3) by (simp_all add: client_ok_def Let_def results_ok_def)
  have bool: "ec_bool canceled" by (simp add: canceled_def)
  let ?q = "q\<lparr>ao_stop := True, ao_ec := canceled, ao_posts := ao_posts q + 1\<rparr>"
  let ?w = "\<lambda>es. run (client_step descr) es w"
  obtain u where u: "?w [Hc_Stop, Hc_Acceptor Ac_Dispatch, Hc_Got] = Some u" "hc_pc u = Client_Leave"
      "\<not> ac_broken (hc_acceptor u)" "hc_started u = hc_started w" "hc_lost u = []"
    using assms(2,3,5-7) q none lost bool
    by (simp add: in_acceptor_def acceptor_step_def stop_fn_def Let_def finish_accept_def accept_resume_def
        accept_result_def map_add_def client_got_def got_def split: option.splits)
  have run: "run (client_step descr) (es @ [Hc_Stop, Hc_Acceptor Ac_Dispatch, Hc_Got]) client_init = Some u"
    unfolding run_append using assms(1) u(1) by simp
  then have "client_ok u" using client_run [OF run] u(3) by (simp add: client_inv_def)
  from leave_client [OF this u(2,3)] have "client_ok (client_leave u)" .
  moreover have "?w ([Hc_Stop, Hc_Acceptor Ac_Dispatch, Hc_Got] @ [Hc_Leave]) = Some (client_leave u)"
    unfolding run_append using u(1,2) by simp
  moreover have "\<not> ac_broken (hc_acceptor (client_leave u))"
    using u(3) by (simp add: client_leave_def shutdown_twice acceptor_shutdown_def Let_def fold_cancel_broken)
  ultimately show ?thesis using u(4,5) by (simp add: client_ok_def Let_def client_leave_def)
qed

text \<open>An accept that waits though stop was requested.\<close>

definition waits_for_ever :: "nat \<Rightarrow> hotplug_client \<Rightarrow> bool" where
  "waits_for_ever n w \<longleftrightarrow> hc_stop w \<and> hc_pc w = Client_Await n
     \<and> map_option ao_stage (ac_ops (hc_acceptor w) n) = Some Suspended
     \<and> n \<notin> set (ac_posted (hc_acceptor w)) \<and> accept_result n (hc_acceptor w) = None"

lemma waits_for_ever_step:
  assumes wt: "waits_for_ever n w" and st: "client_step descr ev w = Some w'"
    and ev: "\<And>d. ev \<noteq> Hc_Acceptor (Ac_Arrive d)"
  shows "waits_for_ever n w'"
proof -
  obtain e a where e: "ev = Hc_Acceptor e" "beside_client e" "acceptor_step descr e (hc_acceptor w) = Some a"
    and w': "w' = w\<lparr>hc_acceptor := a\<rparr>"
    using wt st by (cases ev) (auto simp: waits_for_ever_def in_acceptor_def split: if_splits)
  have "acceptor_event_step descr e (hc_acceptor w) = Some a"
    using e(3) by (rule acceptor_stepD)
  then show ?thesis using e(1,2) ev wt
    by (cases e) (auto simp: waits_for_ever_def w' at_stage_def accept_ready_def accept_check_def accept_lock_def
        set_stage_def take_back_def finish_accept_def listen_callback_def on_left_def accept_result_def map_add_def Let_def
        split: option.splits if_splits list.splits prod.splits)
qed

lemma waits_for_ever_run:
  "run (client_step descr) es w = Some w' \<Longrightarrow> waits_for_ever n w \<Longrightarrow>
   (\<And>d. Hc_Acceptor (Ac_Arrive d) \<notin> set es) \<Longrightarrow> waits_for_ever n w'"
proof (induction rule: run_induct)
  case (Cons e es w u w')
  have "waits_for_ever n u" using waits_for_ever_step [OF Cons.prems(1) Cons(1)] Cons.prems(2) by auto
  then show ?case using Cons.IH Cons.prems(2) by simp
qed

text \<open>a stop between the test of the stop token and the mutex in \<open>await_suspend\<close> is lost: the accept
  begins to wait all the same, and unless another device arrives the client never goes on, though
  stop was requested.\<close>

theorem lost_stop_hangs_the_client:
  assumes "run (client_step descr) es client_init = Some w" "\<not> ac_broken (hc_acceptor w)"
    and "hc_pc w = Client_Await n" "\<not> hc_stop w" "ac_arrived (hc_acceptor w) = []"
    and "ac_ops (hc_acceptor w) n = Some q" "ao_stage q = Locking" "\<not> ao_stop q"
  shows "\<exists>u. run (client_step descr) [Hc_Stop, Hc_Acceptor (Ac_Lock n)] w = Some u
    \<and> (\<forall>fs w'. run (client_step descr) fs u = Some w' \<longrightarrow> (\<forall>d. Hc_Acceptor (Ac_Arrive d) \<notin> set fs) \<longrightarrow>
          hc_stop w' \<and> hc_pc w' = Client_Await n)"
proof -
  let ?a = "hc_acceptor w"
  have ok: "client_ok w" using client_run [OF assms(1)] assms(2) by (simp add: client_inv_def)
  have wait: "waiting_ok ?a" using ok assms(2) by (simp add: client_ok_def Let_def accounted_ok_def acceptor_ok_def)
  have "op_ok (ac_resumptions ?a) (ac_posted ?a) n q" using wait assms(6) by (rule waiting_okD)
  then have q: "\<not> ao_ctx q" "n \<notin> set (ac_posted ?a)" using assms(7) by (simp_all add: op_ok_def count_list_0_iff)
  have none: "accept_result n ?a = None" using ok assms(6,7) by (simp add: client_ok_def Let_def results_ok_def)
  obtain u where u: "run (client_step descr) [Hc_Stop, Hc_Acceptor (Ac_Lock n)] w = Some u" "waits_for_ever n u"
    using assms(2-8) q none
    by (simp add: in_acceptor_def acceptor_step_def stop_fn_def at_stage_def accept_lock_def set_stage_def
        accept_result_def waits_for_ever_def)
  have "hc_stop w' \<and> hc_pc w' = Client_Await n"
    if "run (client_step descr) fs u = Some w'" "\<forall>d. Hc_Acceptor (Ac_Arrive d) \<notin> set fs" for fs w'
  proof -
    have "waits_for_ever n w'" using waits_for_ever_run [OF that(1) u(2)] that(2) by blast
    then show ?thesis by (simp add: waits_for_ever_def)
  qed
  then show ?thesis using u(1) by blast
qed

lemma ex_client_waits:
  "\<exists>w. run (client_step ex_descr) ex_client client_init = Some w
     \<and> (\<not> ac_broken (hc_acceptor w) \<and> (case hc_pc w of Client_Await n \<Rightarrow> n = 2 | _ \<Rightarrow> False) \<and> \<not> hc_stop w
        \<and> ac_resumptions (hc_acceptor w) = [2] \<and> ac_posted (hc_acceptor w) = []
        \<and> map_option ao_stop (ac_ops (hc_acceptor w) 2) = Some False \<and> hc_started w = [7, 8])"
  unfolding ex_client_def client_init_def acceptor_init_def by (rule run_satD) code_simp

theorem stop_ends_the_client_witness:
  "\<exists>w w'. run (client_step ex_descr) ex_client client_init = Some w
     \<and> run (client_step ex_descr) [Hc_Stop, Hc_Acceptor Ac_Dispatch, Hc_Got, Hc_Leave] w = Some w'
     \<and> hc_pc w' = Client_Ended \<and> hc_started w' = [7, 8]"
proof -
  obtain w where w: "run (client_step ex_descr) ex_client client_init = Some w" "\<not> ac_broken (hc_acceptor w)"
      "\<not> hc_stop w" "ac_resumptions (hc_acceptor w) = [2]" "ac_posted (hc_acceptor w) = []"
      "map_option ao_stop (ac_ops (hc_acceptor w) 2) = Some False" "hc_started w = [7, 8]"
      and pc: "case hc_pc w of Client_Await n \<Rightarrow> n = 2 | _ \<Rightarrow> False"
    using ex_client_waits by blast
  have "hc_pc w = Client_Await 2" using pc by (cases "hc_pc w") simp_all
  from stop_ends_the_client [OF w(1,2) this _ w(5,3,6)] show ?thesis using w(1,4,7) by fastforce
qed

text \<open>The third accept is about to take the mutex.\<close>

lemma ex_client_locking:
  "\<exists>w. run (client_step ex_descr) (butlast ex_client) client_init = Some w
     \<and> (\<not> ac_broken (hc_acceptor w) \<and> (case hc_pc w of Client_Await n \<Rightarrow> n = 2 | _ \<Rightarrow> False) \<and> \<not> hc_stop w
        \<and> ac_arrived (hc_acceptor w) = [] \<and> map_option ao_stop (ac_ops (hc_acceptor w) 2) = Some False
        \<and> (case ac_ops (hc_acceptor w) 2 of None \<Rightarrow> False
           | Some q \<Rightarrow> (case ao_stage q of Locking \<Rightarrow> True | _ \<Rightarrow> False)))"
  unfolding ex_client_def client_init_def acceptor_init_def by (rule run_satD) code_simp

theorem lost_stop_hangs_the_client_witness:
  "\<exists>w u. run (client_step ex_descr) (butlast ex_client) client_init = Some w
     \<and> run (client_step ex_descr) [Hc_Stop, Hc_Acceptor (Ac_Lock 2)] w = Some u \<and> hc_stop u
     \<and> hc_pc u = Client_Await 2"
proof -
  obtain w where w: "run (client_step ex_descr) (butlast ex_client) client_init = Some w"
      "\<not> ac_broken (hc_acceptor w)" "\<not> hc_stop w" "ac_arrived (hc_acceptor w) = []"
      "map_option ao_stop (ac_ops (hc_acceptor w) 2) = Some False"
      and pc: "case hc_pc w of Client_Await n \<Rightarrow> n = 2 | _ \<Rightarrow> False"
      and st: "case ac_ops (hc_acceptor w) 2 of None \<Rightarrow> False
           | Some q \<Rightarrow> (case ao_stage q of Locking \<Rightarrow> True | _ \<Rightarrow> False)"
    using ex_client_locking by blast
  have pc: "hc_pc w = Client_Await 2" using pc by (cases "hc_pc w") simp_all
  obtain q where q: "ac_ops (hc_acceptor w) 2 = Some q" "\<not> ao_stop q" using w(5) by auto
  then have "ao_stage q = Locking" using st by (cases "ao_stage q") simp_all
  from lost_stop_hangs_the_client [OF w(1,2) pc w(3,4) q(1) this q(2)]
  obtain u where "run (client_step ex_descr) [Hc_Stop, Hc_Acceptor (Ac_Lock 2)] w = Some u"
    "run (client_step ex_descr) [] u = Some u \<longrightarrow> hc_stop u \<and> hc_pc u = Client_Await 2"
    by (metis empty_iff list.set(1))
  then show ?thesis using w(1) by auto
qed

end
