(* ===== verification/Flags.thy ===== *)
theory Flags
  imports Prelude
begin

unbundle bit_operations_syntax

text \<open>
  Flags (\<open>detail/flag_type.hpp\<close>) and those of hotplug events (\<open>hotplug/flags.hpp\<close>), and what they
  are: sets of bits.  The underlying type of libusb's hotplug enumerations has 32 bits.
\<close>

section \<open>flag_type\<close>

record flag_type =
  bits :: "32 word"

definition flag_default :: flag_type where
  "flag_default = \<lparr>bits = 0\<rparr>"

definition make_flag :: "32 word \<Rightarrow> flag_type" where
  "make_flag b = \<lparr>bits = b\<rparr>"

definition flag_not :: "flag_type \<Rightarrow> flag_type" where
  "flag_not f = make_flag (NOT (bits f))"

definition flag_and :: "flag_type \<Rightarrow> flag_type \<Rightarrow> flag_type" where
  "flag_and a b = make_flag (bits a AND bits b)"

definition flag_or :: "flag_type \<Rightarrow> flag_type \<Rightarrow> flag_type" where
  "flag_or a b = make_flag (bits a OR bits b)"

definition flag_xor :: "flag_type \<Rightarrow> flag_type \<Rightarrow> flag_type" where
  "flag_xor a b = make_flag (bits a XOR bits b)"

definition flag_and_assign :: "flag_type \<Rightarrow> flag_type \<Rightarrow> flag_type" where
  "flag_and_assign this other = this\<lparr>bits := bits this AND bits other\<rparr>"

definition flag_or_assign :: "flag_type \<Rightarrow> flag_type \<Rightarrow> flag_type" where
  "flag_or_assign this other = this\<lparr>bits := bits this OR bits other\<rparr>"

definition flag_xor_assign :: "flag_type \<Rightarrow> flag_type \<Rightarrow> flag_type" where
  "flag_xor_assign this other = this\<lparr>bits := bits this XOR bits other\<rparr>"

definition flag_eq :: "flag_type \<Rightarrow> flag_type \<Rightarrow> bool" where
  "flag_eq a b \<longleftrightarrow> bits a = bits b"

definition flag_neq :: "flag_type \<Rightarrow> flag_type \<Rightarrow> bool" where
  "flag_neq a b \<longleftrightarrow> bits a \<noteq> bits b"

section \<open>hotplug/flags.hpp\<close>

abbreviation LIBUSB_HOTPLUG_EVENT_DEVICE_ARRIVED :: "32 word" where
  "LIBUSB_HOTPLUG_EVENT_DEVICE_ARRIVED \<equiv> 1"

abbreviation LIBUSB_HOTPLUG_EVENT_DEVICE_LEFT :: "32 word" where
  "LIBUSB_HOTPLUG_EVENT_DEVICE_LEFT \<equiv> 2"

abbreviation LIBUSB_HOTPLUG_NO_FLAGS :: "32 word" where "LIBUSB_HOTPLUG_NO_FLAGS \<equiv> 0"
abbreviation LIBUSB_HOTPLUG_ENUMERATE :: "32 word" where "LIBUSB_HOTPLUG_ENUMERATE \<equiv> 1"

type_synonym event_type = flag_type

definition arrived :: event_type where
  "arrived = make_flag LIBUSB_HOTPLUG_EVENT_DEVICE_ARRIVED"

definition left :: event_type where
  "left = make_flag LIBUSB_HOTPLUG_EVENT_DEVICE_LEFT"

definition flag_none :: flag_type where
  "flag_none = make_flag LIBUSB_HOTPLUG_NO_FLAGS"

definition flag_enumerate :: flag_type where
  "flag_enumerate = make_flag LIBUSB_HOTPLUG_ENUMERATE"

section \<open>Flags as sets\<close>

definition flag_set :: "flag_type \<Rightarrow> nat set" where
  "flag_set f = {n. n < 32 \<and> bit (bits f) n}"

lemma flag_set_operations:
  "flag_set (flag_not a) = {..<32} - flag_set a"
  "flag_set (flag_and a b) = flag_set a \<inter> flag_set b"
  "flag_set (flag_or a b) = flag_set a \<union> flag_set b"
  "flag_set (flag_xor a b) = (flag_set a - flag_set b) \<union> (flag_set b - flag_set a)"
  by (auto simp: flag_set_def flag_not_def flag_and_def flag_or_def flag_xor_def make_flag_def
      bit_not_iff bit_and_iff bit_or_iff bit_xor_iff)

lemma flag_assign_operations:
  "flag_and_assign a b = flag_and a b" "flag_or_assign a b = flag_or a b" "flag_xor_assign a b = flag_xor a b"
  by (simp_all add: flag_and_assign_def flag_and_def flag_or_assign_def flag_or_def flag_xor_assign_def
      flag_xor_def make_flag_def)

lemma flag_set_inject: "flag_set a = flag_set b \<longleftrightarrow> a = b"
proof
  assume eq: "flag_set a = flag_set b"
  have "bits a = bits b"
  proof (rule bit_word_eqI)
    fix n assume "n < LENGTH(32)"
    then show "bit (bits a) n \<longleftrightarrow> bit (bits b) n"
      using eq by (auto simp: flag_set_def set_eq_iff)
  qed
  then show "a = b" by simp
qed simp

lemma flag_set_constants:
  "flag_set flag_default = {}" "flag_set flag_none = {}" "flag_set arrived = {0}" "flag_set left = {1}"
  "flag_set flag_enumerate = {0}"
  by (auto simp: flag_set_def flag_default_def flag_none_def arrived_def left_def flag_enumerate_def make_flag_def
      bit_1_iff bit_2_iff)

text \<open>a value of \<open>flag_type\<close> is a set of bits: the operators are complement, intersection, union
  and symmetric difference, the assigning operators agree with them, equality is equality of the
  sets, and the constants of \<open>flags.hpp\<close> are the empty set and distinct single bits.\<close>

theorem flag_type_is_a_set:
  "flag_set (flag_not a) = {..<32} - flag_set a
   \<and> flag_set (flag_and_assign a b) = flag_set a \<inter> flag_set b \<and> flag_and_assign a b = flag_and a b
   \<and> flag_set (flag_or_assign a b) = flag_set a \<union> flag_set b \<and> flag_or_assign a b = flag_or a b
   \<and> flag_set (flag_xor_assign a b) = (flag_set a - flag_set b) \<union> (flag_set b - flag_set a)
   \<and> flag_xor_assign a b = flag_xor a b
   \<and> (flag_eq a b \<longleftrightarrow> flag_set a = flag_set b) \<and> (flag_neq a b \<longleftrightarrow> flag_set a \<noteq> flag_set b)
   \<and> flag_set flag_default = {} \<and> flag_set flag_none = {}
   \<and> flag_set arrived = {0} \<and> flag_set left = {1} \<and> flag_set flag_enumerate = {0}"
  unfolding flag_assign_operations flag_set_operations flag_set_constants flag_set_inject
  by (cases a; cases b) (simp add: flag_eq_def flag_neq_def)

end
