(* ===== verification/Oneshot.thy ===== *)
theory Oneshot
  imports Device Flags
begin

text \<open>
  The one-shot hotplug operation: the awaitable (\<open>hotplug/detail/hotplug_awaitable.hpp\<close>) and the
  coroutine with its stop callback (\<open>hotplug/oneshot_hotplug.hpp\<close>), as a machine driven by libusb,
  by the stop source and by the executor.
\<close>

section \<open>State\<close>

text \<open>
  \<open>op_result\<close>, the callback handle, whether the \<open>resumption_t\<close> is set, and where the coroutine is.
  \<open>os_registered\<close>: libusb knows the callback; \<open>os_pending\<close>: continuations posted and not yet run;
  \<open>os_posts\<close>: posted at all; \<open>os_log\<close>: the events the callback was called with.
\<close>

datatype oneshot_stage = Os_Checking | Os_Registering | Os_Suspended | Os_Resumable | Os_Finished

record oneshot =
  os_ec :: error_code
  os_event :: event_type
  os_dev :: device_ref
  os_handle :: int
  os_res :: bool
  os_stage :: oneshot_stage
  os_stop :: bool
  os_registered :: bool
  os_pending :: nat
  os_posts :: nat
  os_log :: "(32 word \<times> nat) list"
  os_result :: "(error_code \<times> event_type \<times> device_ref) option"
  os_broken :: bool

definition oneshot_init :: "bool \<Rightarrow> oneshot" where
  "oneshot_init stop = \<lparr>os_ec = ec_none, os_event = flag_default, os_dev = device_ref_null, os_handle = 0,
     os_res = False, os_stage = Os_Checking, os_stop = stop, os_registered = False, os_pending = 0,
     os_posts = 0, os_log = [], os_result = None, os_broken = False\<rparr>"

definition oneshot_post :: "oneshot \<Rightarrow> oneshot" where
  "oneshot_post s = s\<lparr>os_pending := os_pending s + 1, os_posts := os_posts s + 1\<rparr>"

section \<open>hotplug_awaitable\<close>

definition hotplug_await_ready :: "oneshot \<Rightarrow> bool" where
  "hotplug_await_ready s = False"

text \<open>The callback; it returns 1, so libusb deregisters it.\<close>

definition hotplug_callback :: "32 word \<Rightarrow> nat \<Rightarrow> oneshot \<Rightarrow> oneshot \<times> int" where
  "hotplug_callback ev d s =
     (let s = s\<lparr>os_event := make_flag ev\<rparr>;
          s = s\<lparr>os_dev := fst (device_ref_assign (os_dev s) \<lparr>m_dev = Some d\<rparr>)\<rparr>
      in (oneshot_post s, 1))"

definition libusb_calls_back :: "32 word \<Rightarrow> nat \<Rightarrow> oneshot \<Rightarrow> oneshot" where
  "libusb_calls_back ev d s =
     (case hotplug_callback ev d (s\<lparr>os_log := os_log s @ [(ev, d)]\<rparr>) of
        (s, r) \<Rightarrow> if r = 0 then s else s\<lparr>os_registered := False\<rparr>)"

text \<open>
  \<open>await_suspend\<close> in two parts, since stop can come between; \<open>True\<close>: it returns the awaiting
  coroutine.  The registration is given by its result, the handle and the event the callback is
  called with while it registers, if there is one.
\<close>

definition hotplug_check :: "bool \<Rightarrow> oneshot \<Rightarrow> bool \<times> oneshot" where
  "hotplug_check stop_requested s =
     (if stop_requested then (True, s\<lparr>os_ec := std_make_error_code Operation_Canceled\<rparr>) else (False, s))"

definition hotplug_register :: "int \<Rightarrow> int \<Rightarrow> (32 word \<times> nat) option \<Rightarrow> oneshot \<Rightarrow> bool \<times> oneshot" where
  "hotplug_register r handle present s =
     (let s = s\<lparr>os_res := True\<rparr> in
      if r \<noteq> LIBUSB_SUCCESS then (True, s\<lparr>os_ec := make_usb_error_code r\<rparr>)
      else
        let s = s\<lparr>os_handle := handle, os_registered := True\<rparr> in
        (False, case present of None \<Rightarrow> s | Some (ev, d) \<Rightarrow> libusb_calls_back ev d s))"

definition hotplug_await_resume :: "oneshot \<Rightarrow> error_code \<times> event_type \<times> device_ref" where
  "hotplug_await_resume s =
     (if ec_bool (os_ec s) then (os_ec s, flag_default, device_ref_null)
      else (ec_none, os_event s, fst (device_ref_copy (os_dev s))))"

section \<open>oneshot_hotplug\<close>

definition oneshot_stop_cb :: "oneshot \<Rightarrow> oneshot" where
  "oneshot_stop_cb s =
     (if os_handle s = 0 then s
      else oneshot_post (s\<lparr>os_registered := False, os_ec := std_make_error_code Operation_Canceled\<rparr>))"

definition oneshot_finish :: "oneshot \<Rightarrow> oneshot" where
  "oneshot_finish s = s\<lparr>os_result := Some (hotplug_await_resume s), os_stage := Os_Finished\<rparr>"

datatype oneshot_event =
    Os_Check | Os_Register int int "(32 word \<times> nat) option" | Os_Event "32 word" nat | Os_Stop
  | Os_Resume | Os_Dispatch

fun oneshot_event_step :: "oneshot_event \<Rightarrow> oneshot \<Rightarrow> oneshot option" where
  "oneshot_event_step Os_Check s =
     (if os_stage s = Os_Checking then
        (case hotplug_check (os_stop s) s of
           (goes_on, s) \<Rightarrow> Some (s\<lparr>os_stage := if goes_on then Os_Resumable else Os_Registering\<rparr>))
      else None)"
| "oneshot_event_step (Os_Register r handle present) s =
     (if os_stage s = Os_Registering \<and> (r = LIBUSB_SUCCESS \<longrightarrow> 0 < handle) then
        (case hotplug_register r handle present s of
           (goes_on, s) \<Rightarrow> Some (s\<lparr>os_stage := if goes_on then Os_Resumable else Os_Suspended\<rparr>))
      else None)"
| "oneshot_event_step (Os_Event ev d) s =
     (if os_registered s then Some (libusb_calls_back ev d s) else None)"
| "oneshot_event_step Os_Stop s =
     (if os_stop s \<or> os_stage s = Os_Finished then None else Some (oneshot_stop_cb (s\<lparr>os_stop := True\<rparr>)))"
| "oneshot_event_step Os_Resume s =
     (if os_stage s = Os_Resumable then Some (oneshot_finish s) else None)"
| "oneshot_event_step Os_Dispatch s =
     (if os_pending s = 0 then None
      else
        let s = s\<lparr>os_pending := os_pending s - 1\<rparr> in
        if os_stage s = Os_Suspended then Some (oneshot_finish s) else Some (s\<lparr>os_broken := True\<rparr>))"

definition oneshot_step :: "oneshot_event \<Rightarrow> oneshot \<Rightarrow> oneshot option" where
  "oneshot_step e s = (if os_broken s then None else oneshot_event_step e s)"

lemmas oneshot_defs = hotplug_callback_def libusb_calls_back_def hotplug_check_def hotplug_register_def
  hotplug_await_resume_def oneshot_stop_cb_def oneshot_finish_def oneshot_post_def device_ref_assign_def

section \<open>Invariant\<close>

definition oneshot_ok :: "oneshot \<Rightarrow> bool" where
  "oneshot_ok s \<longleftrightarrow>
     (case os_stage s of
        Os_Suspended \<Rightarrow> (os_registered s \<longleftrightarrow> os_posts s = 0) \<and> os_pending s = os_posts s \<and> os_handle s \<noteq> 0
          \<and> length (os_log s) \<le> 1 \<and> (os_registered s \<longrightarrow> os_log s = [])
          \<and> (ec_bool (os_ec s) \<longrightarrow> os_stop s)
          \<and> (\<not> ec_bool (os_ec s) \<longrightarrow> os_posts s = length (os_log s))
          \<and> (\<forall>ev d. os_log s = [(ev, d)] \<longrightarrow> os_event s = make_flag ev \<and> m_dev (os_dev s) = Some d)
      | Os_Finished \<Rightarrow> \<not> os_registered s \<and> length (os_log s) \<le> 1
          \<and> os_pending s \<le> os_posts s - 1
          \<and> (\<exists>r. os_result s = Some r \<and> (ec_bool (fst r) \<or>
                (\<exists>ev d. os_log s = [(ev, d)] \<and> r = (ec_none, make_flag ev, \<lparr>m_dev = Some d\<rparr>))))
      | _ \<Rightarrow> \<not> os_registered s \<and> os_posts s = 0 \<and> os_pending s = 0 \<and> os_handle s = 0 \<and> os_log s = []
          \<and> (os_stage s = Os_Resumable \<longleftrightarrow> ec_bool (os_ec s)))
     \<and> os_posts s \<le> (if os_stop s then 2 else 1)
     \<and> (os_broken s \<longrightarrow> os_stop s \<and> os_posts s = 2)
     \<and> (os_stage s \<noteq> Os_Finished \<longrightarrow> os_result s = None)"

lemma oneshot_init_ok: "oneshot_ok (oneshot_init b)"
  by (simp add: oneshot_ok_def oneshot_init_def)

lemma oneshot_check_ok:
  assumes "oneshot_ok s" "oneshot_event_step Os_Check s = Some t" "\<not> os_broken s"
  shows "oneshot_ok t"
  using assms by (auto simp: oneshot_ok_def hotplug_check_def split: if_splits)

lemma oneshot_register_ok:
  assumes "oneshot_ok s" "oneshot_event_step (Os_Register r h p) s = Some t" "\<not> os_broken s"
  shows "oneshot_ok t"
  using assms by (cases p) (auto simp: oneshot_ok_def oneshot_defs Let_def split: if_splits)

lemma oneshot_callback_ok:
  assumes "oneshot_ok s" "oneshot_event_step (Os_Event ev d) s = Some t" "\<not> os_broken s"
  shows "oneshot_ok t"
  using assms by (cases "os_stage s") (auto simp: oneshot_ok_def oneshot_defs Let_def split: if_splits)

lemma oneshot_stop_ok:
  assumes "oneshot_ok s" "oneshot_event_step Os_Stop s = Some t" "\<not> os_broken s"
  shows "oneshot_ok t"
  using assms by (cases "os_stage s") (auto simp: oneshot_ok_def oneshot_stop_cb_def oneshot_post_def split: if_splits)

lemma oneshot_resume_ok:
  assumes "oneshot_ok s" "oneshot_event_step Os_Resume s = Some t" "\<not> os_broken s"
  shows "oneshot_ok t"
  using assms by (auto simp: oneshot_ok_def oneshot_finish_def hotplug_await_resume_def split: if_splits)

lemma oneshot_dispatch_ok:
  assumes ok: "oneshot_ok s" and st: "oneshot_event_step Os_Dispatch s = Some t" and nb: "\<not> os_broken s"
  shows "oneshot_ok t"
proof (cases "os_stage s = Os_Suspended")
  case True
  have p: "os_pending s \<noteq> 0" and t: "t = oneshot_finish (s\<lparr>os_pending := os_pending s - 1\<rparr>)"
    using st True by (auto simp: Let_def split: if_splits)
  show ?thesis
  proof (cases "ec_bool (os_ec s)")
    case ec: True
    then show ?thesis using ok p True
      by (auto simp: t oneshot_ok_def oneshot_finish_def hotplug_await_resume_def)
  next
    case False
    then have "length (os_log s) \<le> 1" "length (os_log s) \<noteq> 0" using ok p True by (auto simp: oneshot_ok_def)
    then have "length (os_log s) = 1" by linarith
    then obtain ev d where l: "os_log s = [(ev, d)]" by (auto simp: length_Suc_conv)
    then show ?thesis using ok p True False nb
      by (auto simp: t oneshot_ok_def oneshot_finish_def hotplug_await_resume_def device_ref_copy_def)
  qed
next
  case False
  then show ?thesis using ok st nb by (cases "os_stage s") (auto simp: oneshot_ok_def Let_def split: if_splits)
qed

lemma oneshot_step_ok:
  assumes "oneshot_ok s" "oneshot_step e s = Some t"
  shows "oneshot_ok t"
proof -
  have nb: "\<not> os_broken s" and st: "oneshot_event_step e s = Some t"
    using assms(2) by (auto simp: oneshot_step_def split: if_splits)
  note rules = oneshot_check_ok oneshot_register_ok oneshot_callback_ok oneshot_stop_ok
    oneshot_resume_ok oneshot_dispatch_ok
  show ?thesis using assms(1) st nb by (cases e) (blast intro: rules)+
qed

interpretation oneshot_machine: machine oneshot_step oneshot_ok
  by unfold_locales (rule oneshot_step_ok)

lemmas oneshot_run_ok = oneshot_machine.run_inv [OF _ oneshot_init_ok]

section \<open>Properties\<close>

text \<open>C35: while a one-shot operation is suspended it is registered with libusb or posted to its
  executor; when it has ended it is not registered, the callback was called at most once, and the
  result is an error or the one event the callback was called with.\<close>

theorem oneshot_reports_the_first_event:
  assumes "run oneshot_step es (oneshot_init b) = Some s"
  shows "length (os_log s) \<le> 1
    \<and> (os_stage s = Os_Suspended \<longrightarrow> os_registered s \<or> 0 < os_pending s)
    \<and> (\<forall>ec ev dev. os_result s = Some (ec, ev, dev) \<longrightarrow>
         \<not> os_registered s \<and>
         (if ec_bool ec then True else \<exists>e d. os_log s = [(e, d)] \<and> ev = make_flag e \<and> m_dev dev = Some d))"
proof -
  have ok: "oneshot_ok s" using assms by (rule oneshot_run_ok)
  show ?thesis
  proof (cases "os_stage s = Os_Finished")
    case True
    then show ?thesis using ok by (auto simp: oneshot_ok_def)
  next
    case False
    then show ?thesis using ok by (cases "os_stage s") (auto simp: oneshot_ok_def)
  qed
qed

lemma ex_oneshot_run:
  "\<exists>s. run oneshot_step [Os_Check, Os_Register 0 1 None, Os_Event 1 7, Os_Dispatch] (oneshot_init False) = Some s
     \<and> os_result s = Some (ec_none, make_flag 1, \<lparr>m_dev = Some 7\<rparr>)"
  unfolding oneshot_init_def by (rule run_satD) code_simp

theorem oneshot_reports_the_first_event_witness:
  "\<exists>s. run oneshot_step [Os_Check, Os_Register 0 1 None, Os_Event 1 7, Os_Dispatch] (oneshot_init False) = Some s
     \<and> \<not> os_registered s \<and> length (os_log s) \<le> 1"
  using ex_oneshot_run oneshot_reports_the_first_event by fast

text \<open>a stop that is requested after the test of the stop token and before the registration is
  lost: the stop callback finds no handle, and the operation is suspended without an error and
  goes on only when a device event comes.\<close>

theorem oneshot_stop_can_be_lost:
  assumes "run oneshot_step es (oneshot_init False) = Some s" "os_stage s = Os_Registering" "\<not> os_stop s"
    and "0 < handle"
  shows "\<exists>t. run oneshot_step [Os_Stop, Os_Register 0 handle None] s = Some t
    \<and> os_stop t \<and> os_stage t = Os_Suspended \<and> os_pending t = 0 \<and> os_ec t = os_ec s
    \<and> (\<forall>e. oneshot_step e t = None \<or> (\<exists>ev d. e = Os_Event ev d))"
proof -
  have ok: "oneshot_ok s" using assms(1) by (rule oneshot_run_ok)
  then have s: "\<not> os_broken s" "os_handle s = 0" "os_pending s = 0" using assms(2,3) by (auto simp: oneshot_ok_def)
  let ?t = "s\<lparr>os_stop := True, os_res := True, os_handle := handle, os_registered := True, os_stage := Os_Suspended\<rparr>"
  have "run oneshot_step [Os_Stop, Os_Register 0 handle None] s = Some ?t"
    using s assms(2-4) by (simp add: oneshot_step_def oneshot_stop_cb_def hotplug_register_def Let_def)
  moreover have "oneshot_step e ?t = None \<or> (\<exists>ev d. e = Os_Event ev d)" for e
    using s by (cases e) (simp_all add: oneshot_step_def)
  ultimately show ?thesis using s by auto
qed

lemma ex_lost_run:
  "\<exists>s. run oneshot_step [Os_Check] (oneshot_init False) = Some s \<and> (os_stage s = Os_Registering \<and> \<not> os_stop s)"
  unfolding oneshot_init_def by (rule run_satD) code_simp

theorem oneshot_stop_can_be_lost_witness:
  "\<exists>s t. run oneshot_step [Os_Check] (oneshot_init False) = Some s
     \<and> run oneshot_step [Os_Stop, Os_Register 0 1 None] s = Some t \<and> os_stop t \<and> os_pending t = 0"
proof -
  obtain s where s: "run oneshot_step [Os_Check] (oneshot_init False) = Some s" "os_stage s = Os_Registering" "\<not> os_stop s"
    using ex_lost_run by blast
  from oneshot_stop_can_be_lost [OF s, of 1] show ?thesis using s(1) by auto
qed

text \<open>The continuation of a one-shot operation is posted at most once unless stop was requested,
  and at most twice; posted twice it is resumed after its end.\<close>

theorem oneshot_posted_at_most_once:
  assumes "run oneshot_step es (oneshot_init b) = Some s"
  shows "os_posts s \<le> (if os_stop s then 2 else 1) \<and> (os_broken s \<longrightarrow> os_stop s \<and> os_posts s = 2)"
  using oneshot_run_ok [OF assms] by (simp add: oneshot_ok_def)

lemma ex_twice_run:
  "\<exists>s. run oneshot_step [Os_Check, Os_Register 0 1 None, Os_Event 1 7, Os_Stop, Os_Dispatch, Os_Dispatch]
       (oneshot_init False) = Some s \<and> os_broken s"
  unfolding oneshot_init_def by (rule run_satD) code_simp

theorem oneshot_posted_at_most_once_witness:
  "\<exists>s. run oneshot_step [Os_Check, Os_Register 0 1 None, Os_Event 1 7, Os_Stop, Os_Dispatch, Os_Dispatch]
       (oneshot_init False) = Some s \<and> os_broken s \<and> os_posts s = 2"
  using ex_twice_run oneshot_posted_at_most_once by blast

end
