(* ===== verification/Hotplug_Objects.thy ===== *)
theory Hotplug_Objects
  imports IO_Objects Acceptor_Devices Oneshot
begin

text \<open>
  Where the hotplug operations meet the service: the constructor of \<open>device_acceptor\<close>, and the
  start of \<open>oneshot_hotplug\<close>.  Both hold a reference to the event handler, like the I/O objects.
\<close>

text \<open>The constructor asks for the service twice, once for each of two members.\<close>

definition make_device_acceptor :: "service_env \<Rightarrow> service_env \<Rightarrow> (acceptor \<times> usb_ctx) service_op" where
  "make_device_acceptor env env' s =
     act_bind (get_handler_service (se_init env) (se_spawn env) (se_block env) s)
       (\<lambda>_ s. act_bind (get_handler_service (se_init env') (se_spawn env') (se_block env') (service_handler s))
          (\<lambda>_ s. (s, Returned (acceptor_init, service_usb_context s))))"

text \<open>The destructor: the shutdown, then that of the reference.\<close>

definition device_acceptor_dtor :: "acceptor \<Rightarrow> service \<Rightarrow> acceptor \<times> service" where
  "device_acceptor_dtor a s = (acceptor_shutdown a, drop_reference s)"

definition start_oneshot :: "service_env \<Rightarrow> bool \<Rightarrow> (oneshot \<times> usb_ctx) service_op" where
  "start_oneshot env stop s =
     act_bind (get_handler_service (se_init env) (se_spawn env) (se_block env) s)
       (\<lambda>_ s. (service_handler s, Returned (oneshot_init stop, service_usb_context s)))"

lemma turn_requested:
  assumes "serves s c k h" "k = sv_stop s"
  shows "slot_thread (sv_handler (fst (service_turn LIBUSB_SUCCESS (service_request_stop s)))) =
    (if rh_counter h = 0 then Ended else Running c k)"
  by (rule serves_turn [OF serves_ref(3) [OF assms(1)]]) (simp add: requested_after assms(2))

text \<open>A service just made by its first use.\<close>

lemma first_use_serves:
  assumes "se_init env = (LIBUSB_SUCCESS, c)" "se_spawn env"
  obtains t where "get_handler_service (se_init env) (se_spawn env) (se_block env) service_init = (t, Returned ())"
    "serves t (Some c) 0 \<lparr>rh_counter = 0, rh_thread = Running (Some c) 0\<rparr>"
    "sv_live t = {c}" "sv_usb_ctx t = Some c" "sv_stop t = 0"
  using assms by (simp add: get_handler_service_def init_first emplace_first serves_def)

text \<open>On a fresh service, an acceptor and a one-shot operation each make the libusb context and
  start the loop, register on that context, and hold one reference that keeps the loop running
  after a stop request until they are gone.\<close>

theorem hotplug_holds_one_reference:
  assumes "se_init env = (LIBUSB_SUCCESS, c)" "se_spawn env"
  shows "\<exists>t. make_device_acceptor env env' service_init = (t, Returned (acceptor_init, Some c))
    \<and> start_oneshot env stop service_init = (t, Returned (oneshot_init stop, Some c))
    \<and> sv_live t = {c} \<and> slot_counter (sv_handler t) = Some 1
    \<and> slot_thread (sv_handler (fst (service_turn LIBUSB_SUCCESS (service_request_stop t)))) = Running (Some c) 0
    \<and> slot_thread (sv_handler (fst (service_turn LIBUSB_SUCCESS (service_request_stop
          (snd (device_acceptor_dtor acceptor_init t)))))) = Ended"
proof -
  obtain s where s: "get_handler_service (se_init env) (se_spawn env) (se_block env) service_init = (s, Returned ())"
    "serves s (Some c) 0 \<lparr>rh_counter = 0, rh_thread = Running (Some c) 0\<rparr>"
    "sv_live s = {c}" "sv_usb_ctx s = Some c" "sv_stop s = 0"
    using assms by (rule first_use_serves)
  let ?t = "service_handler s"
  have t: "serves ?t (Some c) 0 \<lparr>rh_counter = 1, rh_thread = Running (Some c) 0\<rparr>"
    using serves_ref(1) [OF s(2)] by simp
  have d: "serves (drop_reference ?t) (Some c) 0 \<lparr>rh_counter = 0, rh_thread = Running (Some c) 0\<rparr>"
    using serves_ref(2) [OF t] by simp
  have f: "sv_live ?t = {c}" "sv_usb_ctx ?t = Some c" "sv_stop ?t = 0" "sv_stop (drop_reference ?t) = 0"
    using s(3-5) by (simp_all add: service_handler_def drop_reference_def)
  have made: "make_device_acceptor env env' service_init = (?t, Returned (acceptor_init, Some c))"
    "start_oneshot env stop service_init = (?t, Returned (oneshot_init stop, Some c))"
    using f(2) by (simp_all add: make_device_acceptor_def start_oneshot_def s(1) s(4) serves_started [OF t]
        service_usb_context_def)
  have "slot_counter (sv_handler ?t) = Some 1" using t by (auto simp: serves_def slot_counter_def)
  then show ?thesis
    using made f turn_requested [OF t] turn_requested [OF d] by (simp add: device_acceptor_dtor_def)
qed

theorem hotplug_holds_one_reference_witness:
  "\<exists>t. make_device_acceptor ex_env ex_env service_init = (t, Returned (acceptor_init, Some 5))
     \<and> slot_counter (sv_handler t) = Some 1"
  using hotplug_holds_one_reference [of ex_env 5 ex_env False] by (auto simp: ex_env_def)

text \<open>If the thread of the loop cannot be made, the second use of the service replaces the handler the
  acceptor already refers to: the counter of the new one is 0, and the acceptor's destructor
  takes it below that.\<close>

lemma acceptor_reference_lost:
  assumes "se_init env = (LIBUSB_SUCCESS, c)" "\<not> se_spawn env" "se_init env' = (LIBUSB_SUCCESS, c')"
  shows "slot_counter (sv_handler (fst (make_device_acceptor env env' service_init))) = Some 0
    \<and> slot_counter (sv_handler (snd (device_acceptor_dtor acceptor_init
          (fst (make_device_acceptor env env' service_init))))) = Some (- 1)"
proof -
  let ?h = "\<lparr>ah_vtable = Refcounted_Type, ah_memres = 0,
      ah_storage = Some (se_block env, Refcounted \<lparr>rh_counter = 1, rh_thread = No_Thread\<rparr>)\<rparr>"
  obtain s where s: "act_bind (get_handler_service (se_init env) (se_spawn env) (se_block env) service_init)
        (\<lambda>_ s. (service_handler s, Returned ())) = (s, Returned ())"
    "sv_handler s = ?h" "\<not> sv_started s"
    using assms by (simp add: get_handler_service_def init_first emplace_first service_handler_def any_ref_def
        refcounted_ref_def)
  obtain ec u where u: "init_context (se_init env') s = (ec, u)" by fastforce
  have uf: "ec = ec_none" "sv_handler u = ?h" "\<not> sv_started u"
    using u s(2,3) assms(3) by (auto simp: init_context_def libusb_exit_def Let_def split: option.splits if_splits)
  obtain v r where v: "emplace_and_start (se_spawn env') 0 (se_block env') Refcounted_Type u = (v, r)" by fastforce
  have "slot_counter (sv_handler v) = Some 0 \<and> r = Returned ()"
    using v uf(2,3)
    by (cases "se_spawn env'") (auto simp: emplace_and_start_def emplace_handler_def emplace_part_def any_emplace_def
        any_destroy_def any_stop_def any_deallocate_def any_construct_def any_valid_def
        any_ref_def refcounted_ref_def drop_reference_def any_unref_def refcounted_unref_def service_start_def
        any_start_def refcounted_start_def refcounted_stop_def joinable_def Let_def slot_counter_def)
  moreover have "get_handler_service (se_init env') (se_spawn env') (se_block env') s = (v, r)"
    using s(3) v uf(1) by (simp add: get_handler_service_def u)
  moreover have "fst (make_device_acceptor env env' service_init) =
      fst (act_bind (get_handler_service (se_init env') (se_spawn env') (se_block env') s)
        (\<lambda>_ s. (s, Returned (acceptor_init, service_usb_context s))))"
    using s(1) assms by (simp add: make_device_acceptor_def get_handler_service_def init_first emplace_first)
  ultimately show ?thesis by (simp add: device_acceptor_dtor_def drop_reference_def)
qed

end
