(* ===== verification/Hotplug_Program.thy ===== *)
theory Hotplug_Program
  imports Programs Throughput Hotplug_Client Hotplug_Objects
begin

text \<open>
  The program of \<open>src/examples/03-complete-io.cpp\<close>: \<open>main\<close> makes a context on a thread pool, starts a
  coroutine that requests stop after a time and \<open>accept_hotplug\<close>, which starts a \<open>dev_loop\<close> for
  every device that arrives, and waits for all of them.  The service, the acceptor and its client,
  the device loops, the event loop and the timer run here as one machine.
\<close>

section \<open>The machine\<close>

text \<open>What is done with libusb, and the references on devices that the client makes for the loops it
  starts.\<close>

datatype loop_call = Given nat | Usb usb_call

text \<open>\<open>hp_sessions\<close>: what each device loop still calls, and how it will end; \<open>hp_over\<close>: the process was
  terminated.\<close>

record hotplug_program =
  hp_service :: service
  hp_client :: hotplug_client
  hp_sessions :: "(usb_call list \<times> session_end) list"
  hp_log :: "loop_call list"
  hp_over :: bool

text \<open>\<open>main\<close> up to the start of the coroutines; \<open>None\<close>: an exception leaves it.\<close>

definition hotplug_main_start :: "program_env \<Rightarrow> hotplug_program option" where
  "hotplug_main_start env =
     (case make_context_default (pe_init env) True (pe_block env) Refcounted_Type service_init of
        (s, Returned (Inr _, _)) \<Rightarrow>
          Some \<lparr>hp_service = s, hp_client = client_init, hp_sessions = [], hp_log = [], hp_over = False\<rparr>
      | _ \<Rightarrow> None)"

text \<open>What libusb answers to each device loop; the loops are numbered as they are started.\<close>

fun begin_loops ::
  "bool \<Rightarrow> (nat \<Rightarrow> libusb_results) \<Rightarrow> nat \<Rightarrow> nat list \<Rightarrow> (usb_call list \<times> session_end) list" where
  "begin_loops wt lus k [] = []"
| "begin_loops wt lus k (d # ds) = throughput_session wt (lus k) \<lparr>m_dev = Some d\<rparr> # begin_loops wt lus (k + 1) ds"

text \<open>The acceptor is made before anything else in \<open>accept_hotplug\<close>, and destroyed as it ends.\<close>

definition client_service :: "service_env \<Rightarrow> client_event \<Rightarrow> service \<Rightarrow> service option" where
  "client_service senv e s =
     (case e of
        Hc_Begin r h ds \<Rightarrow> (case make_device_acceptor senv senv s of (s, Returned _) \<Rightarrow> Some s | _ \<Rightarrow> None)
      | Hc_Leave \<Rightarrow> Some (drop_reference s)
      | _ \<Rightarrow> Some s)"

definition program_client ::
  "bool \<Rightarrow> (nat \<Rightarrow> device_descriptor) \<Rightarrow> service_env \<Rightarrow> (nat \<Rightarrow> libusb_results) \<Rightarrow> client_event
     \<Rightarrow> hotplug_program \<Rightarrow> hotplug_program option" where
  "program_client wt descr senv lus e w =
     (case client_step descr e (hp_client w) of
        None \<Rightarrow> None
      | Some v \<Rightarrow>
          (let ds = drop (length (hc_started (hp_client w))) (hc_started v) in
           case client_service senv e (hp_service w) of
             None \<Rightarrow> Some (w\<lparr>hp_over := True\<rparr>)
           | Some s \<Rightarrow>
               Some (w\<lparr>hp_client := v, hp_service := s, hp_log := hp_log w @ map Given ds,
                       hp_sessions := hp_sessions w @ begin_loops wt lus (length (hp_sessions w)) ds\<rparr>)))"

text \<open>How an end of a device loop ends the program: an exception that leaves it, if the executor passes it
  on.\<close>

definition ends_program :: "bool \<Rightarrow> session_end \<Rightarrow> bool" where
  "ends_program rethrows e \<longleftrightarrow> (case e of session_end.Ended exc \<Rightarrow> rethrows \<and> exc \<noteq> None | In_Loop \<Rightarrow> False | _ \<Rightarrow> True)"

definition program_session :: "bool \<Rightarrow> nat \<Rightarrow> hotplug_program \<Rightarrow> hotplug_program option" where
  "program_session rethrows i w =
     (if i < length (hp_sessions w) then
        (case hp_sessions w ! i of
           (c # cs, e) \<Rightarrow>
             Some (w\<lparr>hp_sessions := (hp_sessions w)[i := (cs, e)], hp_log := hp_log w @ [Usb c],
                     hp_service := count_refs [c] (hp_service w)\<rparr>)
         | ([], e) \<Rightarrow> if ends_program rethrows e then Some (w\<lparr>hp_over := True\<rparr>) else None)
      else None)"

text \<open>\<open>Hp_Timer\<close>: \<open>ctx.request_stop()\<close>, which calls the stop callbacks; \<open>Hp_Turn r\<close>: a turn of the event
  loop, in which libusb returns \<open>r\<close>.\<close>

datatype program_event = Hp_Client client_event | Hp_Session nat | Hp_Timer | Hp_Turn int

fun program_step ::
  "bool \<Rightarrow> bool \<Rightarrow> (nat \<Rightarrow> device_descriptor) \<Rightarrow> service_env \<Rightarrow> (nat \<Rightarrow> libusb_results) \<Rightarrow> program_event
     \<Rightarrow> hotplug_program \<Rightarrow> hotplug_program option" where
  "program_step wt rethrows descr senv lus (Hp_Client e) w =
     (if hp_over w \<or> e = Hc_Stop then None else program_client wt descr senv lus e w)"
| "program_step wt rethrows descr senv lus (Hp_Session i) w =
     (if hp_over w then None else program_session rethrows i w)"
| "program_step wt rethrows descr senv lus Hp_Timer w =
     (if hp_over w then None
      else map_option (\<lambda>v. w\<lparr>hp_client := v, hp_service := context_request_stop (hp_service w)\<rparr>)
             (client_step descr Hc_Stop (hp_client w)))"
| "program_step wt rethrows descr senv lus (Hp_Turn r) w =
     (if hp_over w then None
      else
        (case service_turn r (hp_service w) of
           (s, Returned _) \<Rightarrow> Some (w\<lparr>hp_service := s\<rparr>)
         | (s, Blocked) \<Rightarrow> None
         | _ \<Rightarrow> Some (w\<lparr>hp_over := True\<rparr>)))"

text \<open>\<open>join\<close> returns when the timer, the client and the device loops have ended; then \<open>main\<close> leaves its
  scope.\<close>

definition joined :: "bool \<Rightarrow> hotplug_program \<Rightarrow> bool" where
  "joined rethrows w \<longleftrightarrow> \<not> hp_over w \<and> hc_stop (hp_client w)
     \<and> (case hc_pc (hp_client w) of Client_Ended \<Rightarrow> True | _ \<Rightarrow> False)
     \<and> list_all (\<lambda>(cs, e). cs = [] \<and> e \<noteq> In_Loop \<and> \<not> ends_program rethrows e) (hp_sessions w)"

definition hotplug_main_end :: "int \<Rightarrow> hotplug_program \<Rightarrow> program_call list \<times> service \<times> program_end" where
  "hotplug_main_end r w = pool_dtor r (hp_service w)"

section \<open>The service while the program runs\<close>

definition served :: "nat \<Rightarrow> nat \<Rightarrow> size_t \<Rightarrow> thread \<Rightarrow> nat set \<Rightarrow> service" where
  "served c blk n thr req = service_init\<lparr>sv_usb_ctx := Some c, sv_started := True, sv_live := {c}, sv_requested := req,
     sv_handler := \<lparr>ah_vtable = Refcounted_Type, ah_memres = 0,
       ah_storage = Some (blk, Refcounted \<lparr>rh_counter = n, rh_thread = thr\<rparr>)\<rparr>\<rparr>"

lemma serving_served: "serving c Refcounted_Type blk n = served c blk n (Running (Some c) 0) {}"
  by (simp add: serving_def served_def service_init_def)

lemma served_simps [simp]:
  "get_handler_service i spawn b (served c blk n thr req) = (served c blk n thr req, Returned ())"
  "service_handler (served c blk n thr req) = served c blk (n + 1) thr req"
  "drop_reference (served c blk n thr req) = served c blk (n - 1) thr req"
  "context_request_stop (served c blk n thr req) = served c blk n thr (insert 0 req)"
  by (simp_all add: served_def get_handler_service_def service_handler_def any_ref_def drop_reference_def any_unref_def
      refcounted_ref_def refcounted_unref_def context_request_stop_def service_request_stop_def request_source_def
      service_init_def)

lemma served_turn:
  "service_turn r (served c blk n (Running (Some c) 0) req) =
     (if r \<noteq> LIBUSB_SUCCESS then (served c blk n (Running (Some c) 0) req, Terminated)
      else (served c blk n (if 0 \<in> req \<and> n = 0 then Ended else Running (Some c) 0) req, Returned ()))"
  "service_turn r (served c blk n thread.Ended req) = (served c blk n thread.Ended req, Blocked)"
  by (simp_all add: service_turn_def any_turn_def served_def refcounted_turn_def)

lemma served_dtor:
  assumes "thr = Running (Some c) 0 \<or> thr = thread.Ended"
  shows "\<exists>t. pool_dtor LIBUSB_SUCCESS (served c blk 0 thr req) = ([Pc_Exit c], t, Main_Returned) \<and> sv_live t = {}
      \<and> slot_thread (sv_handler t) = No_Thread"
    and "snd (snd (pool_dtor r (served c blk 0 thr req))) \<noteq> Program_Waits"
proof -
  note defs = pool_dtor_def service_dtor_def shutdown_def any_stop_def served_def refcounted_stop_def joinable_def
    join_thread_def service_turn_def any_turn_def refcounted_turn_def request_source_def libusb_exit_def
    exit_calls_def slot_thread_def service_init_def
  show "\<exists>t. pool_dtor LIBUSB_SUCCESS (served c blk 0 thr req) = ([Pc_Exit c], t, Main_Returned) \<and> sv_live t = {}
      \<and> slot_thread (sv_handler t) = No_Thread"
    using assms by (auto simp: defs)
  show "snd (snd (pool_dtor r (served c blk 0 thr req))) \<noteq> Program_Waits"
    using assms by (cases "r = LIBUSB_SUCCESS") (auto simp: defs)
qed

section \<open>What libusb asks of it\<close>

fun loops_allow :: "loop_call \<Rightarrow> usb_use \<Rightarrow> usb_use option" where
  "loops_allow (Given d) u = Some (u\<lparr>uu_refs := add_mset d (uu_refs u)\<rparr>)"
| "loops_allow (Usb c) u = usb_allows c u"

fun given :: "loop_call list \<Rightarrow> nat list" where
  "given [] = []"
| "given (Given d # cs) = d # given cs"
| "given (Usb c # cs) = given cs"

lemma given_append [simp]: "given (cs @ ds) = given cs @ given ds"
  by (induction cs rule: given.induct) simp_all

lemma given_map [simp]: "given (map Given ds) = ds"
  by (induction ds) simp_all

text \<open>A loop uses no handle but the one it opened.\<close>

lemma uses_handles:
  "uses cs u t \<Longrightarrow> handles_of cs \<subseteq> use_handles u \<union> {h. U_Open (Some h) \<in> set cs}"
proof (induction cs arbitrary: u)
  case (Cons c cs)
  obtain v where v: "usb_allows c u = Some v" "uses cs v t" using Cons.prems by (auto split: option.splits)
  have "call_handles c \<subseteq> use_handles u \<union> {h. U_Open (Some h) = c}"
    using v(1) by (cases "(c, u)" rule: usb_allows.cases) (auto simp: use_handles_def split: if_splits option.splits)
  then show ?case using Cons.IH [OF v(2)] use_handles_step [OF v(1)] by auto
qed simp

lemma leave_opens: "leave_scope wt lu exc ls = (cs, e) \<Longrightarrow> U_Open h \<notin> set cs"
proof (induction ls arbitrary: exc cs e)
  case (Cons l ls)
  obtain th ds where d: "destroy_local lu l = (th, ds)" by fastforce
  have "U_Open h \<notin> set ds" using d
    by (cases "(lu, l)" rule: destroy_local.cases)
      (auto simp: destroy_handle_def destroy_interface_def destroy_guard_def split: prod.splits option.splits)
  then show ?case using Cons by (auto simp: d split: option.splits if_splits prod.splits)
qed simp

lemma resize_opens: "resize_resources lu i n ts = (r, cs) \<Longrightarrow> U_Open h \<notin> set cs"
  by (induction lu i n ts arbitrary: cs rule: resize_resources.induct)
    (auto split: sum.splits bad_alloc.splits prod.splits)

lemma body_opens: "session_body wt lu n frame = (cs, e) \<Longrightarrow> U_Open h \<notin> set cs"
  by (auto simp: session_body_def simp del: leave_scope.simps split: prod.splits option.splits
      dest: leave_opens resize_opens)

lemma claim_opens: "session_claim wt lu n devh ec frame = (cs, e) \<Longrightarrow> U_Open h \<notin> set cs"
  by (auto simp: session_claim_def Let_def simp del: leave_scope.simps split: prod.splits option.splits if_splits
      dest: leave_opens body_opens)

lemma loop_opens:
  assumes "dev_loop wt lu n dev = (cs, e)" "U_Open (Some h) \<in> set cs"
  shows "\<exists>x. snd (lu_open lu x) = Some h"
  using assms
  by (auto simp: dev_loop_def session_detach_def open_device_ref_def as_optional_def make_device_handle_def
      device_handle_get_def device_handle_move_def Let_def simp del: leave_scope.simps
      split: prod.splits option.splits if_splits dest: leave_opens claim_opens) (metis snd_conv claim_opens)+

section \<open>Invariant\<close>

text \<open>The handles libusb gives to the \<open>i\<close>th loop.\<close>

definition handles_for :: "(nat \<Rightarrow> libusb_results) \<Rightarrow> nat \<Rightarrow> nat set" where
  "handles_for lus i = {h. \<exists>x. snd (lu_open (lus i) x) = Some h}"

text \<open>A loop that has still to call \<open>cs\<close> and has \<open>v\<close> in use.\<close>

definition session_loop_ok :: "nat set \<Rightarrow> usb_call list \<times> session_end \<Rightarrow> usb_use \<Rightarrow> bool" where
  "session_loop_ok H l v \<longleftrightarrow> (case l of (cs, e) \<Rightarrow> (\<exists>t. uses cs v t \<and> (\<forall>exc. e = session_end.Ended exc \<longrightarrow> t = usb_idle {#}))
     \<and> e \<noteq> Undefined_Use \<and> handles_of cs \<union> use_handles v \<subseteq> H)"

definition loops_ok :: "(nat \<Rightarrow> nat set) \<Rightarrow> (usb_call list \<times> session_end) list \<Rightarrow> usb_use \<Rightarrow> bool" where
  "loops_ok H ls u \<longleftrightarrow> (\<exists>us. length us = length ls \<and> same_use u (use_sum us)
     \<and> (\<forall>i < length ls. session_loop_ok (H i) (ls ! i) (us ! i)))"

lemma session_loop_step:
  assumes "session_loop_ok H (c # cs, e) v"
  obtains v' where "usb_allows c v = Some v'" "session_loop_ok H (cs, e) v'"
proof -
  obtain t where t: "uses (c # cs) v t" "\<forall>exc. e = session_end.Ended exc \<longrightarrow> t = usb_idle {#}" "e \<noteq> Undefined_Use"
      "handles_of (c # cs) \<union> use_handles v \<subseteq> H"
    using assms by (auto simp: session_loop_ok_def)
  then obtain v' where v': "usb_allows c v = Some v'" "uses cs v' t" by (auto split: option.splits)
  have "handles_of cs \<union> use_handles v' \<subseteq> H" using use_handles_step [OF v'(1)] t(4) by auto
  then show thesis using that v' t(2,3) by (auto simp: session_loop_ok_def)
qed

lemma session_loops_step:
  assumes ok: "loops_ok H ls u" and i: "i < length ls" "ls ! i = (c # cs, e)"
    and disj: "\<And>j k. j \<noteq> k \<Longrightarrow> H j \<inter> H k = {}"
  shows "\<exists>u'. usb_allows c u = Some u' \<and> loops_ok H (ls[i := (cs, e)]) u'"
proof -
  obtain us where us: "length us = length ls" "same_use u (use_sum us)" "\<forall>i < length ls. session_loop_ok (H i) (ls ! i) (us ! i)"
    using ok by (auto simp: loops_ok_def)
  let ?as = "take i us" and ?bs = "drop (Suc i) us"
  have split: "us = ?as @ us ! i # ?bs" using i(1) us(1) by (simp add: id_take_nth_drop)
  have "session_loop_ok (H i) (c # cs, e) (us ! i)" using us(3) i by auto
  then obtain v where v: "usb_allows c (us ! i) = Some v" "session_loop_ok (H i) (cs, e) v" by (rule session_loop_step)
  have "same_use u (plus_use (us ! i) (use_sum (?as @ ?bs)))"
    using us(2) use_sum_split [of u ?as "us ! i" ?bs] split by simp
  moreover have "use_handles x \<inter> H i = {}" if "x \<in> set (?as @ ?bs)" for x
  proof -
    have "x \<in> set ?as \<or> x \<in> set ?bs" using that by auto
    then obtain j where j: "j < length us" "j \<noteq> i" "x = us ! j"
    proof
      assume "x \<in> set ?as"
      then obtain k where "k < length ?as" "x = ?as ! k" by (auto simp: in_set_conv_nth)
      then show thesis using that [of k] by simp
    next
      assume "x \<in> set ?bs"
      then obtain k where "k < length ?bs" "x = ?bs ! k" by (auto simp: in_set_conv_nth)
      then show thesis using that [of "Suc i + k"] by simp
    qed
    then show ?thesis using us(1,3) disj [of j i] by (fastforce simp: session_loop_ok_def split: prod.splits)
  qed
  moreover have "call_handles c \<subseteq> H i" using us(3) i by (fastforce simp: session_loop_ok_def)
  ultimately obtain u' where u': "usb_allows c u = Some u'" "same_use u' (plus_use v (use_sum (?as @ ?bs)))"
    using usb_allows_frame [OF v(1), of u "use_sum (?as @ ?bs)"] by (fastforce simp: use_sum_handles)
  have "same_use u' (use_sum (us[i := v]))"
    using u'(2) use_sum_split [of u' ?as v ?bs] i(1) us(1) by (simp add: upd_conv_take_nth_drop)
  then have "loops_ok H (ls[i := (cs, e)]) u'"
    unfolding loops_ok_def using us(1,3) v(2) i(1)
    by (intro exI [of _ "us[i := v]"]) (auto simp: nth_list_update)
  then show ?thesis using u'(1) by blast
qed

lemma loops_begin:
  assumes "loops_ok H ls u" "session_loop_ok (H (length ls)) l (usb_idle {#d#})"
  shows "loops_ok H (ls @ [l]) (u\<lparr>uu_refs := add_mset d (uu_refs u)\<rparr>)"
proof -
  obtain us where us: "length us = length ls" "same_use u (use_sum us)" "\<forall>i < length ls. session_loop_ok (H i) (ls ! i) (us ! i)"
    using assms(1) by (auto simp: loops_ok_def)
  have "same_use (u\<lparr>uu_refs := add_mset d (uu_refs u)\<rparr>) (use_sum (us @ [usb_idle {#d#}]))"
    using us(2) by (subst use_sum_split) (simp add: same_use_def plus_use_def usb_idle_def)
  then show ?thesis unfolding loops_ok_def using us(1,3) assms(2)
    by (intro exI [of _ "us @ [usb_idle {#d#}]"]) (auto simp: nth_append less_Suc_eq)
qed

text \<open>The references on the event handler: one of the acceptor while the client has it, and those of the
  I/O objects.\<close>

definition has_acceptor :: "hotplug_client \<Rightarrow> nat" where
  "has_acceptor v = (case hc_pc v of Client_Begin \<Rightarrow> 0 | Client_Ended \<Rightarrow> 0 | _ \<Rightarrow> 1)"

definition program_ok :: "nat \<Rightarrow> nat \<Rightarrow> (nat \<Rightarrow> nat set) \<Rightarrow> hotplug_program \<Rightarrow> bool" where
  "program_ok c blk H w \<longleftrightarrow> hp_over w \<or>
     (\<exists>u thr req. run loops_allow (hp_log w) (usb_idle {#}) = Some u \<and> loops_ok H (hp_sessions w) u
        \<and> hp_service w = served c blk (of_nat (uu_handler u + has_acceptor (hp_client w))) thr req
        \<and> (thr = Running (Some c) 0 \<or> thr = thread.Ended \<and> 0 \<in> req)
        \<and> (0 \<in> req \<longleftrightarrow> hc_stop (hp_client w)) \<and> given (hp_log w) = hc_started (hp_client w))"

lemma program_okI:
  assumes "run loops_allow (hp_log w) (usb_idle {#}) = Some u" "loops_ok H (hp_sessions w) u"
    and "hp_service w = served c blk (of_nat (uu_handler u + has_acceptor (hp_client w))) thr req"
    and "thr = Running (Some c) 0 \<or> thr = thread.Ended \<and> 0 \<in> req" "0 \<in> req \<longleftrightarrow> hc_stop (hp_client w)"
    and "given (hp_log w) = hc_started (hp_client w)"
  shows "program_ok c blk H w"
  unfolding program_ok_def using assms by blast

lemma program_okE:
  assumes "program_ok c blk H w" "\<not> hp_over w"
  obtains u thr req where "run loops_allow (hp_log w) (usb_idle {#}) = Some u" "loops_ok H (hp_sessions w) u"
    "hp_service w = served c blk (of_nat (uu_handler u + has_acceptor (hp_client w))) thr req"
    "thr = Running (Some c) 0 \<or> thr = thread.Ended \<and> 0 \<in> req" "0 \<in> req \<longleftrightarrow> hc_stop (hp_client w)"
    "given (hp_log w) = hc_started (hp_client w)"
  using assms unfolding program_ok_def by blast

lemma client_frame:
  assumes "client_step descr e v = Some v'"
  shows "has_acceptor v' = (case e of Hc_Begin r h ds \<Rightarrow> has_acceptor v + 1 | Hc_Leave \<Rightarrow> has_acceptor v - 1 | _ \<Rightarrow> has_acceptor v)"
    "case e of Hc_Leave \<Rightarrow> has_acceptor v = 1 | _ \<Rightarrow> True"
    "hc_stop v' = (case e of Hc_Stop \<Rightarrow> True | _ \<Rightarrow> hc_stop v)" "\<exists>ds. hc_started v' = hc_started v @ ds"
  using assms
  by (cases e; auto simp: has_acceptor_def in_acceptor_def client_got_def start_dev_loop_def client_leave_def
      split: if_splits client_pc.splits option.splits prod.splits)+

lemma count_refs_one:
  assumes "usb_allows c u = Some u'"
  shows "count_refs [c] (served i blk (of_nat (uu_handler u + k)) thr req) =
    served i blk (of_nat (uu_handler u' + k)) thr req"
  using assms
  by (cases "(c, u)" rule: usb_allows.cases) (auto simp: algebra_simps of_nat_diff split: option.splits if_splits)

lemma begin_loops_ok:
  assumes "loops_ok H ls u" "\<And>i. handles_for lus i \<subseteq> H i"
    and "\<And>i x. fst (lu_open (lus i) x) = LIBUSB_SUCCESS \<Longrightarrow> snd (lu_open (lus i) x) \<noteq> None"
  shows "\<exists>u'. run loops_allow (map Given ds) u = Some u' \<and> loops_ok H (ls @ begin_loops wt lus (length ls) ds) u'
    \<and> uu_handler u' = uu_handler u"
  using assms(1)
proof (induction ds arbitrary: ls u)
  case (Cons d ds)
  let ?l = "throughput_session wt (lus (length ls)) \<lparr>m_dev = Some d\<rparr>"
  obtain cs e where l: "?l = (cs, e)" by fastforce
  have "closes {#} (usb_idle {#d#}) (lu_release (lus (length ls)) \<noteq> LIBUSB_SUCCESS \<or> lu_attach (lus (length ls)) \<noteq> LIBUSB_SUCCESS) ?l"
    using throughput_session_closes [of d "{#d#}" "lus (length ls)" wt] assms(3) by simp
  then obtain t where t: "uses cs (usb_idle {#d#}) t"
      "\<forall>exc. e = session_end.Ended exc \<longrightarrow> t = usb_idle {#}" "e \<noteq> Undefined_Use"
    unfolding l by (rule closesE)
  have "handles_of cs \<subseteq> H (length ls)"
    using uses_handles [OF t(1)] loop_opens [of wt "lus (length ls)" 6 _ cs e] l assms(2) [of "length ls"]
    by (fastforce simp: throughput_session_def handles_for_def)
  then have "session_loop_ok (H (length ls)) ?l (usb_idle {#d#})" using t by (auto simp: session_loop_ok_def l)
  from Cons.IH [OF loops_begin [OF Cons.prems this]] show ?case by simp
qed simp

lemma served_acceptor:
  "make_device_acceptor senv senv (served c blk n thr req) = (served c blk (n + 1) thr req, Returned (acceptor_init, Some c))"
  by (simp add: make_device_acceptor_def) (simp add: service_usb_context_def served_def)

lemma program_client_ok:
  assumes ok: "program_ok c blk H w" and st: "program_client wt descr senv lus e w = Some w'"
    and w: "\<not> hp_over w" "e \<noteq> Hc_Stop" and lus: "\<And>i. handles_for lus i \<subseteq> H i"
    and opens: "\<And>i x. fst (lu_open (lus i) x) = LIBUSB_SUCCESS \<Longrightarrow> snd (lu_open (lus i) x) \<noteq> None"
  shows "program_ok c blk H w'"
proof -
  obtain u thr req where u: "run loops_allow (hp_log w) (usb_idle {#}) = Some u" "loops_ok H (hp_sessions w) u"
      "hp_service w = served c blk (of_nat (uu_handler u + has_acceptor (hp_client w))) thr req"
      "thr = Running (Some c) 0 \<or> thr = thread.Ended \<and> 0 \<in> req" "0 \<in> req \<longleftrightarrow> hc_stop (hp_client w)"
      "given (hp_log w) = hc_started (hp_client w)"
    using ok w(1) by (rule program_okE)
  obtain v where v: "client_step descr e (hp_client w) = Some v" using st by (auto simp: program_client_def split: option.splits)
  note frame = client_frame [OF v]
  obtain ds where ds: "hc_started v = hc_started (hp_client w) @ ds" using frame(4) by blast
  obtain u' where u': "run loops_allow (map Given ds) u = Some u'"
      "loops_ok H (hp_sessions w @ begin_loops wt lus (length (hp_sessions w)) ds) u'" "uu_handler u' = uu_handler u"
    using begin_loops_ok [OF u(2) lus opens, of ds wt] by blast
  have s: "client_service senv e (hp_service w) = Some (served c blk (of_nat (uu_handler u' + has_acceptor v)) thr req)"
    using frame(1,2) w(2) by (cases e) (simp_all add: client_service_def u(3) u'(3) served_acceptor algebra_simps)
  have "hc_stop v = hc_stop (hp_client w)" using frame(3) w(2) by (cases e) simp_all
  then show ?thesis
    by (intro program_okI [of _ u' _ _ _ thr req])
      (use st u(1,4-6) u'(1,2) s in \<open>auto simp: program_client_def v ds run_append\<close>)
qed

lemma program_session_ok:
  assumes ok: "program_ok c blk H w" and st: "program_session rethrows i w = Some w'"
    and w: "\<not> hp_over w" and disj: "\<And>j k. j \<noteq> k \<Longrightarrow> H j \<inter> H k = {}"
  shows "program_ok c blk H w'"
proof -
  obtain u thr req where u: "run loops_allow (hp_log w) (usb_idle {#}) = Some u" "loops_ok H (hp_sessions w) u"
      "hp_service w = served c blk (of_nat (uu_handler u + has_acceptor (hp_client w))) thr req"
      "thr = Running (Some c) 0 \<or> thr = thread.Ended \<and> 0 \<in> req" "0 \<in> req \<longleftrightarrow> hc_stop (hp_client w)"
      "given (hp_log w) = hc_started (hp_client w)"
    using ok w by (rule program_okE)
  have i: "i < length (hp_sessions w)" using st by (simp add: program_session_def split: if_splits)
  obtain cs e where l: "hp_sessions w ! i = (cs, e)" by fastforce
  show ?thesis
  proof (cases cs)
    case Nil
    then show ?thesis using st i l by (auto simp: program_session_def program_ok_def split: if_splits)
  next
    case (Cons x xs)
    obtain u' where u': "usb_allows x u = Some u'" "loops_ok H ((hp_sessions w)[i := (xs, e)]) u'"
      using session_loops_step [OF u(2) i, of x xs e] l Cons disj by auto
    have "w' = w\<lparr>hp_sessions := (hp_sessions w)[i := (xs, e)], hp_log := hp_log w @ [Usb x],
        hp_service := served c blk (of_nat (uu_handler u' + has_acceptor (hp_client w))) thr req\<rparr>"
      using st i l Cons count_refs_one [OF u'(1)] by (simp add: program_session_def u(3))
    then show ?thesis
      by (intro program_okI [of _ u' _ _ _ thr req]) (use u(1,4-6) u' in \<open>auto simp: run_append\<close>)
  qed
qed

text \<open>What libusb gives to one loop it does not give to another.\<close>

definition separate :: "(nat \<Rightarrow> libusb_results) \<Rightarrow> bool" where
  "separate lus \<longleftrightarrow> (\<forall>i x. fst (lu_open (lus i) x) = LIBUSB_SUCCESS \<longrightarrow> snd (lu_open (lus i) x) \<noteq> None)
     \<and> (\<forall>i j x y. i \<noteq> j \<longrightarrow> snd (lu_open (lus i) x) \<noteq> None \<longrightarrow> snd (lu_open (lus i) x) \<noteq> snd (lu_open (lus j) y))"

lemma separate_handles: "separate lus \<Longrightarrow> j \<noteq> k \<Longrightarrow> handles_for lus j \<inter> handles_for lus k = {}"
  by (auto simp: separate_def handles_for_def) (metis option.distinct(1))

lemma timer_ok:
  assumes ok: "program_ok c blk H w" and w: "\<not> hp_over w" and v: "client_step descr Hc_Stop (hp_client w) = Some v"
  shows "program_ok c blk H (w\<lparr>hp_client := v, hp_service := context_request_stop (hp_service w)\<rparr>)"
proof -
  obtain u thr req where u: "run loops_allow (hp_log w) (usb_idle {#}) = Some u" "loops_ok H (hp_sessions w) u"
      "hp_service w = served c blk (of_nat (uu_handler u + has_acceptor (hp_client w))) thr req"
      "thr = Running (Some c) 0 \<or> thr = thread.Ended \<and> 0 \<in> req" "0 \<in> req \<longleftrightarrow> hc_stop (hp_client w)"
      "given (hp_log w) = hc_started (hp_client w)"
    using ok w by (rule program_okE)
  have "hc_started v = hc_started (hp_client w)"
    using v by (auto simp: in_acceptor_def split: if_splits client_pc.splits)
  then show ?thesis
    by (intro program_okI [of _ u _ _ _ thr "insert 0 req"]) (use u client_frame(1,3) [OF v] in auto)
qed

lemma loop_turn_ok:
  assumes ok: "program_ok c blk H w" and w: "\<not> hp_over w" and t: "service_turn r (hp_service w) = (s, Returned ())"
  shows "program_ok c blk H (w\<lparr>hp_service := s\<rparr>)"
proof -
  obtain u thr req where u: "run loops_allow (hp_log w) (usb_idle {#}) = Some u" "loops_ok H (hp_sessions w) u"
      "hp_service w = served c blk (of_nat (uu_handler u + has_acceptor (hp_client w))) thr req"
      "thr = Running (Some c) 0 \<or> thr = thread.Ended \<and> 0 \<in> req" "0 \<in> req \<longleftrightarrow> hc_stop (hp_client w)"
      "given (hp_log w) = hc_started (hp_client w)"
    using ok w by (rule program_okE)
  let ?n = "of_nat (uu_handler u + has_acceptor (hp_client w)) :: size_t"
  let ?thr = "if 0 \<in> req \<and> ?n = 0 then thread.Ended else Running (Some c) 0"
  have "thr = Running (Some c) 0" "s = served c blk ?n ?thr req"
    using t u(4) by (auto simp: u(3) served_turn simp del: of_nat_add split: if_splits)
  then show ?thesis by (intro program_okI [of _ u _ _ _ ?thr req]) (use u in auto)
qed

lemma program_step_ok:
  assumes ok: "program_ok c blk (handles_for lus) w" and lus: "separate lus"
    and st: "program_step wt rethrows descr senv lus e w = Some w'"
  shows "program_ok c blk (handles_for lus) w'"
proof (cases e)
  case (Hp_Client d)
  then have "program_client wt descr senv lus d w = Some w'" "\<not> hp_over w" "d \<noteq> Hc_Stop" using st by (auto split: if_splits)
  then show ?thesis using lus by (intro program_client_ok [OF ok]) (auto simp: separate_def)
next
  case (Hp_Session i)
  then have "program_session rethrows i w = Some w'" "\<not> hp_over w" using st by (auto split: if_splits)
  then show ?thesis using separate_handles [OF lus] by (intro program_session_ok [OF ok])
next
  case Hp_Timer
  then show ?thesis using st timer_ok [OF ok] by (auto split: if_splits)
next
  case (Hp_Turn r)
  then show ?thesis using st loop_turn_ok [OF ok]
    by (auto split: if_splits prod.splits act.splits simp: program_ok_def [of _ _ _ "w\<lparr>hp_over := True\<rparr>"])
qed

interpretation hotplug_machine: machine "program_step wt rethrows descr senv lus"
  "\<lambda>w. program_ok c blk (handles_for lus) w \<and> separate lus"
  by unfold_locales (blast intro: program_step_ok)

lemma hotplug_start_ok:
  assumes "hotplug_main_start env = Some w"
  shows "program_ok (snd (pe_init env)) (pe_block env) H w" "\<not> hp_over w"
proof -
  obtain r c where i: "pe_init env = (r, c)" by fastforce
  have w: "w = \<lparr>hp_service = served c (pe_block env) 0 (Running (Some c) 0) {}, hp_client = client_init,
      hp_sessions = [], hp_log = [], hp_over = False\<rparr>"
    using assms by (auto simp: hotplug_main_start_def i make_context_serving serving_served split: if_splits)
  have "loops_ok H [] (usb_idle {#})" by (simp add: loops_ok_def same_use_def)
  then show "program_ok (snd (pe_init env)) (pe_block env) H w"
    by (intro program_okI [of _ "usb_idle {#}" _ _ _ "Running (Some c) 0" "{}"])
      (simp_all add: w i client_init_def has_acceptor_def usb_idle_def)
  show "\<not> hp_over w" by (simp add: w)
qed

text \<open>What can have ended the process: an error of the event loop, or the end of a device loop.\<close>

lemma over_step:
  assumes "program_ok c blk (handles_for lus) w" "program_step wt rethrows descr senv lus e w = Some w'" "hp_over w'"
  shows "(\<exists>r. e = Hp_Turn r \<and> r \<noteq> LIBUSB_SUCCESS) \<or> list_ex (\<lambda>l. ends_program rethrows (snd l)) (hp_sessions w')"
proof -
  have w: "\<not> hp_over w" using assms(2) by (cases e) (auto split: if_splits)
  with assms(1) obtain u :: usb_use and thr req where s: "hp_service w = served c blk (of_nat (uu_handler u + has_acceptor (hp_client w))) thr req"
    "thr = Running (Some c) 0 \<or> thr = thread.Ended \<and> 0 \<in> req" by (rule program_okE) blast
  show ?thesis
  proof (cases e)
    case (Hp_Client d)
    have "client_service senv d (hp_service w) \<noteq> None" unfolding s(1)
      by (cases d) (simp_all add: client_service_def served_acceptor)
    then show ?thesis using assms(2,3) w Hp_Client
      by (auto simp: program_client_def Let_def split: if_splits option.splits)
  next
    case (Hp_Session i)
    then show ?thesis using assms(2,3) w
      by (auto simp: program_session_def list_ex_length split: if_splits list.splits prod.splits intro: exI [of _ i])
  next
    case Hp_Timer
    then show ?thesis using assms(2,3) w by auto
  next
    case (Hp_Turn r)
    then show ?thesis using assms(2,3) w s by (auto simp: s(1) served_turn split: if_splits)
  qed
qed

lemma over_run:
  assumes "run (program_step wt rethrows descr senv lus) es w = Some w'" "hp_over w'" "\<not> hp_over w"
    and "program_ok c blk (handles_for lus) w" "separate lus"
  shows "(\<exists>r. Hp_Turn r \<in> set es \<and> r \<noteq> LIBUSB_SUCCESS) \<or> list_ex (\<lambda>l. ends_program rethrows (snd l)) (hp_sessions w')"
  using assms
proof (induction rule: run_induct)
  case (Cons e es w v w')
  show ?case
  proof (cases "hp_over v")
    case True
    then have "es = []" using Cons(2) by (cases es; cases "hd es") (auto split: option.splits)
    then show ?thesis using over_step [OF Cons.prems(3) Cons(1) True] Cons(2) by auto
  next
    case False
    then show ?thesis using Cons.IH Cons.prems program_step_ok [OF Cons.prems(3,4) Cons(1)] by auto
  qed
qed simp

lemma served_facts:
  "slot_counter (sv_handler (served c blk n thr req)) = Some n" "slot_thread (sv_handler (served c blk n thr req)) = thr"
  by (simp_all add: served_def slot_counter_def slot_thread_def)

lemma joined_idle:
  assumes "joined rethrows w" "loops_ok H (hp_sessions w) u"
  shows "u = usb_idle {#}"
proof -
  obtain us where us: "length us = length (hp_sessions w)" "same_use u (use_sum us)"
      "\<forall>i < length us. session_loop_ok (H i) (hp_sessions w ! i) (us ! i)"
    using assms(2) by (auto simp: loops_ok_def)
  have "us ! i = usb_idle {#}" if "i < length us" for i
  proof -
    obtain cs e where l: "hp_sessions w ! i = (cs, e)" by fastforce
    have "cs = []" "e \<noteq> In_Loop" "\<not> ends_program rethrows e"
      using assms(1) us(1) that l by (auto simp: joined_def list_all_length)
    moreover have "session_loop_ok (H i) (cs, e) (us ! i)" using us(3) that l by auto
    ultimately show ?thesis by (cases e) (auto simp: session_loop_ok_def ends_program_def)
  qed
  then have "use_sum us = usb_idle {#}" by (intro use_sum_idle) (auto simp: in_set_conv_nth)
  then show ?thesis using us(2) same_idle by simp
qed

section \<open>Property\<close>

text \<open>C13: the program of example 03: whatever devices arrive and leave, whenever the timer fires and however
  the coroutines, the callbacks and the event loop take turns, the device loops use libusb as it
  allows, one for each device the client started a loop for, and the counter of the event handler is
  the number of I/O objects and acceptors that live, so that the event loop runs until stop was
  requested.  When all coroutines have ended, nothing is left in use, and \<open>main\<close> does not wait for ever:
  if the last turn of the event loop succeeds, the loop ends, the context is exited, the thread joined
  and \<open>main\<close> returns.  Only an error of the event loop or a device loop that ends in an exception
  terminates the process.\<close>

theorem hotplug_program_gives_everything_back:
  assumes "hotplug_main_start env = Some w0" "run (program_step wt rethrows descr senv lus) es w0 = Some w"
    and "\<And>i x. fst (lu_open (lus i) x) = LIBUSB_SUCCESS \<Longrightarrow> snd (lu_open (lus i) x) \<noteq> None"
    and "\<And>i j x y. i \<noteq> j \<Longrightarrow> snd (lu_open (lus i) x) \<noteq> None \<Longrightarrow> snd (lu_open (lus i) x) \<noteq> snd (lu_open (lus j) y)"
  shows "if hp_over w
    then (\<exists>r. Hp_Turn r \<in> set es \<and> r \<noteq> LIBUSB_SUCCESS) \<or> list_ex (\<lambda>l. ends_program rethrows (snd l)) (hp_sessions w)
    else \<exists>u. run loops_allow (hp_log w) (usb_idle {#}) = Some u \<and> given (hp_log w) = hc_started (hp_client w)
      \<and> slot_counter (sv_handler (hp_service w)) = Some (of_nat (uu_handler u + has_acceptor (hp_client w)))
      \<and> (slot_thread (sv_handler (hp_service w)) = Running (Some (snd (pe_init env))) 0 \<or> hc_stop (hp_client w))
      \<and> (joined rethrows w \<longrightarrow> u = usb_idle {#} \<and> (\<forall>r. snd (snd (hotplug_main_end r w)) \<noteq> Program_Waits)
            \<and> (\<exists>s. hotplug_main_end LIBUSB_SUCCESS w = ([Pc_Exit (snd (pe_init env))], s, Main_Returned)
                \<and> sv_live s = {} \<and> slot_thread (sv_handler s) = No_Thread))"
proof (cases "hp_over w")
  case True
  have "separate lus" using assms(3,4) by (auto simp: separate_def)
  then show ?thesis using over_run [OF assms(2) True hotplug_start_ok(2,1) [OF assms(1)]] True by simp
next
  case False
  let ?c = "snd (pe_init env)"
  have "separate lus" using assms(3,4) by (auto simp: separate_def)
  then have "program_ok ?c (pe_block env) (handles_for lus) w"
    using hotplug_machine.run_inv [OF assms(2)] hotplug_start_ok(1) [OF assms(1)] by blast
  then obtain u thr req where u: "run loops_allow (hp_log w) (usb_idle {#}) = Some u"
      "loops_ok (handles_for lus) (hp_sessions w) u"
      "hp_service w = served ?c (pe_block env) (of_nat (uu_handler u + has_acceptor (hp_client w))) thr req"
      "thr = Running (Some ?c) 0 \<or> thr = thread.Ended \<and> 0 \<in> req" "0 \<in> req \<longleftrightarrow> hc_stop (hp_client w)"
      "given (hp_log w) = hc_started (hp_client w)"
    using False by (rule program_okE)
  have "u = usb_idle {#} \<and> (\<forall>r. snd (snd (hotplug_main_end r w)) \<noteq> Program_Waits)
      \<and> (\<exists>s. hotplug_main_end LIBUSB_SUCCESS w = ([Pc_Exit ?c], s, Main_Returned)
      \<and> sv_live s = {} \<and> slot_thread (sv_handler s) = No_Thread)" if "joined rethrows w"
  proof -
    have idle: "u = usb_idle {#}" using joined_idle [OF that u(2)] .
    have "has_acceptor (hp_client w) = 0" using that by (auto simp: joined_def has_acceptor_def split: client_pc.splits)
    then have "hp_service w = served ?c (pe_block env) 0 thr req" using u(3) idle by (simp add: usb_idle_def)
    moreover have "thr = Running (Some ?c) 0 \<or> thr = thread.Ended" using u(4) by blast
    ultimately show ?thesis using idle served_dtor unfolding hotplug_main_end_def by metis
  qed
  then show ?thesis using False u served_facts by auto
qed

text \<open>Two devices, one there at the start and one that arrives; each gets its loop, which runs to its end
  after the timer.\<close>

definition ex_loops :: "nat \<Rightarrow> libusb_results" where
  "ex_loops i = (ex_libusb 0 0)\<lparr>lu_open := \<lambda>_. (0, Some (5 + i)), lu_alloc := \<lambda>j. Some (10 * i + j)\<rparr>"

definition ex_hotplug_events :: "program_event list" where
  "ex_hotplug_events = map Hp_Client ex_client @ replicate 6 (Hp_Session 0) @ [Hp_Turn 0, Hp_Timer]
     @ concat (replicate 17 [Hp_Session 1, Hp_Session 0]) @ replicate 6 (Hp_Session 1)
     @ map Hp_Client [Hc_Acceptor Ac_Dispatch, Hc_Got, Hc_Leave]"

definition ex_hotplug_sat :: bool where
  "ex_hotplug_sat = (case hotplug_main_start ex_program_env of None \<Rightarrow> False
     | Some w0 \<Rightarrow> run_sat (program_step False True ex_descr (\<lparr>se_init = (0, 4), se_spawn = True, se_block = 10\<rparr>) ex_loops)
         ex_hotplug_events w0 (\<lambda>w. joined True w \<and> hc_started (hp_client w) = [7, 8]))"

lemma ex_hotplug_sat: "ex_hotplug_sat"
  by code_simp

theorem hotplug_program_gives_everything_back_witness:
  "\<exists>w0 w. hotplug_main_start ex_program_env = Some w0
     \<and> run (program_step False True ex_descr \<lparr>se_init = (0, 4), se_spawn = True, se_block = 10\<rparr> ex_loops) ex_hotplug_events w0 = Some w
     \<and> given (hp_log w) = [7, 8] \<and> run loops_allow (hp_log w) (usb_idle {#}) = Some (usb_idle {#})"
proof -
  let ?step = "program_step False True ex_descr \<lparr>se_init = (0, 4), se_spawn = True, se_block = 10\<rparr> ex_loops"
  obtain w0 where w0: "hotplug_main_start ex_program_env = Some w0"
      "run_sat ?step ex_hotplug_events w0 (\<lambda>w. joined True w \<and> hc_started (hp_client w) = [7, 8])"
    using ex_hotplug_sat by (auto simp: ex_hotplug_sat_def split: option.splits)
  obtain w where w: "run ?step ex_hotplug_events w0 = Some w" "joined True w" "hc_started (hp_client w) = [7, 8]"
    using run_satD [OF w0(2)] by blast
  have "\<not> hp_over w" using w(2) by (simp add: joined_def)
  moreover have "snd (lu_open (ex_loops i) x) \<noteq> None" for i x by (simp add: ex_loops_def)
  moreover have "snd (lu_open (ex_loops i) x) \<noteq> snd (lu_open (ex_loops j) y)" if "i \<noteq> j" for i j x y
    using that by (simp add: ex_loops_def)
  ultimately show ?thesis
    using hotplug_program_gives_everything_back [OF w0(1) w(1)] w0(1) w by auto
qed

end
