(* ===== verification/Acceptor_Mailbox.thy ===== *)
theory Acceptor_Mailbox
  imports Acceptor_Devices
begin

text \<open>
  What the acceptor promises, as an abstract machine: a mailbox of devices, with a queue of those
  who wait.  The acceptor refines it.
\<close>

section \<open>The mailbox\<close>

record mailbox =
  waiting :: "nat list"
  stored :: "nat list"
  given :: "nat \<Rightarrow> nat option"
  listening :: bool

text \<open>What is done to it: a device is put into it or taken back by who sent it, someone asks for a
  device, with or without waiting for one, gives up waiting; it is opened, with the devices that are
  there already, and cleared.\<close>

datatype mailbox_event = Put nat | Remove nat | Ask nat | Wait nat | Cancel nat | Open "nat list" | Clear

text \<open>A device goes to the one who waits longest, or is stored.  Who has a device gets no other.\<close>

definition put_device :: "nat \<Rightarrow> mailbox \<Rightarrow> mailbox option" where
  "put_device d b =
     (case waiting b of
        [] \<Rightarrow> Some (b\<lparr>stored := stored b @ [d]\<rparr>)
      | i # rest \<Rightarrow>
          if given b i = None then Some (b\<lparr>waiting := rest, given := (given b)(i := Some d)\<rparr>) else None)"

text \<open>Who asks gets the device stored last.\<close>

definition take_newest :: "nat \<Rightarrow> mailbox \<Rightarrow> mailbox option" where
  "take_newest i b =
     (if given b i = None \<and> i \<notin> set (waiting b)
      then Some (b\<lparr>stored := butlast (stored b), given := (given b)(i := Some (last (stored b)))\<rparr>) else None)"

fun remove_first :: "('a \<Rightarrow> bool) \<Rightarrow> 'a list \<Rightarrow> 'a list" where
  "remove_first P [] = []"
| "remove_first P (x # xs) = (if P x then xs else x # remove_first P xs)"

text \<open>\<open>like d x\<close>: a device that looks like \<open>x\<close> is taken for \<open>d\<close>, when \<open>d\<close> is removed.\<close>

fun mailbox_step :: "(nat \<Rightarrow> nat \<Rightarrow> bool) \<Rightarrow> mailbox_event \<Rightarrow> mailbox \<Rightarrow> mailbox option" where
  "mailbox_step like (Put d) b = put_device d b"
| "mailbox_step like (Remove d) b = Some (b\<lparr>stored := remove_first (like d) (stored b)\<rparr>)"
| "mailbox_step like (Ask i) b = (if stored b = [] then Some b else take_newest i b)"
| "mailbox_step like (Wait i) b =
     (if stored b \<noteq> [] then take_newest i b
      else if given b i = None \<and> i \<notin> set (waiting b) then Some (b\<lparr>waiting := waiting b @ [i]\<rparr>) else None)"
| "mailbox_step like (Cancel i) b = Some (b\<lparr>waiting := remove1 i (waiting b)\<rparr>)"
| "mailbox_step like (Open ds) b =
     (if listening b then Some b else map_option (\<lambda>b. b\<lparr>listening := True\<rparr>) (run put_device ds b))"
| "mailbox_step like Clear b =
     Some (if listening b then b\<lparr>waiting := [], stored := [], listening := False\<rparr> else b)"

definition mailbox_init :: mailbox where
  "mailbox_init = \<lparr>waiting = [], stored = [], given = (\<lambda>_. None), listening = False\<rparr>"

text \<open>What each event of an acceptor is to the mailbox, and which devices \<open>listen\<close>'s callback takes for
  one that left.\<close>

fun mailbox_events :: "acceptor_event \<Rightarrow> mailbox_event list" where
  "mailbox_events (Ac_Arrive d) = [Put d]"
| "mailbox_events (Ac_Leave d) = [Remove d]"
| "mailbox_events (Ac_Ready i) = [Ask i]"
| "mailbox_events (Ac_Lock i) = [Wait i]"
| "mailbox_events (Ac_Stop i) = [Cancel i]"
| "mailbox_events (Ac_Listen r h ds) = (if r = LIBUSB_SUCCESS then [Open ds] else [])"
| "mailbox_events Ac_Shutdown = [Clear]"
| "mailbox_events e = []"

definition looks_like :: "(nat \<Rightarrow> device_descriptor) \<Rightarrow> nat \<Rightarrow> nat \<Rightarrow> bool" where
  "looks_like descr d x \<longleftrightarrow>
     wildcard_triplet_comparator (triplet_from_descriptor (descr x)) (triplet_from_descriptor (descr d))"

text \<open>The mailbox an acceptor stands for.\<close>

definition given_of :: "accept_op option \<Rightarrow> nat option" where
  "given_of x = (case x of None \<Rightarrow> None | Some q \<Rightarrow> m_dev (ao_dev q))"

definition mailbox_of :: "acceptor \<Rightarrow> mailbox" where
  "mailbox_of s = \<lparr>waiting = ac_resumptions s, stored = dev_list (ac_arrived s),
     given = (\<lambda>i. given_of (ac_ops s i)), listening = ac_handle s \<noteq> 0\<rparr>"

lemma given_of_simps [simp]:
  "given_of None = None"
  "given_of (Some q) = m_dev (ao_dev q)"
  by (simp_all add: given_of_def)

lemma m_dev_assign [simp]: "m_dev (fst (device_ref_assign a b)) = m_dev b"
  by (simp add: device_ref_assign_def)

lemma m_dev_copy [simp]: "m_dev (fst (device_ref_copy b)) = m_dev b"
  by (simp add: device_ref_copy_def)

section \<open>Invariants\<close>

text \<open>The store holds devices, each with its triplet.\<close>

definition store_ok :: "(nat \<Rightarrow> device_descriptor) \<Rightarrow> acceptor \<Rightarrow> bool" where
  "store_ok descr s \<longleftrightarrow> (\<forall>x \<in> set (ac_arrived s). \<exists>d. di_dev_ref x = \<lparr>m_dev = Some d\<rparr>
     \<and> di_triplet x = triplet_from_descriptor (descr d))"

text \<open>An accept goes on with an error or a device; it ends once, and returns one or the other.\<close>

definition answered :: "accept_op \<Rightarrow> bool" where
  "answered q \<longleftrightarrow> (ao_stage q = Resumable \<or> 0 < ao_posts q \<longrightarrow> ec_bool (ao_ec q) \<or> m_dev (ao_dev q) \<noteq> None)"

definition returned :: "acceptor \<Rightarrow> nat \<Rightarrow> error_code \<Rightarrow> device_ref \<Rightarrow> bool" where
  "returned s i ec dev \<longleftrightarrow> (\<exists>q. ac_ops s i = Some q \<and> ao_stage q = Finished
     \<and> (if ec_bool ec then m_dev dev = None else m_dev (ao_dev q) \<noteq> None \<and> m_dev dev = m_dev (ao_dev q)))"

definition results_ok :: "acceptor \<Rightarrow> bool" where
  "results_ok s \<longleftrightarrow> (\<forall>i q. ac_ops s i = Some q \<longrightarrow> answered q) \<and> distinct (map fst (ac_results s))
     \<and> (\<forall>(i, ec, dev) \<in> set (ac_results s). returned s i ec dev)"

lemma results_same:
  "results_ok s \<Longrightarrow> ac_ops t = ac_ops s \<Longrightarrow> ac_results t = ac_results s \<Longrightarrow> results_ok t"
  by (simp add: results_ok_def returned_def)

text \<open>A change of the frame of an accept that has not ended.\<close>

lemma results_frame:
  assumes "results_ok s" "\<And>q. ac_ops s i = Some q \<Longrightarrow> ao_stage q \<noteq> Finished" "answered p"
    and t: "ac_ops t = (ac_ops s)(i := Some p)" "ac_results t = ac_results s"
  shows "results_ok t"
proof -
  have "i \<notin> fst ` set (ac_results s)" using assms(1,2) by (fastforce simp: results_ok_def returned_def)
  then have "returned t j ec dev" if "(j, ec, dev) \<in> set (ac_results s)" for j ec dev
    using assms(1) that by (force simp: results_ok_def returned_def t(1))
  then show ?thesis using assms(1,3) t(2) by (auto simp: results_ok_def t(1))
qed

text \<open>The end of an accept.\<close>

lemma results_finish:
  assumes ok: "results_ok s" and q: "ac_ops s i = Some q" "ao_stage q \<noteq> Finished" "ao_stage q = Resumable \<or> 0 < ao_posts q"
  shows "results_ok (finish_accept i q s)"
proof -
  let ?q = "q\<lparr>ao_stage := Finished\<rparr>"
  obtain ec dev cs where r: "accept_resume q = ((ec, dev), cs)" by (cases "accept_resume q") auto
  let ?t = "s\<lparr>ac_ops := (ac_ops s)(i := Some ?q)\<rparr>"
  have q': "answered q" using ok q(1) by (simp add: results_ok_def)
  then have t: "results_ok ?t"
    by (intro results_frame [OF ok, where i = i and p = ?q]) (use q in \<open>auto simp: answered_def\<close>)
  have i: "i \<notin> fst ` set (ac_results s)" using ok q(1,2) by (fastforce simp: results_ok_def returned_def)
  have "if ec_bool ec then m_dev dev = None else m_dev (ao_dev q) \<noteq> None \<and> m_dev dev = m_dev (ao_dev q)"
    using r q' q(3) by (auto simp: accept_resume_def answered_def device_ref_null_def split: if_splits)
  then show ?thesis using t i
    by (auto simp: results_ok_def returned_def finish_accept_def r)
qed

definition mail_ok :: "(nat \<Rightarrow> device_descriptor) \<Rightarrow> acceptor \<Rightarrow> bool" where
  "mail_ok descr s \<longleftrightarrow> store_ok descr s \<and> results_ok s"

lemma mail_same:
  "mail_ok descr s \<Longrightarrow> ac_ops t = ac_ops s \<Longrightarrow> ac_results t = ac_results s \<Longrightarrow> ac_arrived t = ac_arrived s \<Longrightarrow> mail_ok descr t"
  using results_same [of s t] by (simp add: mail_ok_def store_ok_def)

text \<open>A step that the mailbox sees as \<open>es\<close>.\<close>

definition seen_as ::
  "(nat \<Rightarrow> device_descriptor) \<Rightarrow> mailbox_event list \<Rightarrow> acceptor \<Rightarrow> acceptor \<Rightarrow> bool" where
  "seen_as descr es s t \<longleftrightarrow>
     mail_ok descr t \<and> run (mailbox_step (looks_like descr)) es (mailbox_of s) = Some (mailbox_of t)"

lemma unseen:
  "mail_ok descr t \<Longrightarrow> mailbox_of t = mailbox_of s \<Longrightarrow> seen_as descr [] s t"
  by (simp add: seen_as_def)

lemma unseen_same:
  assumes "mail_ok descr s" "ac_ops t = ac_ops s" "ac_results t = ac_results s" "ac_arrived t = ac_arrived s"
    "ac_resumptions t = ac_resumptions s" "ac_handle t = ac_handle s"
  shows "seen_as descr [] s t"
  by (rule unseen [OF mail_same [OF assms(1-4)]]) (simp add: mailbox_of_def assms)

lemma seen_one:
  "mail_ok descr t \<Longrightarrow> mailbox_step (looks_like descr) e (mailbox_of s) = Some (mailbox_of t) \<Longrightarrow> seen_as descr [e] s t"
  by (simp add: seen_as_def)

lemma mail_frame:
  assumes "mail_ok descr s" "ac_ops s i = Some q" "ao_stage q \<noteq> Finished" "answered p"
    and "ac_ops t = (ac_ops s)(i := Some p)" "ac_results t = ac_results s" "store_ok descr t"
  shows "mail_ok descr t"
  using assms results_frame [of s i p t] by (simp add: mail_ok_def)

lemma store_okD: "mail_ok descr s \<Longrightarrow> store_ok descr s"
  by (simp add: mail_ok_def)

lemma answeredD: "mail_ok descr s \<Longrightarrow> ac_ops s i = Some q \<Longrightarrow> answered q"
  by (simp add: mail_ok_def results_ok_def)

section \<open>The callback\<close>

lemma remove_first_While:
  "takeWhile (\<lambda>x. \<not> P x) xs @ tl (dropWhile (\<lambda>x. \<not> P x) xs) = remove_first P xs"
  by (induction xs) simp_all

lemma remove_first_devices:
  assumes "store_ok descr s"
  shows "dev_list (remove_first (\<lambda>x. wildcard_triplet_comparator (di_triplet x) (triplet_from_descriptor (descr d))) (ac_arrived s)) =
    remove_first (looks_like descr d) (dev_list (ac_arrived s))"
proof -
  have "dev_list (remove_first (\<lambda>x. wildcard_triplet_comparator (di_triplet x) (triplet_from_descriptor (descr d))) xs) =
      remove_first (looks_like descr d) (dev_list xs)"
    if "\<forall>x \<in> set xs. \<exists>d. di_dev_ref x = \<lparr>m_dev = Some d\<rparr> \<and> di_triplet x = triplet_from_descriptor (descr d)" for xs
    using that by (induction xs) (auto simp: looks_like_def)
  then show ?thesis using assms by (simp add: store_ok_def)
qed

lemma set_remove_first: "set (remove_first P xs) \<subseteq> set xs"
  by (induction xs) auto

lemma on_left_fields:
  "ac_resumptions (on_left t s) = ac_resumptions s" "ac_ops (on_left t s) = ac_ops s"
  "ac_results (on_left t s) = ac_results s" "ac_handle (on_left t s) = ac_handle s"
  "ac_arrived (on_left t s) = remove_first (\<lambda>x. wildcard_triplet_comparator (di_triplet x) t) (ac_arrived s)"
proof -
  let ?P = "\<lambda>x. wildcard_triplet_comparator (di_triplet x) t"
  have "takeWhile (\<lambda>x. \<not> ?P x) (ac_arrived s) @ tl (dropWhile (\<lambda>x. \<not> ?P x) (ac_arrived s)) = ac_arrived s"
    if "dropWhile (\<lambda>x. \<not> ?P x) (ac_arrived s) = []"
    using that by (metis append_Nil2 list.sel(2) takeWhile_dropWhile_id)
  then show "ac_arrived (on_left t s) = remove_first ?P (ac_arrived s)"
    unfolding remove_first_While [symmetric] by (auto simp: on_left_def Let_def vector_erase_def)
qed (simp_all add: on_left_def Let_def vector_erase_def)

lemma callback_left:
  assumes "mail_ok descr s" shows "seen_as descr [Remove d] s (listen_callback descr d Device_Left s)"
proof (rule seen_one)
  let ?t = "listen_callback descr d Device_Left s"
  have f: "ac_ops ?t = ac_ops s" "ac_results ?t = ac_results s" "ac_resumptions ?t = ac_resumptions s"
    "ac_handle ?t = ac_handle s" "ac_arrived ?t = remove_first
       (\<lambda>x. wildcard_triplet_comparator (di_triplet x) (triplet_from_descriptor (descr d))) (ac_arrived s)"
    by (simp_all add: listen_callback_def Let_def on_left_fields)
  have st: "store_ok descr s" using assms by (rule store_okD)
  then have "store_ok descr ?t" using set_remove_first unfolding store_ok_def f by fast
  then show "mail_ok descr ?t" using assms results_same [of s ?t] by (simp add: mail_ok_def f)
  show "mailbox_step (looks_like descr) (Remove d) (mailbox_of s) = Some (mailbox_of ?t)"
    by (simp add: mailbox_of_def f remove_first_devices [OF st])
qed

lemma callback_arrived:
  assumes ok: "mail_ok descr s" and w: "waiting_ok s"
  shows "mail_ok descr (listen_callback descr d Device_Arrived s)"
    and "put_device d (mailbox_of s) = Some (mailbox_of (listen_callback descr d Device_Arrived s))"
proof -
  let ?t = "listen_callback descr d Device_Arrived s"
  have "mail_ok descr ?t \<and> put_device d (mailbox_of s) = Some (mailbox_of ?t)"
  proof (cases "ac_resumptions s")
    case Nil
    then have f: "ac_ops ?t = ac_ops s" "ac_results ?t = ac_results s" "ac_resumptions ?t = []" "ac_handle ?t = ac_handle s"
      "ac_arrived ?t = ac_arrived s @ [\<lparr>di_triplet = triplet_from_descriptor (descr d), di_dev_ref = \<lparr>m_dev = Some d\<rparr>\<rparr>]"
      by (simp_all add: listen_callback_def Let_def on_arrived_def)
    have "store_ok descr ?t" using store_okD [OF ok] by (simp add: store_ok_def f)
    then show ?thesis using ok results_same [of s ?t] by (simp add: mail_ok_def f mailbox_of_def put_device_def Nil)
  next
    case (Cons r rs)
    then have "r \<in> set (ac_resumptions s)" by simp
    then obtain q where q: "ac_ops s r = Some q" "ao_stage q = Suspended" "m_dev (ao_dev q) = None"
      using waiting_resumption [OF w] by metis
    let ?q = "q\<lparr>ao_dev := fst (device_ref_assign (ao_dev q) \<lparr>m_dev = Some d\<rparr>), ao_posts := ao_posts q + 1\<rparr>"
    have f: "ac_ops ?t = (ac_ops s)(r := Some ?q)" "ac_results ?t = ac_results s" "ac_resumptions ?t = rs"
      "ac_handle ?t = ac_handle s" "ac_arrived ?t = ac_arrived s"
      by (simp_all add: listen_callback_def Let_def on_arrived_def Cons q fun_eq_iff)
    have "store_ok descr ?t" using store_okD [OF ok] by (simp add: store_ok_def f)
    then have "mail_ok descr ?t"
      by (intro mail_frame [OF ok q(1) _ _ f(1,2)]) (simp_all add: q answered_def)
    then show ?thesis using q by (simp add: f mailbox_of_def put_device_def Cons fun_eq_iff)
  qed
  then show "mail_ok descr ?t" "put_device d (mailbox_of s) = Some (mailbox_of ?t)" by simp_all
qed

lemma present_seen:
  assumes "mail_ok descr s" "waiting_ok s"
  shows "mail_ok descr (fold (\<lambda>d. listen_callback descr d Device_Arrived) ds s)
    \<and> run put_device ds (mailbox_of s) = Some (mailbox_of (fold (\<lambda>d. listen_callback descr d Device_Arrived) ds s))"
  using assms
  by (induction ds arbitrary: s) (simp_all add: callback_arrived listen_callback_waiting)

lemma listen_seen:
  assumes ok: "mail_ok descr s" and w: "waiting_ok s"
    and h: "r = LIBUSB_SUCCESS \<and> 0 < h \<or> r \<noteq> LIBUSB_SUCCESS \<and> ds = []"
  shows "seen_as descr (mailbox_events (Ac_Listen r h ds)) s (snd (listen descr (r, h, ds) s))"
proof -
  let ?u = "fold (\<lambda>d. listen_callback descr d Device_Arrived) ds s"
  have u: "mail_ok descr ?u" "run put_device ds (mailbox_of s) = Some (mailbox_of ?u)"
    using present_seen [OF ok w] by simp_all
  have "mail_ok descr (?u\<lparr>ac_handle := h, ac_registered := ac_registered ?u @ [h]\<rparr>)"
    by (rule mail_same [OF u(1)]) simp_all
  then show ?thesis using u ok h
    by (auto simp: listen_def Let_def seen_as_def mailbox_of_def)
qed

section \<open>Shutdown\<close>

definition suspended_in :: "acceptor \<Rightarrow> nat \<Rightarrow> bool" where
  "suspended_in s i \<longleftrightarrow> (\<exists>q. ac_ops s i = Some q \<and> ao_stage q = Suspended)"

lemma cancel_mail:
  assumes "mail_ok descr s" "suspended_in s i"
  shows "mail_ok descr (cancel_resumption i s)" "suspended_in s j \<Longrightarrow> suspended_in (cancel_resumption i s) j"
proof -
  obtain q where q: "ac_ops s i = Some q" "ao_stage q = Suspended" using assms(2) by (auto simp: suspended_in_def)
  show "mail_ok descr (cancel_resumption i s)"
    by (rule mail_frame [OF assms(1) q(1), where p = "q\<lparr>ao_ec := canceled, ao_posts := ao_posts q + 1\<rparr>"])
      (use q store_okD [OF assms(1)] in \<open>auto simp: cancel_resumption_def answered_def canceled_def store_ok_def fun_eq_iff\<close>)
  show "suspended_in s j \<Longrightarrow> suspended_in (cancel_resumption i s) j"
    by (auto simp: suspended_in_def cancel_resumption_def q)
qed

lemma cancel_all_mail:
  "mail_ok descr s \<Longrightarrow> \<forall>i \<in> set xs. suspended_in s i \<Longrightarrow> mail_ok descr (fold cancel_resumption xs s)"
  by (induction xs arbitrary: s) (simp_all add: cancel_mail)

lemma fold_cancel_given:
  "given_of (ac_ops (fold cancel_resumption xs s) i) = given_of (ac_ops s i)"
proof (induction xs arbitrary: s)
  case (Cons x xs)
  have "given_of (ac_ops (cancel_resumption x s) i) = given_of (ac_ops s i)"
    by (cases "ac_ops s x") (auto simp: cancel_resumption_def)
  then show ?case using Cons.IH by simp
qed simp

lemma shutdown_seen:
  assumes ok: "mail_ok descr s" and w: "waiting_ok s"
  shows "seen_as descr [Clear] s (acceptor_shutdown s)"
proof (cases "ac_handle s = 0")
  case True
  then have "acceptor_shutdown s = s" by (simp add: acceptor_shutdown_def)
  then show ?thesis using ok True by (simp add: seen_as_def mailbox_of_def)
next
  case False
  let ?s = "deregister (ac_handle s) (s\<lparr>ac_handle := 0\<rparr>)"
  let ?u = "fold cancel_resumption (ac_resumptions s) ?s"
  have "mail_ok descr ?s" by (rule mail_same [OF ok]) simp_all
  moreover have "\<forall>i \<in> set (ac_resumptions s). suspended_in ?s i"
    using waiting_resumption [OF w] by (metis suspended_in_def deregister_simps(1) acceptor.simps(5) acceptor.ext_inject
        acceptor.surjective acceptor.update_convs(4))
  ultimately have "mail_ok descr ?u" by (rule cancel_all_mail)
  then have u: "results_ok ?u" by (simp add: mail_ok_def)
  have f: "ac_ops (acceptor_shutdown s) = ac_ops ?u" "ac_results (acceptor_shutdown s) = ac_results ?u"
    "ac_arrived (acceptor_shutdown s) = []" "ac_resumptions (acceptor_shutdown s) = []" "ac_handle (acceptor_shutdown s) = 0"
    using False cancel_handle [of ?s "ac_resumptions s"]
    by (simp_all add: acceptor_shutdown_def Let_def same_handle_def)
  have "mail_ok descr (acceptor_shutdown s)"
    using results_same [OF u, of "acceptor_shutdown s"] by (simp add: mail_ok_def store_ok_def f)
  then show ?thesis using False
    by (intro seen_one) (simp_all add: mailbox_of_def f fold_cancel_given fun_eq_iff)
qed

section \<open>The steps of an accept\<close>

lemma take_seen:
  assumes ok: "mail_ok descr s" and q: "ac_ops s i = Some q" "ao_stage q \<noteq> Finished" "m_dev (ao_dev q) = None"
    "i \<notin> set (ac_resumptions s)" and a: "ac_arrived s \<noteq> []"
  shows "mail_ok descr (set_stage Resumable i (take_back i s))"
    and "take_newest i (mailbox_of s) = Some (mailbox_of (set_stage Resumable i (take_back i s)))"
    and "stored (mailbox_of s) \<noteq> []"
proof -
  let ?t = "set_stage Resumable i (take_back i s)"
  let ?d = "di_dev_ref (last (ac_arrived s))"
  have st: "store_ok descr s" using ok by (rule store_okD)
  then obtain d where d: "?d = \<lparr>m_dev = Some d\<rparr>" using a by (force simp: store_ok_def)
  have split: "ac_arrived s = butlast (ac_arrived s) @ [last (ac_arrived s)]" using a by simp
  have dev: "dev_list (ac_arrived s) = dev_list (butlast (ac_arrived s)) @ [d]"
    by (subst split) (simp add: d)
  let ?p = "q\<lparr>ao_dev := fst (device_ref_assign (ao_dev q) ?d), ao_stage := Resumable\<rparr>"
  have f: "ac_ops ?t = (ac_ops s)(i := Some ?p)" "ac_results ?t = ac_results s" "ac_resumptions ?t = ac_resumptions s"
    "ac_arrived ?t = butlast (ac_arrived s)" "ac_handle ?t = ac_handle s"
    by (simp_all add: set_stage_def take_back_def Let_def q)
  have "store_ok descr ?t" using st by (auto simp: store_ok_def f dest: in_set_butlastD)
  then show "mail_ok descr ?t"
    by (intro mail_frame [OF ok q(1,2) _ f(1,2)]) (simp_all add: answered_def d)
  show "take_newest i (mailbox_of s) = Some (mailbox_of ?t)"
    using q by (simp add: take_newest_def mailbox_of_def f dev d fun_eq_iff)
  show "stored (mailbox_of s) \<noteq> []" by (simp add: mailbox_of_def dev)
qed

lemma unseen_frame:
  assumes ok: "mail_ok descr s" and q: "ac_ops s i = Some q" "ao_stage q \<noteq> Finished"
    and p: "answered p" "m_dev (ao_dev p) = m_dev (ao_dev q)"
    and t: "ac_ops t = (ac_ops s)(i := Some p)" "ac_results t = ac_results s" "ac_arrived t = ac_arrived s"
      "ac_resumptions t = ac_resumptions s" "ac_handle t = ac_handle s"
  shows "seen_as descr [] s t"
proof (rule unseen)
  show "mail_ok descr t"
    by (rule mail_frame [OF ok q p(1) t(1,2)]) (use store_okD [OF ok] in \<open>simp add: store_ok_def t\<close>)
  show "mailbox_of t = mailbox_of s" using q(1) p(2) by (simp add: mailbox_of_def t fun_eq_iff)
qed

lemma finish_seen:
  assumes ok: "mail_ok descr s" and q: "ac_ops s i = Some q" "ao_stage q \<noteq> Finished" "ao_stage q = Resumable \<or> 0 < ao_posts q"
  shows "seen_as descr [] s (finish_accept i q s)"
proof (rule unseen)
  show "mail_ok descr (finish_accept i q s)"
    using ok results_finish [OF _ q] by (simp add: mail_ok_def store_ok_def)
  have "ac_handle (finish_accept i q s) = ac_handle s" by (simp add: finish_accept_def split: prod.splits)
  then show "mailbox_of (finish_accept i q s) = mailbox_of s" using q(1) by (simp add: mailbox_of_def fun_eq_iff)
qed

lemma ready_seen:
  assumes ok: "mail_ok descr s" and w: "waiting_ok s" and q: "ac_ops s i = Some q" "ao_stage q = Starting"
  shows "seen_as descr [Ask i] s
    (case accept_ready i s of (ready, s) \<Rightarrow> set_stage (if ready then Resumable else Checking) i s)"
proof (cases "ac_arrived s = []")
  case True
  have o: "ao_posts q = 0" using waiting_okD [OF w q(1)] q(2) by (simp add: op_ok_def)
  have "seen_as descr [] s (set_stage Checking i s)"
    by (rule unseen_frame [OF ok q(1), where p = "q\<lparr>ao_stage := Checking\<rparr>"])
      (use q o in \<open>simp_all add: answered_def set_stage_def\<close>)
  then show ?thesis using True by (simp add: accept_ready_def seen_as_def mailbox_of_def)
next
  case False
  have o: "m_dev (ao_dev q) = None" "i \<notin> set (ac_resumptions s)" "ao_stage q \<noteq> Finished"
    using waiting_okD [OF w q(1)] q(2) by (simp_all add: op_ok_def)
  show ?thesis using take_seen [OF ok q(1) o(3,1,2) False] False by (simp add: accept_ready_def seen_as_def)
qed

lemma lock_seen:
  assumes ok: "mail_ok descr s" and w: "waiting_ok s" and q: "ac_ops s i = Some q" "ao_stage q = Locking"
  shows "seen_as descr [Wait i] s
    (case accept_lock i s of (goes_on, s) \<Rightarrow> set_stage (if goes_on then Resumable else Suspended) i s)"
proof -
  have o: "m_dev (ao_dev q) = None" "i \<notin> set (ac_resumptions s)" "ao_stage q \<noteq> Finished" "ao_posts q = 0"
    using waiting_okD [OF w q(1)] q(2) by (simp_all add: op_ok_def)
  show ?thesis
  proof (cases "ac_arrived s = []")
    case True
    let ?t = "set_stage Suspended i (snd (accept_lock i s))"
    let ?p = "q\<lparr>ao_ctx := True, ao_stage := Suspended\<rparr>"
    have f: "ac_ops ?t = (ac_ops s)(i := Some ?p)" "ac_results ?t = ac_results s" "ac_arrived ?t = []"
      "ac_resumptions ?t = ac_resumptions s @ [i]" "ac_handle ?t = ac_handle s"
      by (simp_all add: accept_lock_def set_stage_def True q)
    have "mail_ok descr ?t"
      by (rule mail_frame [OF ok q(1) o(3) _ f(1,2)]) (simp_all add: answered_def o store_ok_def f)
    then have "seen_as descr [Wait i] s ?t"
      by (rule seen_one) (use q o True in \<open>simp add: mailbox_of_def f fun_eq_iff\<close>)
    then show ?thesis using True by (simp add: accept_lock_def)
  next
    case False
    then show ?thesis using take_seen [OF ok q(1) o(3,1,2) False] by (simp add: accept_lock_def seen_as_def)
  qed
qed

lemma stop_seen:
  assumes ok: "mail_ok descr s" and w: "waiting_ok s" and q: "ac_ops s i = Some q" "ao_stage q \<noteq> Finished"
  shows "seen_as descr [Cancel i] s (stop_fn i (upd_op i (\<lambda>q. q\<lparr>ao_stop := True\<rparr>) s))" (is "seen_as _ _ _ ?t")
proof -
  let ?p = "if ao_ctx q then q\<lparr>ao_stop := True, ao_ec := canceled, ao_posts := ao_posts q + 1\<rparr> else q\<lparr>ao_stop := True\<rparr>"
  have R: "ao_ctx q \<or> i \<notin> set (ac_resumptions s)"
    using waiting_okD [OF w q(1)] by (auto simp: op_ok_def split: accept_stage.splits)
  have f: "ac_ops ?t = (ac_ops s)(i := Some ?p)" "ac_results ?t = ac_results s" "ac_arrived ?t = ac_arrived s"
    "ac_resumptions ?t = remove1 i (ac_resumptions s)" "ac_handle ?t = ac_handle s"
    using R by (auto simp: stop_fn_def Let_def q remove1_idem)
  have a: "answered ?p" using answeredD [OF ok q(1)] by (simp add: answered_def canceled_def)
  have "mail_ok descr ?t"
    by (rule mail_frame [OF ok q a f(1,2)]) (use store_okD [OF ok] in \<open>simp add: store_ok_def f\<close>)
  then show ?thesis
    by (rule seen_one) (use q in \<open>simp add: mailbox_of_def f fun_eq_iff\<close>)
qed

section \<open>Simulation\<close>

lemma event_seen:
  assumes ok: "mail_ok descr s" and w: "waiting_ok s" and st: "acceptor_event_step descr e s = Some t"
  shows "seen_as descr (mailbox_events e) s t"
proof (cases e)
  case (Ac_Bind tr)
  then show ?thesis using st unseen_same [OF ok, of t] by (auto simp: bind_acceptor_def)
next
  case (Ac_Bind_Ec tr)
  then show ?thesis using st unseen_same [OF ok, of t] by (auto simp: bind_ec_def)
next
  case (Ac_Listen r h ds)
  then show ?thesis using st listen_seen [OF ok w, of r h ds] by (simp split: if_splits)
next
  case Ac_Close
  then show ?thesis using st unseen_same [OF ok, of t] by (auto simp: close_acceptor_def)
next
  case Ac_Shutdown
  then show ?thesis using st shutdown_seen [OF ok w] by auto
next
  case (Ac_Arrive d)
  then show ?thesis using st callback_arrived [OF ok w, of d] by (auto simp: seen_as_def split: if_splits)
next
  case (Ac_Leave d)
  then show ?thesis using st callback_left [OF ok, of d] by (auto split: if_splits)
next
  case (Ac_Accept i b)
  then have i: "ac_ops s i = None" and t: "t = s\<lparr>ac_ops := (ac_ops s)(i := Some (fresh_accept b))\<rparr>"
    using st by (auto split: if_splits)
  have "results_ok s" using ok by (simp add: mail_ok_def)
  then have "results_ok t"
    by (rule results_frame [where i = i and p = "fresh_accept b"]) (simp_all add: t i answered_def fresh_accept_def)
  then have "mail_ok descr t" using store_okD [OF ok] by (simp add: mail_ok_def store_ok_def t)
  then show ?thesis using i
    by (simp add: Ac_Accept seen_as_def mailbox_of_def t fun_eq_iff fresh_accept_def device_ref_null_def)
next
  case (Ac_Ready i)
  then have "at_stage i Starting (\<lambda>q. case accept_ready i s of
       (ready, s) \<Rightarrow> set_stage (if ready then Resumable else Checking) i s) s = Some t" using st by simp
  then show ?thesis unfolding Ac_Ready by (rule at_stageD) (use ready_seen [OF ok w] in auto)
next
  case (Ac_Check i)
  then have "at_stage i Checking (\<lambda>q. case accept_check (ao_stop q) i s of
       (goes_on, s) \<Rightarrow> set_stage (if goes_on then Resumable else Locking) i s) s = Some t" using st by simp
  then obtain q where q: "ac_ops s i = Some q" "ao_stage q = Checking"
      and t: "t = (case accept_check (ao_stop q) i s of
        (goes_on, s) \<Rightarrow> set_stage (if goes_on then Resumable else Locking) i s)" by (rule at_stageD)
  have o: "ao_posts q = 0" using waiting_okD [OF w q(1)] q(2) by (simp add: op_ok_def)
  have "seen_as descr [] s t"
    by (rule unseen_frame [OF ok q(1), where p =
          "if ao_stop q then q\<lparr>ao_ec := canceled, ao_stage := Resumable\<rparr> else q\<lparr>ao_stage := Locking\<rparr>"])
      (use q o in \<open>simp_all add: t accept_check_def set_stage_def answered_def canceled_def\<close>)
  then show ?thesis by (simp add: Ac_Check)
next
  case (Ac_Lock i)
  then have "at_stage i Locking (\<lambda>q. case accept_lock i s of
       (goes_on, s) \<Rightarrow> set_stage (if goes_on then Resumable else Suspended) i s) s = Some t" using st by simp
  then show ?thesis unfolding Ac_Lock by (rule at_stageD) (use lock_seen [OF ok w] in auto)
next
  case (Ac_Resume i)
  then have "at_stage i Resumable (\<lambda>q. finish_accept i q s) s = Some t" using st by simp
  then show ?thesis unfolding Ac_Resume by (rule at_stageD) (use finish_seen [OF ok] in auto)
next
  case (Ac_Stop i)
  then show ?thesis using st stop_seen [OF ok w] by (auto split: option.splits if_splits)
next
  case Ac_Dispatch
  then obtain i P q where P: "ac_posted s = i # P" and q: "ac_ops s i = Some q"
    and t: "t = (if ao_stage q = Suspended then finish_accept i q (s\<lparr>ac_posted := P\<rparr>)
                 else (s\<lparr>ac_posted := P\<rparr>)\<lparr>ac_broken := True\<rparr>)"
    using st by (auto simp: Let_def split: list.splits option.splits if_splits)
  have m: "mail_ok descr (s\<lparr>ac_posted := P\<rparr>)" "mail_ok descr ((s\<lparr>ac_posted := P\<rparr>)\<lparr>ac_broken := True\<rparr>)"
    by (rule mail_same [OF ok]; simp)+
  show ?thesis
  proof (cases "ao_stage q = Suspended")
    case True
    have "0 < ao_posts q" using waiting_okD [OF w q] True P by (auto simp: op_ok_def)
    then have "seen_as descr [] (s\<lparr>ac_posted := P\<rparr>) t"
      using finish_seen [OF m(1), of i q] q True by (simp add: t)
    then show ?thesis by (simp add: Ac_Dispatch seen_as_def mailbox_of_def)
  next
    case False
    then show ?thesis using m(2) by (simp add: Ac_Dispatch seen_as_def mailbox_of_def t)
  qed
qed

definition mailbox_inv :: "(nat \<Rightarrow> device_descriptor) \<Rightarrow> acceptor \<Rightarrow> bool" where
  "mailbox_inv descr s \<longleftrightarrow> acceptor_ok s \<and> mail_ok descr s"

lemma mailbox_inv_step:
  assumes "mailbox_inv descr s" "acceptor_step descr e s = Some t"
  shows "mailbox_inv descr t \<and> run (mailbox_step (looks_like descr)) (mailbox_events e) (mailbox_of s) = Some (mailbox_of t)"
proof -
  note st = acceptor_stepD [OF assms(2)]
  have ok: "acceptor_ok s" "mail_ok descr s" using assms(1) by (simp_all add: mailbox_inv_def)
  then have "waiting_ok s" using st(1) by (simp add: acceptor_ok_def)
  from event_seen [OF ok(2) this st(2)] show ?thesis
    using acceptor_step_ok [OF ok(1) assms(2)] by (simp add: mailbox_inv_def seen_as_def)
qed

interpretation acceptor_mailbox: event_simulation "acceptor_step descr" "mailbox_inv descr"
  "mailbox_step (looks_like descr)" mailbox_of mailbox_events
  by unfold_locales (use mailbox_inv_step in blast)+

text \<open>C4: whatever the threads, libusb and the stop tokens do, the acceptor is a mailbox that sees, event
  by event, what the acceptor is asked: each arrival goes to the accept that has waited longest or is
  stored if none waits; an accept takes the device stored last, and waits only if there is none; a
  device that leaves is taken out of the store, the first that looks like it; a stop takes a waiting
  accept off the queue; nobody is given two devices.  And what accepts return is what the mailbox gave
  them: each returns at most once, with a device and no error, or with an error and no device.\<close>

theorem acceptor_refines_mailbox:
  assumes "run (acceptor_step descr) es acceptor_init = Some s"
  shows "run (mailbox_step (looks_like descr)) (concat (map mailbox_events es)) mailbox_init = Some (mailbox_of s)
    \<and> distinct (map fst (ac_results s))
    \<and> (\<forall>(i, ec, dev) \<in> set (ac_results s). if ec_bool ec then m_dev dev = None
          else given (mailbox_of s) i \<noteq> None \<and> m_dev dev = given (mailbox_of s) i)"
proof -
  have init: "mailbox_inv descr acceptor_init" "mailbox_of acceptor_init = mailbox_init"
    using acceptor_init_ok by (simp_all add: mailbox_inv_def mail_ok_def store_ok_def results_ok_def acceptor_init_def
        mailbox_of_def mailbox_init_def)
  have ok: "results_ok s" using acceptor_mailbox.run_inv [OF assms init(1)] by (simp add: mailbox_inv_def mail_ok_def)
  have "if ec_bool ec then m_dev dev = None else given (mailbox_of s) i \<noteq> None \<and> m_dev dev = given (mailbox_of s) i"
    if "(i, ec, dev) \<in> set (ac_results s)" for i ec dev
    using ok that by (fastforce simp: results_ok_def returned_def mailbox_of_def)
  then have "case x of (i, ec, dev) \<Rightarrow> if ec_bool ec then m_dev dev = None
      else given (mailbox_of s) i \<noteq> None \<and> m_dev dev = given (mailbox_of s) i" if "x \<in> set (ac_results s)" for x
    using that by (cases x) simp
  then show ?thesis using ok acceptor_mailbox.run_events [OF assms init(1)] unfolding init(2) results_ok_def by blast
qed

text \<open>An accept takes the device that is there, two wait, one arrives and is delivered to the first of
  them.\<close>

definition ex_mailbox :: "acceptor_event list" where
  "ex_mailbox = [Ac_Listen 0 1 [7], Ac_Accept 0 False, Ac_Ready 0, Ac_Resume 0,
     Ac_Accept 1 False, Ac_Ready 1, Ac_Check 1, Ac_Lock 1, Ac_Accept 2 False, Ac_Ready 2, Ac_Check 2, Ac_Lock 2,
     Ac_Arrive 8, Ac_Dispatch]"

lemma ex_mailbox_run:
  "\<exists>s. run (acceptor_step ex_descr) ex_mailbox acceptor_init = Some s
     \<and> map fst (ac_results s) = [0, 1] \<and> ac_resumptions s = [2]"
  unfolding ex_mailbox_def acceptor_init_def by (rule run_satD) code_simp

theorem acceptor_refines_mailbox_witness:
  "\<exists>b. run (mailbox_step (looks_like ex_descr)) [Open [7], Ask 0, Ask 1, Wait 1, Ask 2, Wait 2, Put 8] mailbox_init = Some b
     \<and> waiting b = [2]"
proof -
  obtain s where s: "run (acceptor_step ex_descr) ex_mailbox acceptor_init = Some s" "ac_resumptions s = [2]"
    using ex_mailbox_run by blast
  from acceptor_refines_mailbox [OF s(1)] show ?thesis using s(2) by (auto simp: ex_mailbox_def mailbox_of_def)
qed

end
