(* ===== verification/Acceptor_Shutdown.thy ===== *)
theory Acceptor_Shutdown
  imports Acceptor_Devices
begin

text \<open>
  \<open>device_acceptor::shutdown\<close> section by section.  It lets go of its mutex around every
  continuation it posts, so what other threads do to the acceptor comes between the steps of its
  loop.  Left alone it does what \<open>acceptor_shutdown\<close> does in one step, which is how the other
  theories have it; here is what happens when it is not left alone.
\<close>

section \<open>The loop as steps\<close>

text \<open>
  The program counter of the thread in \<open>shutdown\<close>: not in it; the handle taken out; deregistered; in
  the loop with the mutex released, before it writes to the frame of the element its iterator is
  at; the continuation posted, before it locks the mutex again.  The loop's \<open>begin\<close> and \<open>end\<close> are
  iterators into the vector as it was when the loop began; \<open>Sd_Overrun\<close>: one of them was used
  after the vector had changed.  \<open>Sd_Dead_Frame\<close>: the loop wrote into a frame that was destroyed.
\<close>

datatype shutdown_pc =
    Sd_Out | Sd_Taken int | Sd_Deregistered | Sd_Unlocked "nat list" nat | Sd_Posted "nat list" nat
  | Sd_Overrun | Sd_Dead_Frame

record shutting =
  sh_acceptor :: acceptor
  sh_pc :: shutdown_pc

text \<open>\<open>m_resumptions.clear(); m_arrived_devices.clear();\<close>\<close>

definition shutdown_clear :: "acceptor \<Rightarrow> acceptor" where
  "shutdown_clear s =
     (log_calls (concat (map (\<lambda>d. device_ref_dtor (di_dev_ref d)) (ac_arrived s))) s)
       \<lparr>ac_resumptions := [], ac_arrived := [], ac_gone := ac_gone s @ dev_list (ac_arrived s)\<rparr>"

text \<open>The head of the loop at position \<open>k\<close> of the vector \<open>v\<close>, with the mutex held.\<close>

definition shutdown_loop :: "nat list \<Rightarrow> nat \<Rightarrow> acceptor \<Rightarrow> shutting" where
  "shutdown_loop v k s =
     (if k = length v then \<lparr>sh_acceptor = shutdown_clear s, sh_pc = Sd_Out\<rparr>
      else \<lparr>sh_acceptor = s, sh_pc = Sd_Unlocked v k\<rparr>)"

definition frame_alive :: "nat \<Rightarrow> acceptor \<Rightarrow> bool" where
  "frame_alive i s \<longleftrightarrow> (case ac_ops s i of None \<Rightarrow> False | Some q \<Rightarrow> ao_stage q \<noteq> Finished)"

fun shutdown_section :: "shutting \<Rightarrow> shutting option" where
  "shutdown_section w =
     (case sh_pc w of
        Sd_Out \<Rightarrow>
          let handle = ac_handle (sh_acceptor w) in
          Some (if handle = 0 then w
                else w\<lparr>sh_acceptor := (sh_acceptor w)\<lparr>ac_handle := 0\<rparr>, sh_pc := Sd_Taken handle\<rparr>)
      | Sd_Taken handle \<Rightarrow>
          Some (w\<lparr>sh_acceptor := deregister handle (sh_acceptor w), sh_pc := Sd_Deregistered\<rparr>)
      | Sd_Deregistered \<Rightarrow>
          Some (shutdown_loop (ac_resumptions (sh_acceptor w)) 0 (sh_acceptor w))
      | Sd_Unlocked v k \<Rightarrow>
          Some (if frame_alive (v ! k) (sh_acceptor w)
                then w\<lparr>sh_acceptor := cancel_resumption (v ! k) (sh_acceptor w), sh_pc := Sd_Posted v k\<rparr>
                else w\<lparr>sh_pc := Sd_Dead_Frame\<rparr>)
      | Sd_Posted v k \<Rightarrow>
          Some (if ac_resumptions (sh_acceptor w) = v then shutdown_loop v (k + 1) (sh_acceptor w)
                else w\<lparr>sh_pc := Sd_Overrun\<rparr>)
      | Sd_Overrun \<Rightarrow> None
      | Sd_Dead_Frame \<Rightarrow> None)"

text \<open>Other threads may do meanwhile whatever can be done to an acceptor: libusb, the coroutines that
  accept, the executor, and who calls \<open>bind\<close>, \<open>listen\<close>, \<open>close\<close>, or \<open>shutdown\<close> too.\<close>

datatype shutdown_event = Sd_Section | Sd_Other acceptor_event

fun shutdown_step :: "(nat \<Rightarrow> device_descriptor) \<Rightarrow> shutdown_event \<Rightarrow> shutting \<Rightarrow> shutting option" where
  "shutdown_step descr Sd_Section w = shutdown_section w"
| "shutdown_step descr (Sd_Other e) w =
     map_option (\<lambda>s. w\<lparr>sh_acceptor := s\<rparr>) (acceptor_step descr e (sh_acceptor w))"

lemma cancel_keeps [simp]:
  "ac_resumptions (cancel_resumption i s) = ac_resumptions s" "ac_arrived (cancel_resumption i s) = ac_arrived s"
  "ac_registered (cancel_resumption i s) = ac_registered s" "ac_broken (cancel_resumption i s) = ac_broken s"
  "ac_gone (cancel_resumption i s) = ac_gone s" "ac_handle (cancel_resumption i s) = ac_handle s"
  by (simp_all add: cancel_resumption_def post_def)

lemma fold_cancel_keeps:
  "ac_resumptions (fold cancel_resumption xs s) = ac_resumptions s"
  "ac_arrived (fold cancel_resumption xs s) = ac_arrived s"
  by (induction xs arbitrary: s) simp_all

section \<open>Left alone\<close>

lemma loop_alone:
  assumes "\<forall>i \<in> set (drop k v). frame_alive i s" "ac_resumptions s = v" "k \<le> length v"
  shows "run (shutdown_step descr) (replicate (2 * (length v - k)) Sd_Section) (shutdown_loop v k s) =
    Some \<lparr>sh_acceptor = shutdown_clear (fold cancel_resumption (drop k v) s), sh_pc = Sd_Out\<rparr>"
  using assms
proof (induction "length v - k" arbitrary: k s)
  case 0
  then show ?case by (simp add: shutdown_loop_def)
next
  case (Suc n)
  then have k: "k < length v" "n = length v - Suc k" by simp_all
  then have d: "drop k v = v ! k # drop (Suc k) v" by (simp add: Cons_nth_drop_Suc)
  let ?t = "cancel_resumption (v ! k) s"
  have alive: "frame_alive i ?t" if "frame_alive i s" for i
    using that by (auto simp: frame_alive_def cancel_resumption_def split: option.splits)
  have "run (shutdown_step descr) (replicate (2 * (length v - Suc k)) Sd_Section) (shutdown_loop v (Suc k) ?t) =
      Some \<lparr>sh_acceptor = shutdown_clear (fold cancel_resumption (drop (Suc k) v) ?t), sh_pc = Sd_Out\<rparr>"
    by (rule Suc.hyps(1)) (use Suc.prems k d alive in \<open>simp_all add: cancel_resumptions\<close>)
  moreover have "2 * (length v - k) = Suc (Suc (2 * (length v - Suc k)))" using k(1) by simp
  ultimately show ?case using k d Suc.prems
    by (simp add: shutdown_loop_def [of v k] cancel_resumptions)
qed

lemma fold_cancel_calls: "ac_calls (fold cancel_resumption xs s) = ac_calls s"
  by (induction xs arbitrary: s) (simp_all add: cancel_resumption_def)

lemma shutdown_zero: "ac_handle (acceptor_shutdown s) = 0"
  using cancel_handle [of "deregister (ac_handle s) (s\<lparr>ac_handle := 0\<rparr>)" "ac_resumptions s"]
  by (simp add: acceptor_shutdown_def Let_def same_handle_def)

lemma shutdown_ops:
  assumes ok: "waiting_ok s" and h: "ac_handle s \<noteq> 0"
  shows "ac_ops (acceptor_shutdown s) i = (if i \<in> set (ac_resumptions s)
     then map_option (\<lambda>q. q\<lparr>ao_ec := canceled, ao_posts := ao_posts q + 1\<rparr>) (ac_ops s i) else ac_ops s i)"
proof -
  let ?s = "deregister (ac_handle s) (s\<lparr>ac_handle := 0\<rparr>)"
  have "distinct (ac_resumptions s)" using ok by (simp add: waiting_ok_def)
  moreover have "ac_ops ?s i \<noteq> None" if "i \<in> set (ac_resumptions s)" for i
    using waiting_resumption [OF ok that] by auto
  ultimately show ?thesis using fold_cancel [of "ac_resumptions s" ?s] h
    by (simp add: acceptor_shutdown_def Let_def)
qed

lemma waiting_alive: "waiting_ok s \<Longrightarrow> i \<in> set (ac_resumptions s) \<Longrightarrow> frame_alive i s"
  by (auto simp: frame_alive_def elim!: waiting_resumption)

text \<open>In steps or in one, if nobody comes between them.\<close>

lemma shutdown_alone:
  assumes "run (acceptor_step descr) es acceptor_init = Some s" "\<not> ac_broken s" "ac_handle s \<noteq> 0"
  shows "run (shutdown_step descr) (replicate (3 + 2 * length (ac_resumptions s)) Sd_Section)
      \<lparr>sh_acceptor = s, sh_pc = Sd_Out\<rparr> = Some \<lparr>sh_acceptor = acceptor_shutdown s, sh_pc = Sd_Out\<rparr>"
proof -
  have ok: "waiting_ok s" using acceptor_run_ok [OF assms(1)] assms(2) by (simp add: acceptor_ok_def)
  let ?s = "deregister (ac_handle s) (s\<lparr>ac_handle := 0\<rparr>)"
  have alive: "\<forall>i \<in> set (drop 0 (ac_resumptions s)). frame_alive i ?s"
    using waiting_alive [OF ok] by (simp add: frame_alive_def)
  have clear: "shutdown_clear (fold cancel_resumption (ac_resumptions s) ?s) = acceptor_shutdown s"
    using assms(3) by (simp add: shutdown_clear_def acceptor_shutdown_def Let_def fold_cancel_keeps)
  have three: "replicate (3 + n) x = x # x # x # replicate n x" for n and x :: shutdown_event
    by (simp add: numeral_3_eq_3)
  show ?thesis using loop_alone [OF alive, of descr] assms(3) clear
    by (simp only: three) (simp add: Let_def)
qed

text \<open>C34: the shutdown of an acceptor that listens, its sections one after the other, deregisters the
  callback, posts the continuation of every waiting accept once, in the order in which they wait and
  with \<open>operation_canceled\<close>, leaves nobody waiting and nothing stored, releases the reference of every
  stored device and no other, and takes no reference.\<close>

theorem shutdown_cancels_and_clears:
  assumes "run (acceptor_step descr) es acceptor_init = Some s" "\<not> ac_broken s" "ac_handle s \<noteq> 0"
  shows "\<exists>t. run (shutdown_step descr) (replicate (3 + 2 * length (ac_resumptions s)) Sd_Section)
        \<lparr>sh_acceptor = s, sh_pc = Sd_Out\<rparr> = Some \<lparr>sh_acceptor = t, sh_pc = Sd_Out\<rparr>
    \<and> ac_handle t = 0 \<and> ac_registered t = [] \<and> ac_resumptions t = [] \<and> ac_arrived t = []
    \<and> ac_posted t = ac_posted s @ ac_resumptions s
    \<and> refs_of (ac_calls t) = refs_of (ac_calls s)
    \<and> unrefs_of (ac_calls t) = unrefs_of (ac_calls s) @ dev_list (ac_arrived s)
    \<and> (\<forall>i q. ac_ops s i = Some q \<longrightarrow> (\<exists>p. ac_ops t i = Some p
          \<and> (if i \<in> set (ac_resumptions s) then ao_posts p = 1 \<and> fst (fst (accept_resume p)) = canceled else p = q)))"
proof -
  let ?t = "acceptor_shutdown s"
  have ok: "waiting_ok s" using acceptor_run_ok [OF assms(1)] assms(2) by (simp add: acceptor_ok_def)
  have "ac_posted ?t = ac_posted s @ ac_resumptions s" "ac_resumptions ?t = []" "ac_arrived ?t = []"
    using shutdown_cancels_all_waiting [OF assms(1,2)] assms(3) by simp_all
  moreover have "ac_handle ?t = 0" "ac_registered ?t = []"
    using shutdown_zero assms(3) shutdown_handle [OF registered_run [OF assms(1)]] by simp_all
  moreover have "refs_of (ac_calls ?t) = refs_of (ac_calls s)"
    "unrefs_of (ac_calls ?t) = unrefs_of (ac_calls s) @ dev_list (ac_arrived s)"
    using assms(3) by (simp_all add: acceptor_shutdown_def Let_def fold_cancel_calls fold_cancel_keeps dtor_list)
  moreover have "\<exists>p. ac_ops ?t i = Some p
      \<and> (if i \<in> set (ac_resumptions s) then ao_posts p = 1 \<and> fst (fst (accept_resume p)) = canceled else p = q)"
    if "ac_ops s i = Some q" for i q
    using shutdown_ops [OF ok assms(3), of i] waiting_okD [OF ok that] that
    by (auto simp: accept_resume_def canceled_def op_ok_def split: accept_stage.splits)
  ultimately show ?thesis using shutdown_alone [OF assms] by blast
qed

section \<open>Not left alone\<close>

text \<open>An event that leaves the vector the loop runs over as it is, and one that registers a callback
  again.\<close>

fun quiet :: "acceptor_event \<Rightarrow> bool" where
  "quiet (Ac_Stop i) = False"
| "quiet (Ac_Lock i) = False"
| "quiet e = True"

fun listens_again :: "acceptor_event \<Rightarrow> bool" where
  "listens_again (Ac_Listen r h ds) = (r = LIBUSB_SUCCESS)"
| "listens_again e = False"

fun in_loop :: "shutdown_pc \<Rightarrow> bool" where
  "in_loop (Sd_Unlocked v k) = True"
| "in_loop (Sd_Posted v k) = True"
| "in_loop _ = False"

text \<open>The steps when no accept is stopped and none begins to wait while the loop runs, and the acceptor
  does not listen again before the shutdown is over.\<close>

definition quiet_step :: "(nat \<Rightarrow> device_descriptor) \<Rightarrow> shutdown_event \<Rightarrow> shutting \<Rightarrow> shutting option" where
  "quiet_step descr ev w =
     (case ev of
        Sd_Section \<Rightarrow> shutdown_step descr ev w
      | Sd_Other e \<Rightarrow>
          if in_loop (sh_pc w) \<and> \<not> quiet e \<or> sh_pc w \<noteq> Sd_Out \<and> listens_again e then None
          else shutdown_step descr ev w)"

text \<open>What holds of the acceptor between the sections; \<open>pending s xs\<close>: only \<open>xs\<close> still wait.\<close>

definition pending :: "acceptor \<Rightarrow> nat list \<Rightarrow> bool" where
  "pending s xs \<longleftrightarrow> ac_handle s = 0 \<and> ac_registered s = [] \<and> waiting_ok (s\<lparr>ac_resumptions := xs\<rparr>)"

definition shutting_ok :: "shutting \<Rightarrow> bool" where
  "shutting_ok w \<longleftrightarrow>
     (let s = sh_acceptor w in
      ac_broken s \<or>
      (case sh_pc w of
         Sd_Out \<Rightarrow> waiting_ok s \<and> registered_ok s
       | Sd_Taken h \<Rightarrow> waiting_ok s \<and> ac_handle s = 0 \<and> ac_registered s \<in> {[], [h]}
       | Sd_Deregistered \<Rightarrow> waiting_ok s \<and> ac_handle s = 0 \<and> ac_registered s = []
       | Sd_Unlocked v k \<Rightarrow> ac_resumptions s = v \<and> k < length v \<and> pending s (drop k v)
       | Sd_Posted v k \<Rightarrow> ac_resumptions s = v \<and> k < length v \<and> pending s (drop (Suc k) v)
       | Sd_Overrun \<Rightarrow> False
       | Sd_Dead_Frame \<Rightarrow> False))"

lemma pending_self [simp]: "ac_handle s = 0 \<Longrightarrow> ac_registered s = [] \<Longrightarrow> pending s (ac_resumptions s) \<longleftrightarrow> waiting_ok s"
  by (simp add: pending_def)

lemma clear_ok:
  assumes "pending s []" shows "waiting_ok (shutdown_clear s)" "ac_registered (shutdown_clear s) = []"
proof -
  show "waiting_ok (shutdown_clear s)"
    using assms by (auto simp: pending_def intro: waiting_same simp: shutdown_clear_def)
  show "ac_registered (shutdown_clear s) = []"
    using assms by (simp add: pending_def shutdown_clear_def log_calls_def)
qed

lemma loop_ok:
  assumes "ac_broken s \<or> ac_resumptions s = v \<and> k \<le> length v \<and> pending s (drop k v)"
  shows "shutting_ok (shutdown_loop v k s)"
proof (cases "ac_broken s")
  case True
  then show ?thesis by (simp add: shutting_ok_def shutdown_loop_def shutdown_clear_def)
next
  case False
  then show ?thesis using assms clear_ok [of s]
    by (auto simp: shutting_ok_def shutdown_loop_def registered_ok_def)
qed

lemma section_ok:
  assumes ok: "shutting_ok w" and st: "shutdown_section w = Some w'"
  shows "shutting_ok w'"
proof (cases "sh_pc w")
  case Sd_Out
  then show ?thesis using ok st
    by (auto simp: shutting_ok_def registered_ok_def waiting_log Let_def split: if_splits)
next
  case (Sd_Taken h)
  then show ?thesis using ok st
    by (auto simp: shutting_ok_def waiting_log Let_def) (simp_all add: deregister_def)
next
  case Sd_Deregistered
  let ?s = "sh_acceptor w"
  have "w' = shutdown_loop (ac_resumptions ?s) 0 ?s" using st Sd_Deregistered by simp
  moreover have "shutting_ok (shutdown_loop (ac_resumptions ?s) 0 ?s)"
    by (rule loop_ok) (use ok Sd_Deregistered in \<open>auto simp: shutting_ok_def Let_def\<close>)
  ultimately show ?thesis by simp
next
  case (Sd_Unlocked v k)
  show ?thesis
  proof (cases "ac_broken (sh_acceptor w)")
    case True
    then show ?thesis using st Sd_Unlocked by (auto simp: shutting_ok_def Let_def split: if_splits)
  next
    case False
    then have v: "ac_resumptions (sh_acceptor w) = v" "k < length v" and p: "pending (sh_acceptor w) (drop k v)"
      using ok Sd_Unlocked by (simp_all add: shutting_ok_def Let_def)
    have d: "drop k v = v ! k # drop (Suc k) v" using v(2) by (simp add: Cons_nth_drop_Suc)
    have wt: "waiting_ok ((sh_acceptor w)\<lparr>ac_resumptions := v ! k # drop (Suc k) v\<rparr>)"
      using p d by (simp add: pending_def)
    then have "frame_alive (v ! k) (sh_acceptor w)"
      using waiting_alive [OF wt, of "v ! k"] by (simp add: frame_alive_def)
    then show ?thesis using st Sd_Unlocked v cancel_waiting [OF wt] p
      by (auto simp: shutting_ok_def Let_def pending_def cancel_resumptions)
  qed
next
  case (Sd_Posted v k)
  then show ?thesis using ok st loop_ok [of "sh_acceptor w" v "k + 1"]
    by (auto simp: shutting_ok_def Let_def split: if_splits)
next
  case Sd_Overrun
  then show ?thesis using st by simp
next
  case Sd_Dead_Frame
  then show ?thesis using st by simp
qed

text \<open>With no handle stored, what is called on the acceptor itself changes at most its filter; the other
  events leave handle and registration alone.\<close>

fun called :: "acceptor_event \<Rightarrow> bool" where
  "called (Ac_Bind tr) = True"
| "called (Ac_Bind_Ec tr) = True"
| "called (Ac_Listen r h ds) = True"
| "called Ac_Close = True"
| "called Ac_Shutdown = True"
| "called e = False"

lemma called_idle:
  assumes "acceptor_step descr e s = Some t" "called e" "\<not> listens_again e" "ac_handle s = 0"
  shows "\<exists>f. t = s\<lparr>ac_filter := f\<rparr>"
proof -
  have self: "\<exists>f. u = u\<lparr>ac_filter := f\<rparr>" for u :: acceptor by (rule exI [of _ "ac_filter u"]) simp
  have "s\<lparr>ac_handle := 0\<rparr> = s" using assms(4) by simp
  then have zero: "\<exists>f. s\<lparr>ac_handle := 0\<rparr> = s\<lparr>ac_filter := f\<rparr>" using self [of s] by simp
  show ?thesis using acceptor_stepD [OF assms(1)] assms(2-4)
    by (cases e) (auto simp: bind_acceptor_def bind_ec_def listen_def close_acceptor_def acceptor_shutdown_def Let_def
        self zero split: if_splits)
qed

lemma filter_ok:
  "waiting_ok (s\<lparr>ac_filter := f\<rparr>) \<longleftrightarrow> waiting_ok s"
  "pending (s\<lparr>ac_filter := f\<rparr>) xs \<longleftrightarrow> pending s xs"
  by (simp_all add: waiting_ok_def pending_def)

text \<open>In the loop a quiet event does the same whoever is still in the vector.\<close>

lemma quiet_commutes:
  assumes "acceptor_step descr e s = Some t" "\<not> called e" "quiet e" "ac_registered s = []"
  shows "acceptor_step descr e (s\<lparr>ac_resumptions := xs\<rparr>) = Some (t\<lparr>ac_resumptions := xs\<rparr>)"
    "ac_resumptions t = ac_resumptions s" "ac_registered t = []"
  using assms
  by (cases e; auto simp: acceptor_step_def at_stage_def accept_ready_def accept_check_def set_stage_def
      take_back_def finish_accept_def Let_def upd_op_def log_calls_def
      split: option.splits if_splits list.splits prod.splits)+

lemma other_ok:
  assumes ok: "shutting_ok w" and st: "acceptor_step descr e (sh_acceptor w) = Some t"
    and e: "in_loop (sh_pc w) \<longrightarrow> quiet e" "sh_pc w \<noteq> Sd_Out \<longrightarrow> \<not> listens_again e"
  shows "shutting_ok (w\<lparr>sh_acceptor := t\<rparr>)"
proof -
  let ?s = "sh_acceptor w"
  have nb: "\<not> ac_broken ?s" using st by (rule acceptor_stepD)
  have wt: "ac_broken t \<or> waiting_ok t" if "waiting_ok ?s"
    using acceptor_step_ok [OF _ st] that nb by (auto simp: acceptor_ok_def split: if_splits)
  consider "sh_pc w = Sd_Out" | "sh_pc w \<noteq> Sd_Out" "called e" | "sh_pc w \<noteq> Sd_Out" "\<not> called e" by blast
  then show ?thesis
  proof cases
    case 1
    then show ?thesis using ok nb wt registered_step [OF _ st] by (auto simp: shutting_ok_def Let_def)
  next
    case 2
    then have "ac_handle ?s = 0" using ok nb by (cases "sh_pc w") (auto simp: shutting_ok_def Let_def pending_def)
    then obtain f where "t = ?s\<lparr>ac_filter := f\<rparr>" using called_idle [OF st 2(2)] 2(1) e(2) by blast
    then show ?thesis using ok nb 2(1)
      by (cases "sh_pc w") (auto simp: shutting_ok_def Let_def filter_ok)
  next
    case 3
    have h: "same_handle ?s t" by (rule other_events_handle [OF st]) (use 3(2) in auto)
    have p: "ac_resumptions t = ac_resumptions ?s \<and> (ac_broken t \<or> pending t xs)"
      if "pending ?s xs" "in_loop (sh_pc w)" for xs
    proof -
      have r: "ac_registered ?s = []" and q: "quiet e" using that e(1) by (simp_all add: pending_def)
      have "acceptor_ok (?s\<lparr>ac_resumptions := xs\<rparr>)" using that nb by (simp add: acceptor_ok_def pending_def)
      from acceptor_step_ok [OF this quiet_commutes(1) [OF st 3(2) q r]]
      show ?thesis using quiet_commutes(2,3) [OF st 3(2) q r] h that(1)
        by (auto simp: pending_def acceptor_ok_def same_handle_def split: if_splits)
    qed
    show ?thesis using ok nb wt h p 3(1)
      by (cases "sh_pc w") (auto simp: shutting_ok_def Let_def same_handle_def)
  qed
qed

lemma quiet_step_ok: "shutting_ok w \<Longrightarrow> quiet_step descr ev w = Some w' \<Longrightarrow> shutting_ok w'"
  by (cases ev) (auto simp: quiet_step_def simp del: shutdown_section.simps split: if_splits
      dest: section_ok intro: other_ok)

interpretation quiet_shutdown: machine "quiet_step descr" shutting_ok
  by unfold_locales (rule quiet_step_ok)

text \<open>C21: while one thread is in \<open>shutdown\<close>, others may do what they like between its sections, libusb,
  the executor and callers of \<open>bind\<close>, \<open>close\<close> and \<open>shutdown\<close> included, except three things: stop an
  accept or begin to wait for a device while its loop runs, and make the acceptor listen again before it
  is over.  Then the loop never uses an invalid iterator and never writes to a frame that was destroyed.
  The acceptor is one in which no late stop has resumed a coroutine that had ended.\<close>

theorem quiet_shutdown_is_safe:
  assumes "run (acceptor_step descr) es acceptor_init = Some s" "\<not> ac_broken s"
    and "run (quiet_step descr) evs \<lparr>sh_acceptor = s, sh_pc = Sd_Out\<rparr> = Some w" "\<not> ac_broken (sh_acceptor w)"
  shows "sh_pc w \<noteq> Sd_Overrun \<and> sh_pc w \<noteq> Sd_Dead_Frame"
proof -
  have "waiting_ok s" using acceptor_run_ok [OF assms(1)] assms(2) by (simp add: acceptor_ok_def)
  moreover have "registered_ok s" using registered_run [OF assms(1)] .
  ultimately have "shutting_ok \<lparr>sh_acceptor = s, sh_pc = Sd_Out\<rparr>" by (simp add: shutting_ok_def)
  from quiet_shutdown.run_inv [OF assms(3) this] assms(4)
  show ?thesis by (auto simp: shutting_ok_def Let_def)
qed

definition ex_waiting :: "acceptor_event list" where
  "ex_waiting = [Ac_Listen 0 1 [], Ac_Accept 0 False, Ac_Ready 0, Ac_Check 0, Ac_Lock 0,
     Ac_Accept 1 False, Ac_Ready 1, Ac_Check 1, Ac_Lock 1]"

lemma ex_waiting_run:
  "\<exists>s. run (acceptor_step ex_descr) ex_waiting acceptor_init = Some s
     \<and> (\<not> ac_broken s \<and> ac_handle s \<noteq> 0 \<and> ac_resumptions s = [0, 1] \<and> ac_posted s = []
        \<and> map_option ao_stop (ac_ops s 0) = Some False)"
  unfolding ex_waiting_def acceptor_init_def by (rule run_satD) code_simp

theorem shutdown_cancels_and_clears_witness:
  "\<exists>s t. run (acceptor_step ex_descr) ex_waiting acceptor_init = Some s
     \<and> run (shutdown_step ex_descr) (replicate 7 Sd_Section) \<lparr>sh_acceptor = s, sh_pc = Sd_Out\<rparr> =
         Some \<lparr>sh_acceptor = t, sh_pc = Sd_Out\<rparr> \<and> ac_posted t = [0, 1]"
proof -
  obtain s where s: "run (acceptor_step ex_descr) ex_waiting acceptor_init = Some s" "\<not> ac_broken s"
      "ac_handle s \<noteq> 0" "ac_resumptions s = [0, 1]" "ac_posted s = []"
    using ex_waiting_run by blast
  from shutdown_cancels_and_clears [OF s(1-3)] show ?thesis using s(1,4,5) by auto
qed

text \<open>The first accept is resumed between the sections, and ends, and a third one begins.\<close>

definition ex_quiet :: "shutdown_event list" where
  "ex_quiet = replicate 4 Sd_Section @ [Sd_Other Ac_Dispatch, Sd_Other (Ac_Accept 2 False), Sd_Other Ac_Close, Sd_Other Ac_Shutdown, Sd_Section]"

definition ex_quiet_start :: "shutting option" where
  "ex_quiet_start =
     map_option (\<lambda>s. \<lparr>sh_acceptor = s, sh_pc = Sd_Out\<rparr>) (run (acceptor_step ex_descr) ex_waiting acceptor_init)"

definition ex_quiet_end :: bool where
  "ex_quiet_end = (case ex_quiet_start of None \<Rightarrow> False
     | Some w \<Rightarrow> run_sat (quiet_step ex_descr) ex_quiet w
         (\<lambda>w'. \<not> ac_broken (sh_acceptor w') \<and> (case sh_pc w' of Sd_Unlocked v k \<Rightarrow> v = [0, 1] \<and> k = 1 | _ \<Rightarrow> False)))"

lemma ex_quiet_end: "ex_quiet_end"
  unfolding ex_quiet_end_def ex_quiet_start_def ex_waiting_def ex_quiet_def acceptor_init_def by code_simp

theorem quiet_shutdown_is_safe_witness:
  "\<exists>s w. run (acceptor_step ex_descr) ex_waiting acceptor_init = Some s
     \<and> run (quiet_step ex_descr) ex_quiet \<lparr>sh_acceptor = s, sh_pc = Sd_Out\<rparr> = Some w
     \<and> sh_pc w \<noteq> Sd_Overrun"
proof -
  obtain s where s: "run (acceptor_step ex_descr) ex_waiting acceptor_init = Some s" "\<not> ac_broken s"
    using ex_waiting_run by blast
  obtain w where w: "run (quiet_step ex_descr) ex_quiet \<lparr>sh_acceptor = s, sh_pc = Sd_Out\<rparr> = Some w"
      "\<not> ac_broken (sh_acceptor w)"
    using ex_quiet_end s(1) by (auto simp: ex_quiet_end_def ex_quiet_start_def run_sat_def split: option.splits)
  from quiet_shutdown_is_safe [OF s w] show ?thesis using s(1) w(1) by blast
qed



text \<open>The acceptor made to listen while the loop runs: a device that is there goes to the accept that
  waits longest and is erased from the vector under the loop's iterators; and that accept is posted
  twice.\<close>

theorem listen_during_shutdown:
  assumes "run (acceptor_step descr) es acceptor_init = Some s" "\<not> ac_broken s" "ac_handle s \<noteq> 0"
    and "ac_resumptions s = i # rest" "0 < h"
  shows "\<exists>w. run (shutdown_step descr)
        [Sd_Section, Sd_Section, Sd_Section, Sd_Section, Sd_Other (Ac_Listen LIBUSB_SUCCESS h [d]), Sd_Section]
        \<lparr>sh_acceptor = s, sh_pc = Sd_Out\<rparr> = Some w
    \<and> sh_pc w = Sd_Overrun \<and> ac_posted (sh_acceptor w) = ac_posted s @ [i, i]"
proof -
  have ok: "waiting_ok s" using acceptor_run_ok [OF assms(1)] assms(2) by (simp add: acceptor_ok_def)
  obtain q where q: "ac_ops s i = Some q" "ao_stage q = Suspended"
    by (rule waiting_resumption [OF ok, of i]) (simp_all add: assms(4))
  have alive: "frame_alive i (deregister k t)" if "ac_ops t = ac_ops s" for k t
    using q that by (simp add: frame_alive_def)
  show ?thesis using assms(2-5) q
    by (simp add: Let_def shutdown_loop_def alive acceptor_step_def listen_def listen_callback_def on_arrived_def
        cancel_resumption_def)
qed

theorem listen_during_shutdown_witness:
  "\<exists>s w. run (acceptor_step ex_descr) ex_waiting acceptor_init = Some s
    \<and> run (shutdown_step ex_descr)
        [Sd_Section, Sd_Section, Sd_Section, Sd_Section, Sd_Other (Ac_Listen LIBUSB_SUCCESS 2 [7]), Sd_Section]
        \<lparr>sh_acceptor = s, sh_pc = Sd_Out\<rparr> = Some w \<and> sh_pc w = Sd_Overrun"
proof -
  obtain s where s: "run (acceptor_step ex_descr) ex_waiting acceptor_init = Some s" "\<not> ac_broken s"
      "ac_handle s \<noteq> 0" "ac_resumptions s = 0 # [1]"
    using ex_waiting_run by auto
  from listen_during_shutdown [OF s, of 2 7] show ?thesis using s(1) by auto
qed

end
