(* ===== verification/Custom_Handler.thy ===== *)
theory Custom_Handler
  imports Event_Handler
begin

text \<open>
  \<open>any_event_handler\<close> over a handler of any type, as \<open>ev/any_event_handler.hpp\<close> has it: the wrapper knows
  the handler by a table of functions and the size and alignment of its type; the constructor of
  the handler and the memory resource may throw.  On the two handlers of the library it does what
  the operations of \<open>Event_Handler\<close> do, which the other theories build on.
\<close>

section \<open>The table and the storage\<close>

text \<open>
  \<open>vt_start spawn\<close>: whether the system can make a thread; \<open>vt_dtor\<close> gives how the destructor of the
  handler ends.
\<close>

record 'h vtable =
  vt_start :: "bool \<Rightarrow> usb_ctx \<Rightarrow> nat \<Rightarrow> 'h \<Rightarrow> ('h \<times> bool) act"
  vt_ref :: "'h \<Rightarrow> 'h"
  vt_unref :: "'h \<Rightarrow> 'h"
  vt_stop :: "'h \<Rightarrow> 'h act"
  vt_dtor :: "'h \<Rightarrow> unit act"
  vt_size :: nat
  vt_align :: nat

text \<open>Without a handler the functions are null pointers.\<close>

record 'h any_handler =
  aw_vtable :: "'h vtable option"
  aw_memres :: nat
  aw_storage :: "(nat \<times> 'h) option"

text \<open>A block of a memory resource, with the size and alignment it was asked for.\<close>

type_synonym mem_block = "nat \<times> nat \<times> nat \<times> nat"

datatype mem_call = Allocate mem_block | Deallocate mem_block

text \<open>The exceptions of \<open>memory_resource::allocate\<close> and of the handler's constructor.\<close>

datatype construct_error = Allocation_Failed | Constructor_Threw error_code

section \<open>The operations\<close>

text \<open>\<open>construct_storage\<close>: \<open>blk\<close> is the block the resource gives, \<open>made\<close> what the constructor of the
  handler does.\<close>

definition construct_storage ::
  "nat \<Rightarrow> nat option \<Rightarrow> error_code + 'h \<Rightarrow> nat \<Rightarrow> nat \<Rightarrow> (construct_error + nat \<times> 'h) \<times> mem_call list" where
  "construct_storage memres blk made sz al =
     (case blk of
        None \<Rightarrow> (Inl Allocation_Failed, [])
      | Some ptr \<Rightarrow>
          (case made of
             Inl ec \<Rightarrow> (Inl (Constructor_Threw ec), [Allocate (memres, ptr, sz, al), Deallocate (memres, ptr, sz, al)])
           | Inr h \<Rightarrow> (Inr (ptr, h), [Allocate (memres, ptr, sz, al)])))"

definition aw_default :: "nat \<Rightarrow> 'h any_handler" where
  "aw_default default_resource = \<lparr>aw_vtable = None, aw_memres = default_resource, aw_storage = None\<rparr>"

text \<open>The constructor from a memory resource; the object does not come to be if it throws.\<close>

definition aw_make ::
  "'h vtable \<Rightarrow> nat \<Rightarrow> nat option \<Rightarrow> error_code + 'h \<Rightarrow> (construct_error + 'h any_handler) \<times> mem_call list" where
  "aw_make vt memres blk made =
     (case construct_storage memres blk made (vt_size vt) (vt_align vt) of
        (Inl e, cs) \<Rightarrow> (Inl e, cs)
      | (Inr st, cs) \<Rightarrow> (Inr \<lparr>aw_vtable = Some vt, aw_memres = memres, aw_storage = Some st\<rparr>, cs))"

definition aw_make_default ::
  "nat \<Rightarrow> 'h vtable \<Rightarrow> nat option \<Rightarrow> error_code + 'h \<Rightarrow> (construct_error + 'h any_handler) \<times> mem_call list" where
  "aw_make_default default_resource vt blk made = aw_make vt default_resource blk made"

text \<open>A call through the table; with a stored handler there is one.\<close>

definition through :: "('h vtable \<Rightarrow> nat \<Rightarrow> 'h \<Rightarrow> 'r) \<Rightarrow> 'h any_handler \<Rightarrow> 'r option" where
  "through f a =
     (case aw_storage a of None \<Rightarrow> None | Some (b, h) \<Rightarrow> map_option (\<lambda>vt. f vt b h) (aw_vtable a))"

definition aw_destroy :: "'h any_handler \<Rightarrow> ('h any_handler \<times> mem_call list) act" where
  "aw_destroy a =
     (case through (\<lambda>vt b h. map_act (\<lambda>_. (a\<lparr>aw_storage := None\<rparr>, [Deallocate (aw_memres a, b, vt_size vt, vt_align vt)]))
             (vt_dtor vt h)) a of
        None \<Rightarrow> Returned (a, [])
      | Some r \<Rightarrow> r)"

text \<open>\<open>emplace\<close>: what it leaves, what it calls, and the exception it ends with if there is one.\<close>

definition aw_emplace ::
  "'h vtable \<Rightarrow> nat \<Rightarrow> nat option \<Rightarrow> error_code + 'h \<Rightarrow> 'h any_handler
     \<Rightarrow> ('h any_handler \<times> mem_call list \<times> construct_error option) act" where
  "aw_emplace vt memres blk made a =
     map_act (\<lambda>(a, freed).
        let a = a\<lparr>aw_memres := memres\<rparr> in
        (case construct_storage (aw_memres a) blk made (vt_size vt) (vt_align vt) of
           (Inl e, cs) \<Rightarrow> (a, freed @ cs, Some e)
         | (Inr st, cs) \<Rightarrow> (a\<lparr>aw_storage := Some st, aw_vtable := Some vt\<rparr>, freed @ cs, None)))
       (aw_destroy a)"

definition aw_emplace_same ::
  "'h vtable \<Rightarrow> nat option \<Rightarrow> error_code + 'h \<Rightarrow> 'h any_handler
     \<Rightarrow> ('h any_handler \<times> mem_call list \<times> construct_error option) act" where
  "aw_emplace_same vt blk made a = aw_emplace vt (aw_memres a) blk made a"

definition aw_move :: "'h any_handler \<Rightarrow> 'h any_handler \<times> 'h any_handler" where
  "aw_move other =
     (\<lparr>aw_vtable = aw_vtable other, aw_memres = aw_memres other, aw_storage = aw_storage other\<rparr>,
      other\<lparr>aw_storage := None\<rparr>)"

text \<open>Move assignment and the destructor are \<open>noexcept\<close>: an exception in them ends the process.\<close>

fun no_throw :: "'a act \<Rightarrow> 'a act" where
  "no_throw (Threw ec) = Terminated"
| "no_throw r = r"

definition aw_move_assign ::
  "'h any_handler \<Rightarrow> 'h any_handler \<Rightarrow> ('h any_handler \<times> 'h any_handler \<times> mem_call list) act" where
  "aw_move_assign this other =
     no_throw (map_act (\<lambda>(this, freed).
        (this\<lparr>aw_vtable := aw_vtable other, aw_memres := aw_memres other, aw_storage := aw_storage other\<rparr>,
         other\<lparr>aw_storage := None\<rparr>, freed)) (aw_destroy this))"

definition aw_dtor :: "'h any_handler \<Rightarrow> mem_call list act" where
  "aw_dtor a = no_throw (map_act snd (aw_destroy a))"

definition aw_valid :: "'h any_handler \<Rightarrow> bool" where
  "aw_valid a \<longleftrightarrow> aw_storage a \<noteq> None"

definition aw_start :: "bool \<Rightarrow> usb_ctx \<Rightarrow> nat \<Rightarrow> 'h any_handler \<Rightarrow> ('h any_handler \<times> bool) act" where
  "aw_start spawn ctx stop a =
     (case through (\<lambda>vt b h. map_act (\<lambda>(h, ok). (a\<lparr>aw_storage := Some (b, h)\<rparr>, ok)) (vt_start vt spawn ctx stop h)) a of
        None \<Rightarrow> Returned (a, False) | Some r \<Rightarrow> r)"

definition aw_ref :: "'h any_handler \<Rightarrow> 'h any_handler" where
  "aw_ref a = (case through (\<lambda>vt b h. a\<lparr>aw_storage := Some (b, vt_ref vt h)\<rparr>) a of None \<Rightarrow> a | Some a \<Rightarrow> a)"

definition aw_unref :: "'h any_handler \<Rightarrow> 'h any_handler" where
  "aw_unref a = (case through (\<lambda>vt b h. a\<lparr>aw_storage := Some (b, vt_unref vt h)\<rparr>) a of None \<Rightarrow> a | Some a \<Rightarrow> a)"

definition aw_stop :: "'h any_handler \<Rightarrow> 'h any_handler act" where
  "aw_stop a =
     (case through (\<lambda>vt b h. map_act (\<lambda>h. a\<lparr>aw_storage := Some (b, h)\<rparr>) (vt_stop vt h)) a of
        None \<Rightarrow> Returned a | Some r \<Rightarrow> r)"

section \<open>The machine\<close>

text \<open>Wrappers by number, and the calls of the memory resources.  An operation that blocks or ends the
  process is no step; neither is a call of the handler that throws, which changes nothing.\<close>

record 'h handler_world =
  hw_objs :: "nat \<Rightarrow> 'h any_handler option"
  hw_calls :: "mem_call list"

definition handler_world_init :: "'h handler_world" where
  "handler_world_init = \<lparr>hw_objs = (\<lambda>_. None), hw_calls = []\<rparr>"

datatype 'h wrapper_event =
    Aw_Default nat nat | Aw_Make nat "'h vtable" nat "nat option" "error_code + 'h"
  | Aw_Emplace nat "'h vtable" nat "nat option" "error_code + 'h"
  | Aw_Emplace_Same nat "'h vtable" "nat option" "error_code + 'h"
  | Aw_Move nat nat | Aw_Move_Assign nat nat | Aw_Dtor nat
  | Aw_Start nat bool usb_ctx nat | Aw_Ref nat | Aw_Unref nat | Aw_Stop nat

fun returned :: "'a act \<Rightarrow> 'a option" where
  "returned (Returned x) = Some x"
| "returned _ = None"

definition set_wrapper :: "nat \<Rightarrow> 'h any_handler option \<Rightarrow> mem_call list \<Rightarrow> 'h handler_world \<Rightarrow> 'h handler_world" where
  "set_wrapper i a cs w = w\<lparr>hw_objs := (hw_objs w)(i := a), hw_calls := hw_calls w @ cs\<rparr>"

text \<open>An operation on wrapper \<open>i\<close>.\<close>

definition on_wrapper ::
  "nat \<Rightarrow> ('h any_handler \<Rightarrow> ('h any_handler \<times> mem_call list) option) \<Rightarrow> 'h handler_world \<Rightarrow> 'h handler_world option" where
  "on_wrapper i f w =
     (case hw_objs w i of None \<Rightarrow> None
      | Some a \<Rightarrow> map_option (\<lambda>(a, cs). set_wrapper i (Some a) cs w) (f a))"

fun wrapper_step :: "'h wrapper_event \<Rightarrow> 'h handler_world \<Rightarrow> 'h handler_world option" where
  "wrapper_step (Aw_Default i res) w =
     (if hw_objs w i = None then Some (set_wrapper i (Some (aw_default res)) [] w) else None)"
| "wrapper_step (Aw_Make i vt memres blk made) w =
     (if hw_objs w i = None
      then (case aw_make vt memres blk made of
              (Inl e, cs) \<Rightarrow> Some (set_wrapper i None cs w)
            | (Inr a, cs) \<Rightarrow> Some (set_wrapper i (Some a) cs w))
      else None)"
| "wrapper_step (Aw_Emplace i vt memres blk made) w =
     on_wrapper i (\<lambda>a. map_option (\<lambda>(a, cs, e). (a, cs)) (returned (aw_emplace vt memres blk made a))) w"
| "wrapper_step (Aw_Emplace_Same i vt blk made) w =
     on_wrapper i (\<lambda>a. map_option (\<lambda>(a, cs, e). (a, cs)) (returned (aw_emplace_same vt blk made a))) w"
| "wrapper_step (Aw_Move i j) w =
     (case hw_objs w j of
        None \<Rightarrow> None
      | Some other \<Rightarrow>
          if hw_objs w i = None
          then (case aw_move other of (this, other) \<Rightarrow> Some (set_wrapper i (Some this) [] (set_wrapper j (Some other) [] w)))
          else None)"
| "wrapper_step (Aw_Move_Assign i j) w =
     (case (hw_objs w i, hw_objs w j) of
        (Some this, Some other) \<Rightarrow>
          if i = j then Some w
          else map_option (\<lambda>(this, other, cs). set_wrapper i (Some this) cs (set_wrapper j (Some other) [] w))
                 (returned (aw_move_assign this other))
      | _ \<Rightarrow> None)"
| "wrapper_step (Aw_Dtor i) w =
     (case hw_objs w i of None \<Rightarrow> None
      | Some a \<Rightarrow> map_option (\<lambda>cs. set_wrapper i None cs w) (returned (aw_dtor a)))"
| "wrapper_step (Aw_Start i spawn ctx stop) w =
     on_wrapper i (\<lambda>a. map_option (\<lambda>(a, ok). (a, [])) (returned (aw_start spawn ctx stop a))) w"
| "wrapper_step (Aw_Ref i) w = on_wrapper i (\<lambda>a. Some (aw_ref a, [])) w"
| "wrapper_step (Aw_Unref i) w = on_wrapper i (\<lambda>a. Some (aw_unref a, [])) w"
| "wrapper_step (Aw_Stop i) w = on_wrapper i (\<lambda>a. map_option (\<lambda>a. (a, [])) (returned (aw_stop a))) w"

section \<open>Blocks\<close>

text \<open>The block a wrapper owns, with the size and alignment it will be given back with.\<close>

definition aw_tokens :: "'h any_handler \<Rightarrow> mem_block list" where
  "aw_tokens a = (case through (\<lambda>vt b h. (aw_memres a, b, vt_size vt, vt_align vt)) a of None \<Rightarrow> [] | Some x \<Rightarrow> [x])"

definition has_table :: "'h any_handler \<Rightarrow> bool" where
  "has_table a \<longleftrightarrow> (aw_storage a \<noteq> None \<longrightarrow> aw_vtable a \<noteq> None)"

fun allocated :: "mem_call list \<Rightarrow> mem_block list" where
  "allocated [] = []"
| "allocated (Allocate x # cs) = x # allocated cs"
| "allocated (Deallocate x # cs) = allocated cs"

fun deallocated :: "mem_call list \<Rightarrow> mem_block list" where
  "deallocated [] = []"
| "deallocated (Allocate x # cs) = deallocated cs"
| "deallocated (Deallocate x # cs) = x # deallocated cs"

lemma calls_append [simp]:
  "allocated (cs @ ds) = allocated cs @ allocated ds" "deallocated (cs @ ds) = deallocated cs @ deallocated ds"
  by (induction cs rule: allocated.induct) simp_all

text \<open>An operation that makes the calls \<open>cs\<close> and takes a wrapper from owning \<open>xs\<close> to owning \<open>ys\<close>.\<close>

definition balanced :: "mem_block list \<Rightarrow> mem_call list \<Rightarrow> mem_block list \<Rightarrow> bool" where
  "balanced xs cs ys \<longleftrightarrow> mset (allocated cs) + mset xs = mset (deallocated cs) + mset ys"

lemma through_None: "has_table a \<Longrightarrow> through f a = None \<longleftrightarrow> aw_storage a = None"
  by (auto simp: through_def has_table_def split: option.splits)

lemma throughE:
  assumes "has_table a"
  obtains "aw_storage a = None" | b h vt where "aw_storage a = Some (b, h)" "aw_vtable a = Some vt"
  using assms by (cases "aw_storage a") (auto simp: has_table_def)

lemma no_throw_Returned [simp]: "no_throw r = Returned x \<longleftrightarrow> r = Returned x"
  by (cases r) simp_all

lemma returned_Some [simp]: "returned r = Some x \<longleftrightarrow> r = Returned x"
  by (cases r) simp_all

lemma destroy_blocks:
  assumes "has_table a" "aw_destroy a = Returned (b, cs)"
  shows "has_table b \<and> balanced (aw_tokens a) cs (aw_tokens b) \<and> aw_storage b = None"
  using assms(1)
  by (cases rule: throughE)
    (use assms(2) in \<open>auto simp: aw_destroy_def through_def map_act_Returned has_table_def balanced_def aw_tokens_def\<close>)

lemma construct_blocks:
  assumes "construct_storage m blk made sz al = (r, cs)"
  shows "balanced [] cs (case r of Inl e \<Rightarrow> [] | Inr (b, h) \<Rightarrow> [(m, b, sz, al)])"
  using assms by (auto simp: construct_storage_def balanced_def split: option.splits sum.splits)

lemma balanced_trans:
  assumes "balanced xs cs ys" "balanced ys ds zs" shows "balanced xs (cs @ ds) zs"
  unfolding balanced_def
proof (rule multiset_eqI)
  fix b
  have "count (mset (allocated cs)) b + count (mset xs) b = count (mset (deallocated cs)) b + count (mset ys) b"
    "count (mset (allocated ds)) b + count (mset ys) b = count (mset (deallocated ds)) b + count (mset zs) b"
    using assms unfolding balanced_def by (metis count_union)+
  then show "count (mset (allocated (cs @ ds)) + mset xs) b = count (mset (deallocated (cs @ ds)) + mset zs) b"
    by simp
qed

lemma emplace_blocks:
  assumes a: "has_table a" and e: "aw_emplace vt m blk made a = Returned (b, cs, ex)"
  shows "has_table b \<and> balanced (aw_tokens a) cs (aw_tokens b) \<and> (aw_storage b = None \<longleftrightarrow> ex \<noteq> None)"
proof -
  obtain a' freed where d: "aw_destroy a = Returned (a', freed)"
    using e by (auto simp: aw_emplace_def map_act_Returned split: prod.splits)
  note d' = destroy_blocks [OF a d]
  then have n: "aw_tokens a' = []" by (simp add: aw_tokens_def through_def)
  obtain r ds where c: "construct_storage m blk made (vt_size vt) (vt_align vt) = (r, ds)" by fastforce
  note bal = balanced_trans [OF _ construct_blocks [OF c], of "aw_tokens a" freed]
  show ?thesis using e d' bal n
    by (cases r) (auto simp: aw_emplace_def d c Let_def has_table_def aw_tokens_def through_def)
qed

text \<open>\<open>X\<close>: the blocks that are on their way from one wrapper to another.\<close>

definition wrappers_with :: "mem_block multiset \<Rightarrow> 'h handler_world \<Rightarrow> bool" where
  "wrappers_with X w \<longleftrightarrow> finite (dom (hw_objs w)) \<and> (\<forall>i a. hw_objs w i = Some a \<longrightarrow> has_table a)
     \<and> mset (allocated (hw_calls w)) = mset (deallocated (hw_calls w)) + held aw_tokens (hw_objs w) + X"

definition blocks_of :: "'h any_handler option \<Rightarrow> mem_block list" where
  "blocks_of x = (case x of None \<Rightarrow> [] | Some a \<Rightarrow> aw_tokens a)"

lemma blocks_of_simps [simp]: "blocks_of None = []" "blocks_of (Some a) = aw_tokens a"
  by (simp_all add: blocks_of_def)

lemma set_wrapper_with:
  assumes ok: "wrappers_with X w" and t: "\<And>b. a = Some b \<Longrightarrow> has_table b"
    and bal: "mset (allocated cs) + mset (blocks_of (hw_objs w i)) + X = mset (deallocated cs) + mset (blocks_of a) + Y"
  shows "wrappers_with Y (set_wrapper i a cs w)"
proof -
  have fin: "finite (dom (hw_objs w))" using ok by (simp add: wrappers_with_def)
  let ?m = "held aw_tokens (hw_objs w)" and ?m' = "held aw_tokens ((hw_objs w)(i := a))"
  have upd: "?m' + mset (blocks_of (hw_objs w i)) = ?m + mset (blocks_of a)"
    using held_update [OF fin, of aw_tokens i a] by (simp add: held_by_def blocks_of_def split: option.splits)
  have "mset (allocated (hw_calls w @ cs)) = mset (deallocated (hw_calls w @ cs)) + ?m' + Y"
  proof (rule multiset_eqI)
    fix b
    have "count ?m' b + count (mset (blocks_of (hw_objs w i))) b = count ?m b + count (mset (blocks_of a)) b"
      using upd by (metis count_union)
    moreover have "count (mset (allocated cs)) b + count (mset (blocks_of (hw_objs w i))) b + count X b =
        count (mset (deallocated cs)) b + count (mset (blocks_of a)) b + count Y b"
      using bal by (metis count_union)
    moreover have "count (mset (allocated (hw_calls w))) b = count (mset (deallocated (hw_calls w))) b + count ?m b + count X b"
      using ok unfolding wrappers_with_def by (metis count_union)
    ultimately show "count (mset (allocated (hw_calls w @ cs))) b =
        count (mset (deallocated (hw_calls w @ cs)) + ?m' + Y) b"
      by simp
  qed
  then show ?thesis using ok t by (auto simp: wrappers_with_def set_wrapper_def)
qed

lemma set_wrapper_ok:
  assumes "wrappers_with {#} w" "\<And>b. a = Some b \<Longrightarrow> has_table b" "balanced (blocks_of (hw_objs w i)) cs (blocks_of a)"
  shows "wrappers_with {#} (set_wrapper i a cs w)"
  using assms(1,2) by (rule set_wrapper_with) (use assms(3) in \<open>simp_all add: balanced_def\<close>)

lemma on_wrapper_ok:
  assumes ok: "wrappers_with {#} w" and st: "on_wrapper i f w = Some w'"
    and law: "\<And>a b cs. has_table a \<Longrightarrow> f a = Some (b, cs) \<Longrightarrow> has_table b \<and> balanced (aw_tokens a) cs (aw_tokens b)"
  shows "wrappers_with {#} w'"
proof -
  obtain a b cs where a: "hw_objs w i = Some a" "f a = Some (b, cs)" and w': "w' = set_wrapper i (Some b) cs w"
    using st by (auto simp: on_wrapper_def split: option.splits)
  have "has_table a" using ok a(1) by (simp add: wrappers_with_def)
  from law [OF this a(2)] show ?thesis unfolding w' by (intro set_wrapper_ok [OF ok]) (simp_all add: a(1))
qed

lemma call_blocks:
  assumes "has_table a"
  shows "has_table (aw_ref a) \<and> balanced (aw_tokens a) [] (aw_tokens (aw_ref a))"
    and "has_table (aw_unref a) \<and> balanced (aw_tokens a) [] (aw_tokens (aw_unref a))"
    and "aw_stop a = Returned b \<Longrightarrow> has_table b \<and> balanced (aw_tokens a) [] (aw_tokens b)"
    and "aw_start spawn ctx stop a = Returned (b, ok) \<Longrightarrow> has_table b \<and> balanced (aw_tokens a) [] (aw_tokens b)"
  using assms by (cases rule: throughE; auto simp: aw_ref_def aw_unref_def aw_stop_def aw_start_def through_def
      has_table_def balanced_def aw_tokens_def map_act_Returned)+

lemma make_blocks:
  assumes "aw_make vt m blk made = (r, cs)"
  shows "balanced [] cs (case r of Inl e \<Rightarrow> [] | Inr a \<Rightarrow> aw_tokens a)" "r = Inr a \<Longrightarrow> has_table a"
proof -
  obtain x ds where c: "construct_storage m blk made (vt_size vt) (vt_align vt) = (x, ds)" by fastforce
  show "balanced [] cs (case r of Inl e \<Rightarrow> [] | Inr a \<Rightarrow> aw_tokens a)" "r = Inr a \<Longrightarrow> has_table a"
    using assms construct_blocks [OF c] by (cases x; auto simp: aw_make_def c aw_tokens_def through_def has_table_def)+
qed

lemma wrapper_copy [simp]:
  "\<lparr>aw_vtable = aw_vtable b, aw_memres = aw_memres b, aw_storage = aw_storage b\<rparr> = b"
  "a\<lparr>aw_vtable := aw_vtable b, aw_memres := aw_memres b, aw_storage := aw_storage b\<rparr> = b"
  by (cases a; cases b; simp)+

lemma move_wrapper:
  assumes ok: "wrappers_with {#} w" and o: "hw_objs w j = Some b" and ij: "i \<noteq> j"
    and c: "has_table this" "balanced (blocks_of (hw_objs w i) @ aw_tokens b) cs (aw_tokens this)"
  shows "wrappers_with {#} (set_wrapper i (Some this) cs (set_wrapper j (Some (b\<lparr>aw_storage := None\<rparr>)) [] w))"
proof -
  have "wrappers_with (mset (aw_tokens b)) (set_wrapper j (Some (b\<lparr>aw_storage := None\<rparr>)) [] w)"
    by (rule set_wrapper_with [OF ok]) (simp_all add: o has_table_def aw_tokens_def through_def)
  then show ?thesis
    by (rule set_wrapper_with) (use c ij in \<open>simp_all add: set_wrapper_def balanced_def ac_simps\<close>)
qed

lemma wrapper_step_ok:
  assumes ok: "wrappers_with {#} w" and st: "wrapper_step e w = Some w'"
  shows "wrappers_with {#} w'"
proof -
  have t: "has_table a" if "hw_objs w i = Some a" for i a using ok that by (simp add: wrappers_with_def)
  show ?thesis
  proof (cases e)
    case (Aw_Default i res)
    then show ?thesis using st ok
      by (auto simp: aw_default_def has_table_def balanced_def aw_tokens_def through_def intro!: set_wrapper_ok split: if_splits)
  next
    case (Aw_Make i vt m blk made)
    then obtain r cs where r: "aw_make vt m blk made = (r, cs)" "hw_objs w i = None"
      and w': "w' = set_wrapper i (case r of Inl e \<Rightarrow> None | Inr a \<Rightarrow> Some a) cs w"
      using st by (auto split: if_splits prod.splits sum.splits)
    show ?thesis unfolding w'
      by (rule set_wrapper_ok [OF ok]) (use make_blocks [OF r(1)] r(2) in \<open>auto split: sum.splits\<close>)
  next
    case (Aw_Emplace i vt m blk made)
    show ?thesis by (rule on_wrapper_ok [OF ok st [unfolded Aw_Emplace wrapper_step.simps]]) (use emplace_blocks in fastforce)
  next
    case (Aw_Emplace_Same i vt blk made)
    show ?thesis by (rule on_wrapper_ok [OF ok st [unfolded Aw_Emplace_Same wrapper_step.simps]])
        (use emplace_blocks in \<open>fastforce simp: aw_emplace_same_def\<close>)
  next
    case (Aw_Move i j)
    then obtain b where b: "hw_objs w j = Some b" "hw_objs w i = None"
      and w': "w' = set_wrapper i (Some b) [] (set_wrapper j (Some (b\<lparr>aw_storage := None\<rparr>)) [] w)"
      using st Aw_Move by (auto simp: aw_move_def split: option.splits if_splits)
    show ?thesis unfolding w'
      by (rule move_wrapper [OF ok b(1)]) (use b t [OF b(1)] in \<open>auto simp: balanced_def\<close>)
  next
    case (Aw_Move_Assign i j)
    show ?thesis
    proof (cases "i = j")
      case True
      then show ?thesis using st ok Aw_Move_Assign by (auto split: option.splits)
    next
      case False
      then obtain a b a' cs where ab: "hw_objs w i = Some a" "hw_objs w j = Some b" "aw_destroy a = Returned (a', cs)"
        and w': "w' = set_wrapper i (Some b) cs (set_wrapper j (Some (b\<lparr>aw_storage := None\<rparr>)) [] w)"
        using st Aw_Move_Assign by (auto simp: aw_move_assign_def map_act_Returned split: option.splits prod.splits)
      note d = destroy_blocks [OF t [OF ab(1)] ab(3)]
      then have n: "aw_tokens a' = []" by (simp add: aw_tokens_def through_def)
      show ?thesis unfolding w'
        by (rule move_wrapper [OF ok ab(2) False])
          (use d n ab(1) t [OF ab(2)] in \<open>auto simp: balanced_def ac_simps\<close>)
    qed
  next
    case (Aw_Dtor i)
    then obtain a a' cs where a: "hw_objs w i = Some a" "aw_destroy a = Returned (a', cs)" and w': "w' = set_wrapper i None cs w"
      using st by (auto simp: aw_dtor_def map_act_Returned split: option.splits)
    note d = destroy_blocks [OF t [OF a(1)] a(2)]
    show ?thesis unfolding w'
      by (rule set_wrapper_ok [OF ok]) (use d a(1) in \<open>simp_all add: balanced_def aw_tokens_def [of a'] through_def\<close>)
  next
    case (Aw_Start i spawn ctx stop)
    show ?thesis by (rule on_wrapper_ok [OF ok st [unfolded Aw_Start wrapper_step.simps]]) (use call_blocks(4) in fastforce)
  next
    case (Aw_Ref i)
    show ?thesis by (rule on_wrapper_ok [OF ok st [unfolded Aw_Ref wrapper_step.simps]]) (use call_blocks(1) in fastforce)
  next
    case (Aw_Unref i)
    show ?thesis by (rule on_wrapper_ok [OF ok st [unfolded Aw_Unref wrapper_step.simps]]) (use call_blocks(2) in fastforce)
  next
    case (Aw_Stop i)
    show ?thesis by (rule on_wrapper_ok [OF ok st [unfolded Aw_Stop wrapper_step.simps]]) (use call_blocks(3) in fastforce)
  qed
qed

interpretation wrapper_machine: machine wrapper_step "wrappers_with {#}"
  by unfold_locales (rule wrapper_step_ok)

lemma wrappers_init: "wrappers_with {#} handler_world_init"
  by (simp add: wrappers_with_def handler_world_init_def held_def)

lemmas wrappers_run = wrapper_machine.run_inv [OF _ wrappers_init]

section \<open>The handlers of the library\<close>

text \<open>The destructors of the two handlers.\<close>

definition trivial_dtor :: "trivial_event_handler \<Rightarrow> unit act" where
  "trivial_dtor h = map_act (\<lambda>_. ()) (trivial_stop h)"

definition refcounted_dtor :: "refcounted_event_handler \<Rightarrow> unit act" where
  "refcounted_dtor h = map_act (\<lambda>_. ()) (refcounted_stop h)"

fun handler_dtor :: "handler \<Rightarrow> unit act" where
  "handler_dtor (Trivial h) = trivial_dtor h"
| "handler_dtor (Refcounted h) = refcounted_dtor h"

text \<open>\<open>make_vtable\<close> for a handler of the library; \<open>sz\<close> and \<open>al\<close> are size and alignment of the two types.\<close>

definition library_vtable :: "(handler_type \<Rightarrow> nat) \<Rightarrow> (handler_type \<Rightarrow> nat) \<Rightarrow> handler_type \<Rightarrow> handler vtable" where
  "library_vtable sz al ty =
     \<lparr>vt_start = handler_start, vt_ref = handler_ref, vt_unref = handler_unref, vt_stop = handler_stop,
      vt_dtor = handler_dtor, vt_size = sz ty, vt_align = al ty\<rparr>"

definition as_wrapper :: "(handler_type \<Rightarrow> nat) \<Rightarrow> (handler_type \<Rightarrow> nat) \<Rightarrow> any_event_handler \<Rightarrow> handler any_handler" where
  "as_wrapper sz al a =
     \<lparr>aw_vtable = Some (library_vtable sz al (ah_vtable a)), aw_memres = ah_memres a, aw_storage = ah_storage a\<rparr>"

definition as_freed :: "(handler_type \<Rightarrow> nat) \<Rightarrow> (handler_type \<Rightarrow> nat) \<Rightarrow> (nat \<times> nat \<times> handler_type) list \<Rightarrow> mem_call list" where
  "as_freed sz al xs = map (\<lambda>(m, b, ty). Deallocate (m, b, sz ty, al ty)) xs"

lemma map_act_comp: "map_act f (map_act g r) = map_act (\<lambda>x. f (g x)) r"
  by (cases r) simp_all

lemma handler_dtor_stop: "handler_dtor h = map_act (\<lambda>_. ()) (handler_stop h)"
  by (cases h) (simp_all add: trivial_dtor_def refcounted_dtor_def map_act_comp)

lemmas lift_defs = as_wrapper_def library_vtable_def through_def handler_dtor_stop

lemma destroy_lift:
  "aw_destroy (as_wrapper sz al a) =
     map_act (\<lambda>(a, freed). (as_wrapper sz al a, as_freed sz al freed)) (any_destroy a)"
  by (auto simp: aw_destroy_def any_destroy_def any_stop_def any_deallocate_def lift_defs as_freed_def map_act_comp
      split: option.splits)

section \<open>Properties\<close>

text \<open>C22: whatever handlers there are, and whether allocations and constructors throw, every block that
  was allocated was deallocated exactly once, with the resource, size and alignment of its
  allocation, or belongs to one wrapper; when all wrappers are gone every block is back.\<close>

theorem wrapper_blocks_balance:
  assumes "run wrapper_step es handler_world_init = Some w"
  shows "mset (allocated (hw_calls w)) = mset (deallocated (hw_calls w)) + held aw_tokens (hw_objs w)
    \<and> (hw_objs w = (\<lambda>_. None) \<longrightarrow> mset (allocated (hw_calls w)) = mset (deallocated (hw_calls w)))"
  using wrappers_run [OF assms] by (auto simp: wrappers_with_def held_def)

text \<open>A handler that only counts its references, and whose constructor may throw.\<close>

definition ex_vtable :: "nat vtable" where
  "ex_vtable = \<lparr>vt_start = (\<lambda>_ _ _ h. Returned (h, True)), vt_ref = Suc, vt_unref = (\<lambda>h. h - 1),
     vt_stop = (\<lambda>h. Returned h), vt_dtor = (\<lambda>_. Returned ()), vt_size = 8, vt_align = 4\<rparr>"

definition ex_wrappers :: "nat wrapper_event list" where
  "ex_wrappers = [Aw_Default 0 1, Aw_Emplace 0 ex_vtable 2 (Some 100) (Inr 0), Aw_Ref 0, Aw_Move 1 0,
     Aw_Emplace 1 ex_vtable 3 (Some 200) (Inl (make_usb_error_code 1)), Aw_Make 2 ex_vtable 3 None (Inr 0), Aw_Dtor 0, Aw_Dtor 1]"

lemma ex_wrappers_run:
  "\<exists>w. run wrapper_step ex_wrappers handler_world_init = Some w
     \<and> (hw_calls w = [Allocate (2, 100, 8, 4), Deallocate (2, 100, 8, 4), Allocate (3, 200, 8, 4), Deallocate (3, 200, 8, 4)])"
  unfolding ex_wrappers_def handler_world_init_def by (rule run_satD) code_simp

theorem wrapper_blocks_balance_witness:
  "\<exists>w. run wrapper_step ex_wrappers handler_world_init = Some w
     \<and> {#(2, 100, 8, 4), (3, 200, 8, 4)#} = {#(2, 100, 8, 4), (3, 200, 8, 4)#} + held aw_tokens (hw_objs w)"
proof -
  obtain w where w: "run wrapper_step ex_wrappers handler_world_init = Some w"
    "hw_calls w = [Allocate (2, 100, 8, 4), Deallocate (2, 100, 8, 4), Allocate (3, 200, 8, 4), Deallocate (3, 200, 8, 4)]"
    using ex_wrappers_run by blast
  from wrapper_blocks_balance [OF w(1)] show ?thesis using w by simp
qed

text \<open>An \<open>emplace\<close> that throws leaves a wrapper without a handler, on which \<open>start\<close> answers false and the
  other operations do nothing; what the failed construction allocated is given back at once.\<close>

theorem failed_emplace_leaves_empty:
  assumes "aw_emplace vt memres blk made a = Returned (b, cs, Some e)" "has_table a"
  shows "\<not> aw_valid b \<and> aw_start spawn ctx stop b = Returned (b, False) \<and> aw_ref b = b \<and> aw_unref b = b
    \<and> aw_stop b = Returned b \<and> aw_dtor b = Returned []
    \<and> mset (allocated cs) + mset (aw_tokens a) = mset (deallocated cs)"
proof -
  note l = emplace_blocks [OF assms(2,1)]
  then have "aw_storage b = None" by simp
  then show ?thesis using l
    by (simp add: aw_valid_def aw_start_def aw_ref_def aw_unref_def aw_stop_def aw_dtor_def aw_destroy_def through_def
        balanced_def aw_tokens_def [of b])
qed

theorem failed_emplace_leaves_empty_witness:
  "\<not> aw_valid \<lparr>aw_vtable = Some ex_vtable, aw_memres = 3, aw_storage = None\<rparr>"
proof -
  have e: "aw_emplace ex_vtable 3 None (Inr 0) \<lparr>aw_vtable = Some ex_vtable, aw_memres = 2, aw_storage = Some (100, 1)\<rparr> =
      Returned (\<lparr>aw_vtable = Some ex_vtable, aw_memres = 3, aw_storage = None\<rparr>, [Deallocate (2, 100, 8, 4)], Some Allocation_Failed)"
    by (simp add: aw_emplace_def aw_destroy_def through_def ex_vtable_def construct_storage_def)
  show ?thesis using failed_emplace_leaves_empty [OF e] by (simp add: has_table_def)
qed

text \<open>On the handlers of the library the wrapper is the one of \<open>Event_Handler\<close>: each operation gives
  the same state and result, and the same blocks back with their size and alignment.\<close>

theorem library_handlers_in_wrapper:
  "aw_make (library_vtable sz al ty) memres (Some blk) (Inr (construct_handler ty)) =
      (Inr (as_wrapper sz al (any_make memres blk ty)), [Allocate (memres, blk, sz ty, al ty)])
   \<and> aw_emplace (library_vtable sz al ty) memres (Some blk) (Inr (construct_handler ty)) (as_wrapper sz al a) =
      map_act (\<lambda>(b, freed). (as_wrapper sz al b, as_freed sz al freed @ [Allocate (memres, blk, sz ty, al ty)], None))
        (any_emplace memres blk ty a)
   \<and> aw_start spawn ctx stop (as_wrapper sz al a) =
      map_act (\<lambda>(b, ok). (as_wrapper sz al b, ok)) (any_start spawn ctx stop a)
   \<and> aw_ref (as_wrapper sz al a) = as_wrapper sz al (any_ref a)
   \<and> aw_unref (as_wrapper sz al a) = as_wrapper sz al (any_unref a)
   \<and> aw_stop (as_wrapper sz al a) = map_act (as_wrapper sz al) (any_stop a)
   \<and> aw_destroy (as_wrapper sz al a) =
      map_act (\<lambda>(b, freed). (as_wrapper sz al b, as_freed sz al freed)) (any_destroy a)
   \<and> aw_move (as_wrapper sz al a) = map_prod (as_wrapper sz al) (as_wrapper sz al) (any_move a)
   \<and> aw_valid (as_wrapper sz al a) = any_valid a"
proof -
  have start: "aw_start spawn ctx stop (as_wrapper sz al a) =
      map_act (\<lambda>(b, ok). (as_wrapper sz al b, ok)) (any_start spawn ctx stop a)"
    by (auto simp: aw_start_def any_start_def lift_defs map_act_comp split: option.splits)
      (auto intro!: arg_cong [where f = "\<lambda>f. map_act f _"])
  have emplace: "aw_emplace (library_vtable sz al ty) memres (Some blk) (Inr (construct_handler ty)) (as_wrapper sz al a) =
      map_act (\<lambda>(b, freed). (as_wrapper sz al b, as_freed sz al freed @ [Allocate (memres, blk, sz ty, al ty)], None))
        (any_emplace memres blk ty a)"
    unfolding aw_emplace_def destroy_lift
    by (cases "any_destroy a") (auto simp: any_emplace_def any_construct_def construct_storage_def
        as_wrapper_def library_vtable_def)
  show ?thesis using start emplace destroy_lift
    by (auto simp: aw_make_def construct_storage_def any_make_def aw_ref_def any_ref_def aw_unref_def any_unref_def
        aw_stop_def any_stop_def aw_move_def any_move_def aw_valid_def any_valid_def lift_defs map_act_comp
        split: option.splits)
qed

end
