(* ===== verification/Handler_Reference.thy ===== *)
theory Handler_Reference
  imports Handler_Refs
begin

text \<open>
  \<open>event_handler_ref\<close> to handlers of any type, as \<open>ev/event_handler_ref.hpp\<close> has it: a reference is the
  address of its original and a table of functions for the type of it.  The references of
  \<open>Event_Handler\<close>, on which the other theories build, are those to \<open>any_event_handler\<close>s.
\<close>

section \<open>Handlers and their table\<close>

text \<open>The concept \<open>EventHandler\<close>: what a handler type has; \<open>spawn\<close> is whether a thread can be made.\<close>

record 'o event_handler =
  hd_start :: "bool \<Rightarrow> usb_ctx \<Rightarrow> nat \<Rightarrow> 'o \<Rightarrow> ('o \<times> bool) act"
  hd_ref :: "'o \<Rightarrow> 'o"
  hd_unref :: "'o \<Rightarrow> 'o"
  hd_stop :: "'o \<Rightarrow> 'o act"

text \<open>Handlers of all types are values of \<open>'o\<close>; which type an object has, \<open>types\<close> tells by its address.  The
  functions of a table cast the address to the type the table was made for.\<close>

record 'o ref_vtable =
  start_fn :: "bool \<Rightarrow> usb_ctx \<Rightarrow> nat \<Rightarrow> 'o \<Rightarrow> ('o \<times> bool) act"
  ref_fn :: "'o \<Rightarrow> 'o"
  unref_fn :: "'o \<Rightarrow> 'o"
  stop_fn :: "'o \<Rightarrow> 'o act"

definition make_ref_vtable :: "'o event_handler \<Rightarrow> 'o ref_vtable" where
  "make_ref_vtable ty = \<lparr>start_fn = hd_start ty, ref_fn = hd_ref ty, unref_fn = hd_unref ty, stop_fn = hd_stop ty\<rparr>"

section \<open>The reference\<close>

text \<open>\<open>None\<close> is a null pointer, and a table of null pointers.\<close>

record 'o reference =
  ar_original :: "nat option"
  ar_vtable :: "'o ref_vtable option"

text \<open>A call through the table; the functions are not called without an original, and with one there is a
  table.\<close>

definition through_ref :: "('o ref_vtable \<Rightarrow> nat \<Rightarrow> 'r) \<Rightarrow> 'o reference \<Rightarrow> 'r option" where
  "through_ref f r = (case ar_original r of None \<Rightarrow> None | Some a \<Rightarrow> map_option (\<lambda>vt. f vt a) (ar_vtable r))"

definition ar_ref :: "'o reference \<Rightarrow> (nat \<Rightarrow> 'o) \<Rightarrow> nat \<Rightarrow> 'o" where
  "ar_ref r s = (case through_ref (\<lambda>vt a. s(a := ref_fn vt (s a))) r of None \<Rightarrow> s | Some s \<Rightarrow> s)"

definition ar_unref :: "'o reference \<Rightarrow> (nat \<Rightarrow> 'o) \<Rightarrow> nat \<Rightarrow> 'o" where
  "ar_unref r s = (case through_ref (\<lambda>vt a. s(a := unref_fn vt (s a))) r of None \<Rightarrow> s | Some s \<Rightarrow> s)"

definition ar_start :: "bool \<Rightarrow> usb_ctx \<Rightarrow> nat \<Rightarrow> 'o reference \<Rightarrow> (nat \<Rightarrow> 'o) \<Rightarrow> ((nat \<Rightarrow> 'o) \<times> bool) act" where
  "ar_start spawn ctx stop r s =
     (case through_ref (\<lambda>vt a. map_act (\<lambda>(h, ok). (s(a := h), ok)) (start_fn vt spawn ctx stop (s a))) r of
        None \<Rightarrow> Returned (s, False) | Some x \<Rightarrow> x)"

definition ar_stop :: "'o reference \<Rightarrow> (nat \<Rightarrow> 'o) \<Rightarrow> (nat \<Rightarrow> 'o) act" where
  "ar_stop r s =
     (case through_ref (\<lambda>vt a. map_act (\<lambda>h. s(a := h)) (stop_fn vt (s a))) r of None \<Rightarrow> Returned s | Some x \<Rightarrow> x)"

definition ar_valid :: "'o reference \<Rightarrow> bool" where
  "ar_valid r \<longleftrightarrow> ar_original r \<noteq> None"

definition ar_default :: "'o reference" where
  "ar_default = \<lparr>ar_original = None, ar_vtable = None\<rparr>"

definition ar_from_handler :: "'o event_handler \<Rightarrow> nat \<Rightarrow> (nat \<Rightarrow> 'o) \<Rightarrow> 'o reference \<times> (nat \<Rightarrow> 'o)" where
  "ar_from_handler ty a s =
     (let r = \<lparr>ar_original = Some a, ar_vtable = Some (make_ref_vtable ty)\<rparr> in (r, ar_ref r s))"

definition ar_assign_handler ::
  "'o event_handler \<Rightarrow> 'o reference \<Rightarrow> nat \<Rightarrow> (nat \<Rightarrow> 'o) \<Rightarrow> 'o reference \<times> (nat \<Rightarrow> 'o)" where
  "ar_assign_handler ty this a s =
     (if ar_original this = Some a then (this, s)
      else let this = this\<lparr>ar_original := Some a, ar_vtable := Some (make_ref_vtable ty)\<rparr> in (this, ar_ref this s))"

definition ar_copy :: "'o reference \<Rightarrow> (nat \<Rightarrow> 'o) \<Rightarrow> 'o reference \<times> (nat \<Rightarrow> 'o)" where
  "ar_copy other s = (let r = \<lparr>ar_original = ar_original other, ar_vtable = ar_vtable other\<rparr> in (r, ar_ref r s))"

definition ar_copy_assign :: "bool \<Rightarrow> 'o reference \<Rightarrow> 'o reference \<Rightarrow> (nat \<Rightarrow> 'o) \<Rightarrow> 'o reference \<times> (nat \<Rightarrow> 'o)" where
  "ar_copy_assign same this other s =
     (if same then (this, s)
      else
        let s = (if ar_original this \<noteq> None then ar_unref this s else s);
            this = this\<lparr>ar_original := ar_original other, ar_vtable := ar_vtable other\<rparr>
        in (this, ar_ref this s))"

definition ar_move :: "'o reference \<Rightarrow> 'o reference \<times> 'o reference" where
  "ar_move other = (\<lparr>ar_original = ar_original other, ar_vtable = ar_vtable other\<rparr>, other\<lparr>ar_original := None\<rparr>)"

definition ar_move_assign ::
  "bool \<Rightarrow> 'o reference \<Rightarrow> 'o reference \<Rightarrow> (nat \<Rightarrow> 'o) \<Rightarrow> 'o reference \<times> 'o reference \<times> (nat \<Rightarrow> 'o)" where
  "ar_move_assign same this other s =
     (if same then (this, other, s)
      else
        let s = (if ar_original this \<noteq> None then ar_unref this s else s)
        in (this\<lparr>ar_original := ar_original other, ar_vtable := ar_vtable other\<rparr>, other\<lparr>ar_original := None\<rparr>, s))"

definition ar_dtor :: "'o reference \<Rightarrow> (nat \<Rightarrow> 'o) \<Rightarrow> nat \<Rightarrow> 'o" where
  "ar_dtor r s = ar_unref r s"

section \<open>A program with references\<close>

text \<open>\<open>rw_over\<close>: the originals an assignment from a handler wrote over.\<close>

record 'o ref_world =
  rw_refs :: "nat \<Rightarrow> 'o reference option"
  rw_objs :: "nat \<Rightarrow> 'o"
  rw_over :: "nat list"

definition ref_init :: "(nat \<Rightarrow> 'o) \<Rightarrow> 'o ref_world" where
  "ref_init s = \<lparr>rw_refs = (\<lambda>_. None), rw_objs = s, rw_over = []\<rparr>"

datatype ref_event =
    Ar_Default nat | Ar_From nat nat | Ar_Assign_Handler nat nat | Ar_Copy nat nat | Ar_Copy_Assign nat nat
  | Ar_Move nat nat | Ar_Move_Assign nat nat | Ar_Dtor nat | Ar_Start nat bool usb_ctx nat | Ar_Stop nat

definition originals :: "'o reference \<Rightarrow> nat list" where
  "originals r = (case ar_original r of None \<Rightarrow> [] | Some a \<Rightarrow> [a])"

definition set_ref :: "nat \<Rightarrow> 'o reference option \<times> (nat \<Rightarrow> 'o) \<Rightarrow> 'o ref_world \<Rightarrow> 'o ref_world" where
  "set_ref i x w = w\<lparr>rw_refs := (rw_refs w)(i := fst x), rw_objs := snd x\<rparr>"

fun ref_step :: "(nat \<Rightarrow> 'o event_handler) \<Rightarrow> ref_event \<Rightarrow> 'o ref_world \<Rightarrow> 'o ref_world option" where
  "ref_step types (Ar_Default i) w =
     (if rw_refs w i = None then Some (set_ref i (Some ar_default, rw_objs w) w) else None)"
| "ref_step types (Ar_From i a) w =
     (if rw_refs w i = None
      then Some (set_ref i (apfst Some (ar_from_handler (types a) a (rw_objs w))) w) else None)"
| "ref_step types (Ar_Assign_Handler i a) w =
     (case rw_refs w i of
        None \<Rightarrow> None
      | Some this \<Rightarrow>
          Some ((set_ref i (apfst Some (ar_assign_handler (types a) this a (rw_objs w))) w)
            \<lparr>rw_over := rw_over w @ (if ar_original this = Some a then [] else originals this)\<rparr>))"
| "ref_step types (Ar_Copy i j) w =
     (case (rw_refs w i, rw_refs w j) of
        (None, Some other) \<Rightarrow> Some (set_ref i (apfst Some (ar_copy other (rw_objs w))) w)
      | _ \<Rightarrow> None)"
| "ref_step types (Ar_Copy_Assign i j) w =
     (case (rw_refs w i, rw_refs w j) of
        (Some this, Some other) \<Rightarrow> Some (set_ref i (apfst Some (ar_copy_assign (i = j) this other (rw_objs w))) w)
      | _ \<Rightarrow> None)"
| "ref_step types (Ar_Move i j) w =
     (case (rw_refs w i, rw_refs w j) of
        (None, Some other) \<Rightarrow>
          (case ar_move other of (r, q) \<Rightarrow> Some (set_ref i (Some r, rw_objs w) (set_ref j (Some q, rw_objs w) w)))
      | _ \<Rightarrow> None)"
| "ref_step types (Ar_Move_Assign i j) w =
     (case (rw_refs w i, rw_refs w j) of
        (Some this, Some other) \<Rightarrow>
          (case ar_move_assign (i = j) this other (rw_objs w) of
             (r, q, s) \<Rightarrow> Some (set_ref i (Some r, s) (set_ref j (Some q, s) w)))
      | _ \<Rightarrow> None)"
| "ref_step types (Ar_Dtor i) w =
     (case rw_refs w i of None \<Rightarrow> None | Some this \<Rightarrow> Some (set_ref i (None, ar_dtor this (rw_objs w)) w))"
| "ref_step types (Ar_Start i spawn ctx stop) w =
     (case rw_refs w i of
        None \<Rightarrow> None
      | Some this \<Rightarrow>
          (case ar_start spawn ctx stop this (rw_objs w) of Returned (s, ok) \<Rightarrow> Some (w\<lparr>rw_objs := s\<rparr>) | _ \<Rightarrow> None))"
| "ref_step types (Ar_Stop i) w =
     (case rw_refs w i of
        None \<Rightarrow> None
      | Some this \<Rightarrow> (case ar_stop this (rw_objs w) of Returned s \<Rightarrow> Some (w\<lparr>rw_objs := s\<rparr>) | _ \<Rightarrow> None))"

section \<open>The type of the original\<close>

definition ref_typed :: "(nat \<Rightarrow> 'o event_handler) \<Rightarrow> 'o reference \<Rightarrow> bool" where
  "ref_typed types r \<longleftrightarrow> (\<forall>a. ar_original r = Some a \<longrightarrow> ar_vtable r = Some (make_ref_vtable (types a)))"

definition refs_typed :: "(nat \<Rightarrow> 'o event_handler) \<Rightarrow> 'o ref_world \<Rightarrow> bool" where
  "refs_typed types w \<longleftrightarrow> (\<forall>i r. rw_refs w i = Some r \<longrightarrow> ref_typed types r)"

lemmas ar_defs = ar_default_def ar_from_handler_def ar_assign_handler_def ar_copy_def ar_copy_assign_def ar_move_def
  ar_move_assign_def ar_dtor_def set_ref_def Let_def

lemma refs_typed_step: "refs_typed types w \<Longrightarrow> ref_step types e w = Some v \<Longrightarrow> refs_typed types v"
  by (cases e) (auto simp: refs_typed_def ref_typed_def ar_defs split: option.splits if_splits act.splits)

interpretation typed_refs: machine "ref_step types" "refs_typed types"
  by unfold_locales (rule refs_typed_step)

lemma refs_typed_run:
  "run (ref_step types) es (ref_init s) = Some w \<Longrightarrow> rw_refs w i = Some r \<Longrightarrow> ref_typed types r"
  using typed_refs.run_inv [of types es "ref_init s" w] by (auto simp: refs_typed_def ref_init_def)

text \<open>A typed reference does what its original does.\<close>

lemma typed_calls:
  assumes "ref_typed types r"
  shows "ar_ref r s = (case ar_original r of None \<Rightarrow> s | Some a \<Rightarrow> s(a := hd_ref (types a) (s a)))"
    "ar_unref r s = (case ar_original r of None \<Rightarrow> s | Some a \<Rightarrow> s(a := hd_unref (types a) (s a)))"
    "ar_start spawn ctx stop r s = (case ar_original r of None \<Rightarrow> Returned (s, False)
       | Some a \<Rightarrow> map_act (\<lambda>(h, ok). (s(a := h), ok)) (hd_start (types a) spawn ctx stop (s a)))"
    "ar_stop r s = (case ar_original r of None \<Rightarrow> Returned s | Some a \<Rightarrow> map_act (\<lambda>h. s(a := h)) (hd_stop (types a) (s a)))"
  using assms by (auto simp: ref_typed_def through_ref_def make_ref_vtable_def ar_ref_def ar_unref_def ar_start_def
      ar_stop_def split: option.splits)

section \<open>Handlers that count\<close>

text \<open>A program with references to handlers of any types that count, or do not, stands for one with references
  to \<open>any_event_handler\<close>s of the same counts, started by others.\<close>

definition er_of :: "'o reference \<Rightarrow> event_handler_ref" where
  "er_of r = \<lparr>er_original = ar_original r\<rparr>"

definition slot_of :: "size_t option \<Rightarrow> any_event_handler" where
  "slot_of c = \<lparr>ah_vtable = Refcounted_Type, ah_memres = 0,
     ah_storage = map_option (\<lambda>c. (0, Refcounted \<lparr>rh_counter = c, rh_thread = No_Thread\<rparr>)) c\<rparr>"

definition counted_world :: "('o \<Rightarrow> size_t option) \<Rightarrow> 'o ref_world \<Rightarrow> eh_world" where
  "counted_world cnt w = \<lparr>eh_refs = (\<lambda>i. map_option er_of (rw_refs w i)), eh_slots = (\<lambda>a. slot_of (cnt (rw_objs w a))),
     eh_stops = {}, eh_over = rw_over w, eh_dead = False\<rparr>"

lemma slot_of_simps [simp]:
  "any_ref (slot_of c) = slot_of (map_option (\<lambda>c. c + 1) c)" "any_unref (slot_of c) = slot_of (map_option (\<lambda>c. c - 1) c)"
  "slot_counter (slot_of c) = c"
  by (cases c; simp add: slot_of_def any_ref_def any_unref_def refcounted_ref_def refcounted_unref_def slot_counter_def)+

lemma er_of_update: "(\<lambda>k. map_option er_of ((m(i := v)) k)) = (\<lambda>k. map_option er_of (m k))(i := map_option er_of v)"
  by auto

lemma er_of_simps [simp]:
  "er_original (er_of r) = ar_original r" "orig_list (er_of r) = originals r"
  by (simp_all add: er_of_def orig_list_def originals_def)

fun erased :: "ref_event \<Rightarrow> eh_event option" where
  "erased (Ar_Default i) = Some (EH_Default i)"
| "erased (Ar_From i a) = Some (EH_From i a)"
| "erased (Ar_Assign_Handler i a) = Some (EH_Assign_Handler i a)"
| "erased (Ar_Copy i j) = Some (EH_Copy i j)"
| "erased (Ar_Copy_Assign i j) = Some (EH_Copy_Assign i j)"
| "erased (Ar_Move i j) = Some (EH_Move i j)"
| "erased (Ar_Move_Assign i j) = Some (EH_Move_Assign i j)"
| "erased (Ar_Dtor i) = Some (EH_Destroy i)"
| "erased (Ar_Start i spawn ctx stop) = None"
| "erased (Ar_Stop i) = None"

locale counting_handlers =
  fixes types :: "nat \<Rightarrow> 'o event_handler" and cnt :: "'o \<Rightarrow> size_t option"
  assumes cnt_ref: "cnt (hd_ref (types a) h) = map_option (\<lambda>c. c + 1) (cnt h)"
    and cnt_unref: "cnt (hd_unref (types a) h) = map_option (\<lambda>c. c - 1) (cnt h)"
    and cnt_start: "hd_start (types a) spawn ctx stop h = Returned (h', ok) \<Longrightarrow> cnt h' = cnt h"
    and cnt_stop: "hd_stop (types a) h = Returned h' \<Longrightarrow> cnt h' = cnt h"
begin

lemma cnt_calls:
  assumes "ref_typed types r"
  shows "(\<lambda>a. slot_of (cnt (ar_ref r s a))) = er_ref (er_of r) (\<lambda>a. slot_of (cnt (s a)))"
    "(\<lambda>a. slot_of (cnt (ar_unref r s a))) = er_unref (er_of r) (\<lambda>a. slot_of (cnt (s a)))"
    "ar_start spawn ctx stop r s = Returned (s', ok) \<Longrightarrow> (\<lambda>a. slot_of (cnt (s' a))) = (\<lambda>a. slot_of (cnt (s a)))"
    "ar_stop r s = Returned s' \<Longrightarrow> (\<lambda>a. slot_of (cnt (s' a))) = (\<lambda>a. slot_of (cnt (s a)))"
  unfolding typed_calls [OF assms]
  by (auto simp: er_ref_def er_unref_def er_of_def cnt_ref cnt_unref map_act_Returned fun_eq_iff
      dest: cnt_start cnt_stop split: option.splits)

lemma erased_step:
  assumes ok: "refs_typed types w" and st: "ref_step types e w = Some v"
  shows "case erased e of None \<Rightarrow> counted_world cnt v = counted_world cnt w
    | Some d \<Rightarrow> eh_step d (counted_world cnt w) = Some (counted_world cnt v)"
proof -
  have typed: "ref_typed types r" if "rw_refs w i = Some r" for i r using that ok by (simp add: refs_typed_def)
  have fresh: "ref_typed types \<lparr>ar_original = Some a, ar_vtable = Some (make_ref_vtable (types a))\<rparr>"
    "ref_typed types (r\<lparr>ar_original := Some a, ar_vtable := Some (make_ref_vtable (types a))\<rparr>)"
    "ref_typed types q \<Longrightarrow> ref_typed types \<lparr>ar_original = ar_original q, ar_vtable = ar_vtable q\<rparr>"
    "ref_typed types q \<Longrightarrow> ref_typed types (r\<lparr>ar_original := ar_original q, ar_vtable := ar_vtable q\<rparr>)" for a r q
    by (simp_all add: ref_typed_def)
  note calls = cnt_calls [OF typed] cnt_calls [OF fresh(1)] cnt_calls [OF fresh(2)]
    cnt_calls [OF fresh(3) [OF typed]] cnt_calls [OF fresh(4) [OF typed]]
  show ?thesis using st
    by (cases e) (auto simp: eh_step_def counted_world_def ar_defs er_defs calls er_of_update er_of_def
        orig_list_def originals_def
        split: option.splits if_splits act.splits)
qed

end
sublocale counting_handlers \<subseteq> simulation "ref_step types" "refs_typed types" eh_step "counted_world cnt"
proof unfold_locales
  fix w e v assume ok: "refs_typed types w" and st: "ref_step types e w = Some v"
  show "reach eh_step (counted_world cnt w) (counted_world cnt v)"
    using erased_step [OF ok st] by (cases "erased e") (auto intro: reach.intros)
qed

text \<open>So the counts are those of \<open>Handler_Refs\<close>.\<close>

context counting_handlers begin

lemma counts:
  assumes "run (ref_step types) es (ref_init s) = Some w" "\<And>a. cnt (s a) = None \<or> cnt (s a) = Some 0"
    and "cnt (rw_objs w a) = Some c"
  shows "c = of_nat (count (held originals (rw_refs w)) a + count (mset (rw_over w)) a)"
proof -
  obtain ds where ds: "run eh_step ds (counted_world cnt (ref_init s)) = Some (counted_world cnt w)"
    using run_sim [OF assms(1)] by (auto simp: refs_typed_def ref_init_def)
  have init: "counted_world cnt (ref_init s) = eh_init (\<lambda>a. slot_of (cnt (s a)))"
    by (simp add: counted_world_def ref_init_def eh_init_def)
  have "fresh_slots (\<lambda>a. slot_of (cnt (s a)))" using assms(2) by (simp add: fresh_slots_def)
  note inv = handler_refs.run_inv [OF ds [unfolded init] counters_init [OF this]]
  have "held orig_list (\<lambda>i. map_option er_of (rw_refs w i)) = held originals (rw_refs w)"
    unfolding held_def by (rule sum.cong) (auto simp: held_by_def split: option.splits)
  then show ?thesis using inv assms(3) by (simp add: counters_ok_def eh_count_def counted_world_def)
qed

end

section \<open>The handlers of the library\<close>

text \<open>The types of \<open>handlers.hpp\<close> and \<open>any_event_handler.hpp\<close> as instances of the concept.\<close>

definition trivial_type :: "trivial_event_handler event_handler" where
  "trivial_type = \<lparr>hd_start = trivial_start, hd_ref = trivial_ref, hd_unref = trivial_unref, hd_stop = trivial_stop\<rparr>"

definition refcounted_type :: "refcounted_event_handler event_handler" where
  "refcounted_type =
     \<lparr>hd_start = refcounted_start, hd_ref = refcounted_ref, hd_unref = refcounted_unref, hd_stop = refcounted_stop\<rparr>"

definition any_type :: "any_event_handler event_handler" where
  "any_type = \<lparr>hd_start = any_start, hd_ref = any_ref, hd_unref = any_unref, hd_stop = any_stop\<rparr>"

interpretation refcounted_refs: counting_handlers "\<lambda>_. refcounted_type" "\<lambda>h. Some (rh_counter h)"
  by unfold_locales (auto simp: refcounted_type_def refcounted_ref_def refcounted_unref_def refcounted_start_def
      refcounted_stop_def join_thread_def split: if_splits thread.splits)

interpretation any_refs: counting_handlers "\<lambda>_. any_type" slot_counter
  by unfold_locales (simp_all add: any_type_def slot_counter_other)

lemma any_type_simps [simp]:
  "hd_start any_type = any_start" "hd_ref any_type = any_ref" "hd_unref any_type = any_unref" "hd_stop any_type = any_stop"
  by (simp_all add: any_type_def)

text \<open>References to \<open>any_event_handler\<close>s are the ones of \<open>Event_Handler\<close>.\<close>

theorem library_references:
  assumes "ref_typed (\<lambda>_. any_type) this" "ref_typed (\<lambda>_. any_type) other"
  shows "er_of ar_default = er_default \<and> ar_valid this = er_valid (er_of this)
    \<and> map_prod er_of id (ar_from_handler any_type a s) = er_from_handler a s
    \<and> map_prod er_of id (ar_assign_handler any_type this a s) = er_assign_handler (er_of this) a s
    \<and> map_prod er_of id (ar_copy other s) = er_copy (er_of other) s
    \<and> map_prod er_of id (ar_copy_assign same this other s) = er_copy_assign same (er_of this) (er_of other) s
    \<and> map_prod er_of er_of (ar_move other) = er_move (er_of other)
    \<and> map_prod er_of (map_prod er_of id) (ar_move_assign same this other s) = er_move_assign same (er_of this) (er_of other) s
    \<and> ar_dtor this s = er_dtor (er_of this) s
    \<and> ar_start spawn ctx stop this s = er_start spawn ctx stop (er_of this) s \<and> ar_stop this s = er_stop (er_of this) s"
proof -
  have fresh: "ref_typed (\<lambda>_. any_type) \<lparr>ar_original = Some a, ar_vtable = Some (make_ref_vtable any_type)\<rparr>"
    "ref_typed (\<lambda>_. any_type) (this\<lparr>ar_original := Some a, ar_vtable := Some (make_ref_vtable any_type)\<rparr>)"
    "ref_typed (\<lambda>_. any_type) \<lparr>ar_original = ar_original other, ar_vtable = ar_vtable other\<rparr>"
    "ref_typed (\<lambda>_. any_type) (this\<lparr>ar_original := ar_original other, ar_vtable := ar_vtable other\<rparr>)"
    using assms(2) by (simp_all add: ref_typed_def)
  show ?thesis
    by (auto simp: ar_defs er_defs ar_valid_def er_valid_def er_of_def typed_calls [OF assms(1)] typed_calls [OF assms(2)]
        typed_calls [OF fresh(1)] typed_calls [OF fresh(2)] typed_calls [OF fresh(3)] typed_calls [OF fresh(4)]
        er_ref_def er_unref_def er_start_def er_stop_def split: option.splits)
qed

definition ex_any_ref :: "any_event_handler reference" where
  "ex_any_ref = \<lparr>ar_original = Some 7, ar_vtable = Some (make_ref_vtable any_type)\<rparr>"

theorem library_references_witness:
  "ar_dtor ex_any_ref (\<lambda>_. any_default) = er_dtor (er_of ex_any_ref) (\<lambda>_. any_default)"
proof -
  have "ref_typed (\<lambda>_. any_type) ex_any_ref" by (simp add: ex_any_ref_def ref_typed_def)
  from library_references [OF this this] show ?thesis by blast
qed

text \<open>So is the counter of a \<open>refcounted_event_handler\<close> that the user keeps and that is referred to directly:
  it is the number of references to it and of those written over.\<close>

theorem direct_references_counted:
  assumes "run (ref_step (\<lambda>_. refcounted_type)) es (ref_init s) = Some w" "\<And>a. rh_counter (s a) = 0"
  shows "rh_counter (rw_objs w a) = of_nat (count (held originals (rw_refs w)) a + count (mset (rw_over w)) a)"
  using refcounted_refs.counts [OF assms(1)] assms(2) by simp

definition ex_direct :: "ref_event list" where
  "ex_direct = [Ar_From 0 7, Ar_Copy 1 0, Ar_From 2 8, Ar_Assign_Handler 2 7, Ar_Move 3 1, Ar_Dtor 0]"

lemma ex_direct_run:
  "\<exists>w. run (ref_step (\<lambda>_. refcounted_type)) ex_direct (ref_init (\<lambda>_. \<lparr>rh_counter = 0, rh_thread = No_Thread\<rparr>)) = Some w
     \<and> (rh_counter (rw_objs w 7) = 2 \<and> rh_counter (rw_objs w 8) = 1 \<and> rw_over w = [8]
        \<and> map_option ar_original (rw_refs w 3) = Some (Some 7))"
  unfolding ex_direct_def by (rule run_satD) code_simp

theorem direct_references_counted_witness:
  "\<exists>w. run (ref_step (\<lambda>_. refcounted_type)) ex_direct (ref_init (\<lambda>_. \<lparr>rh_counter = 0, rh_thread = No_Thread\<rparr>)) = Some w
     \<and> (1 :: size_t) = of_nat (count (held originals (rw_refs w)) 8 + 1)"
proof -
  obtain w where w: "run (ref_step (\<lambda>_. refcounted_type)) ex_direct (ref_init (\<lambda>_. \<lparr>rh_counter = 0, rh_thread = No_Thread\<rparr>)) = Some w"
    "rh_counter (rw_objs w 8) = 1" "rw_over w = [8]" using ex_direct_run by blast
  from direct_references_counted [OF w(1), of 8] show ?thesis using w by simp
qed

section \<open>Property\<close>

text \<open>C20: whatever references to handlers of whatever types a program makes, copies, moves and assigns, a call
  through a reference is the function of the type of the handler it refers to, on that handler and
  on no other; through one that refers to nothing it does nothing, and \<open>start\<close> answers false.\<close>

theorem references_call_their_type:
  assumes "run (ref_step types) es (ref_init s) = Some w" "rw_refs w i = Some r"
  shows "case ar_original r of
      None \<Rightarrow> ar_ref r t = t \<and> ar_unref r t = t \<and> ar_start spawn ctx stop r t = Returned (t, False) \<and> ar_stop r t = Returned t
    | Some a \<Rightarrow> ar_ref r t = t(a := hd_ref (types a) (t a)) \<and> ar_unref r t = t(a := hd_unref (types a) (t a))
        \<and> ar_start spawn ctx stop r t = map_act (\<lambda>(h, ok). (t(a := h), ok)) (hd_start (types a) spawn ctx stop (t a))
        \<and> ar_stop r t = map_act (\<lambda>h. t(a := h)) (hd_stop (types a) (t a))"
  using typed_calls [OF refs_typed_run [OF assms]] by (simp split: option.splits)

text \<open>Two types in one program: one counts by one, the other by two.\<close>

definition ex_types :: "nat \<Rightarrow> nat event_handler" where
  "ex_types a = \<lparr>hd_start = (\<lambda>_ _ _ h. Returned (h, True)), hd_ref = (\<lambda>h. h + (if a = 7 then 1 else 2)),
     hd_unref = (\<lambda>h. h - (if a = 7 then 1 else 2)), hd_stop = Returned\<rparr>"

lemma ex_types_run:
  "\<exists>w. run (ref_step ex_types) [Ar_From 0 7, Ar_From 1 8, Ar_Copy_Assign 0 1] (ref_init (\<lambda>_. 0)) = Some w
     \<and> (map_option ar_original (rw_refs w 0) = Some (Some 8))"
  by (rule run_satD) code_simp

theorem references_call_their_type_witness:
  "\<exists>w r. run (ref_step ex_types) [Ar_From 0 7, Ar_From 1 8, Ar_Copy_Assign 0 1] (ref_init (\<lambda>_. 0)) = Some w
     \<and> rw_refs w 0 = Some r \<and> ar_unref r (\<lambda>_. 6) 8 = 4 \<and> ar_unref r (\<lambda>_. 6) 7 = 6"
proof -
  obtain w r where w: "run (ref_step ex_types) [Ar_From 0 7, Ar_From 1 8, Ar_Copy_Assign 0 1] (ref_init (\<lambda>_. 0)) = Some w"
    "rw_refs w 0 = Some r" "ar_original r = Some 8" using ex_types_run by auto
  from references_call_their_type [OF w(1,2), of "\<lambda>_. 6"] w show ?thesis by (auto simp: ex_types_def)
qed

end
