(* ===== verification/Mock_Device.thy ===== *)
theory Mock_Device
  imports Prelude
begin

text \<open>
  The mock USB device the tests run against (\<open>src/qemu/9.2.4/mock.c\<close>, a device of QEMU): its
  descriptors and the handlers of its class.  QEMU's functions are parameters.  A \<open>None\<close> is an
  access outside of a buffer.
\<close>

section \<open>State\<close>

type_synonym byte = "8 word"

datatype usb_token = USB_TOKEN_OUT | USB_TOKEN_IN | USB_TOKEN_SETUP

text \<open>The fields of a \<open>USBDevice\<close> that are written; \<open>md_intr\<close>: the endpoint stored by \<open>realize\<close>.\<close>

record mock_state =
  md_auto_attach :: bool
  md_attached :: bool
  md_intr :: "(usb_token \<times> nat) option"
  md_outbuf :: "byte list"

definition outbuf_size :: nat where "outbuf_size = 16 * 256"

datatype usb_ret = USB_RET_SUCCESS | USB_RET_NODEV | USB_RET_NAK | USB_RET_STALL

text \<open>A packet; \<open>up_data\<close> stands for the memory its io vector points to.\<close>

record usb_packet =
  up_pid :: usb_token
  up_ep_nr :: byte
  up_iov_size :: size_t
  up_data :: "byte list"
  up_status :: usb_ret

section \<open>Descriptors\<close>

datatype desc_string = STR_MANUFACTURER | STR_PRODUCT | STR_SERIALNUMBER | STR_CONFIG_FULL
  | STR_CONFIG_HIGH | STR_CONFIG_SUPER

fun desc_strings :: "desc_string \<Rightarrow> string option" where
  "desc_strings STR_MANUFACTURER = Some ''nikgub''"
| "desc_strings STR_PRODUCT = Some ''Virtual mock device''"
| "desc_strings STR_SERIALNUMBER = Some ''1''"
| "desc_strings STR_CONFIG_SUPER = Some ''Super speed config (usb 3.0)''"
| "desc_strings STR_CONFIG_FULL = None"
| "desc_strings STR_CONFIG_HIGH = None"

text \<open>\<open>USB_DIR_IN\<close>, \<open>USB_DIR_OUT\<close> and \<open>USB_ENDPOINT_XFER_BULK\<close> have the values of the USB standard.\<close>

record desc_endpoint =
  bEndpointAddress :: byte
  bmAttributes :: byte
  wMaxPacketSize :: nat
  bMaxBurst :: nat

record desc_iface =
  bInterfaceNumber :: nat
  bNumEndpoints :: nat
  bInterfaceClass :: nat
  bInterfaceSubClass :: nat
  bInterfaceProtocol :: nat
  iface_eps :: "desc_endpoint list"

definition USB_DIR_OUT :: byte where "USB_DIR_OUT = 0"
definition USB_DIR_IN :: byte where "USB_DIR_IN = 0x80"
definition USB_ENDPOINT_XFER_BULK :: byte where "USB_ENDPOINT_XFER_BULK = 2"

definition desc_iface_super :: desc_iface where
  "desc_iface_super =
     \<lparr>bInterfaceNumber = 0, bNumEndpoints = 2, bInterfaceClass = 0xff, bInterfaceSubClass = 0xff,
      bInterfaceProtocol = 0xff,
      iface_eps =
        [\<lparr>bEndpointAddress = or USB_DIR_IN 0x01, bmAttributes = USB_ENDPOINT_XFER_BULK,
          wMaxPacketSize = 1024, bMaxBurst = 15\<rparr>,
         \<lparr>bEndpointAddress = or USB_DIR_OUT 0x02, bmAttributes = USB_ENDPOINT_XFER_BULK,
          wMaxPacketSize = 1024, bMaxBurst = 15\<rparr>]\<rparr>"

record desc_config =
  bNumInterfaces :: nat
  bConfigurationValue :: nat
  cfg_one :: bool
  cfg_wakeup :: bool
  bMaxPower :: nat
  cfg_ifs :: "desc_iface list"

record desc_device =
  bcdUSB :: nat
  bMaxPacketSize0 :: nat
  bNumConfigurations :: nat
  dev_confs :: "desc_config list"

definition desc_device_super :: desc_device where
  "desc_device_super =
     \<lparr>bcdUSB = 0x0310, bMaxPacketSize0 = 8, bNumConfigurations = 1,
      dev_confs =
        [\<lparr>bNumInterfaces = 1, bConfigurationValue = 1, cfg_one = True, cfg_wakeup = True,
          bMaxPower = 50, cfg_ifs = [desc_iface_super]\<rparr>]\<rparr>"

record usb_desc =
  ud_idVendor :: nat
  ud_idProduct :: nat
  ud_bcdDevice :: nat
  ud_iManufacturer :: desc_string
  ud_iProduct :: desc_string
  ud_iSerialNumber :: desc_string
  ud_super :: desc_device
  ud_str :: "desc_string \<Rightarrow> string option"

definition desc_mock :: usb_desc where
  "desc_mock =
     \<lparr>ud_idVendor = 0x9f9f, ud_idProduct = 0x9f9f, ud_bcdDevice = 0x9f9f, ud_iManufacturer = STR_MANUFACTURER,
      ud_iProduct = STR_PRODUCT, ud_iSerialNumber = STR_SERIALNUMBER, ud_super = desc_device_super,
      ud_str = desc_strings\<rparr>"

section \<open>Handlers\<close>

text \<open>\<open>usb_packet_copy\<close> moves bytes between the packet and a buffer, in the packet's direction.\<close>

type_synonym packet_copy = "usb_packet \<Rightarrow> byte list \<Rightarrow> size_t \<Rightarrow> usb_packet \<times> byte list"

definition within :: "byte list \<Rightarrow> size_t \<Rightarrow> 'a \<Rightarrow> 'a option" where
  "within buf n x = (if unat n \<le> length buf then Some x else None)"

definition handler_reset :: "mock_state \<Rightarrow> mock_state" where
  "handler_reset dev = dev"

definition token_buf_size :: nat where "token_buf_size = 256 * 1024"

text \<open>\<open>usb_mock_token_in\<close>; \<open>buf\<close> is the static buffer.  The comparison with \<open>sizeof\<close> is of unsigned
  numbers.\<close>

definition token_in :: "packet_copy \<Rightarrow> byte list \<Rightarrow> usb_packet \<Rightarrow> (byte list \<times> usb_packet) option" where
  "token_in usb_packet_copy buf p =
     (let packet_len = (ucast (up_iov_size p) :: c_int) in
      if sint packet_len \<le> 0 \<or> (scast packet_len :: size_t) > of_nat token_buf_size
      then Some (buf, p\<lparr>up_status := USB_RET_NAK\<rparr>)
      else
        let n = (scast packet_len :: size_t) in
        Option.bind (within buf n (replicate (unat n) 0xFF @ drop (unat n) buf))
          (\<lambda>buf. map_option (\<lambda>(p, buf). (buf, p\<lparr>up_status := USB_RET_SUCCESS\<rparr>))
             (within buf n (usb_packet_copy p buf n))))"

text \<open>\<open>printf("%.*s")\<close>: the bytes up to the first null, at most as many as the precision; a negative
  precision counts as none, and then the buffer is read up to a null.\<close>

definition printed :: "c_int \<Rightarrow> byte list \<Rightarrow> byte list" where
  "printed prec buf = takeWhile (\<lambda>b. b \<noteq> 0) (if sint prec < 0 then buf else take (nat (sint prec)) buf)"

text \<open>\<open>usb_mock_handle_data\<close>; the last component are the bytes of the packet that are printed, without the
  fixed texts around them.\<close>

definition handle_data ::
  "packet_copy \<Rightarrow> mock_state \<Rightarrow> byte list \<Rightarrow> usb_packet
     \<Rightarrow> (mock_state \<times> byte list \<times> usb_packet \<times> byte list) option" where
  "handle_data usb_packet_copy s buf p =
     (let devep = up_ep_nr p; fail = Some (s, buf, p\<lparr>up_status := USB_RET_STALL\<rparr>, []) in
      case up_pid p of
        USB_TOKEN_OUT \<Rightarrow>
          if devep \<noteq> 2 then fail
          else if up_iov_size p \<ge> of_nat outbuf_size
          then Some (s, buf, p\<lparr>up_status := USB_RET_NAK\<rparr>, [])
          else map_option (\<lambda>(p', out). (s\<lparr>md_outbuf := out\<rparr>, buf, p'\<lparr>up_status := USB_RET_SUCCESS\<rparr>,
                 printed (ucast (up_iov_size p)) out))
                 (within (md_outbuf s) (up_iov_size p) (usb_packet_copy p (md_outbuf s) (up_iov_size p)))
      | USB_TOKEN_IN \<Rightarrow>
          if devep \<noteq> 1 then fail
          else map_option (\<lambda>(buf, p). (s, buf, p, [])) (token_in usb_packet_copy buf p)
      | _ \<Rightarrow> fail)"

text \<open>\<open>usb_mock_realize\<close>: \<open>usb_check_attach\<close> gives its error, if any, and attaches otherwise (or not);
  \<open>Inl\<close> is the propagated error.\<close>

definition realize ::
  "(mock_state \<Rightarrow> mock_state) \<Rightarrow> (mock_state \<Rightarrow> mock_state) \<Rightarrow> (mock_state \<Rightarrow> 'err + mock_state)
     \<Rightarrow> (mock_state \<Rightarrow> mock_state) \<Rightarrow> mock_state \<Rightarrow> 'err + mock_state" where
  "realize usb_desc_create_serial usb_desc_init usb_check_attach usb_device_attach dev =
     (let dev = (usb_desc_init (usb_desc_create_serial dev))\<lparr>md_auto_attach := False\<rparr> in
      case usb_check_attach dev of
        Inl err \<Rightarrow> Inl err
      | Inr dev \<Rightarrow>
          let dev = handler_reset dev;
              dev = (if md_attached dev then dev else usb_device_attach dev)
          in Inr (dev\<lparr>md_intr := Some (USB_TOKEN_IN, 1)\<rparr>))"

text \<open>\<open>usb_mock_handle_control\<close>: \<open>usb_desc_handle_control\<close> answers the standard requests; its result says
  whether it knew the request, and nothing is done if it did not.\<close>

definition handle_control ::
  "(mock_state \<Rightarrow> usb_packet \<Rightarrow> int \<times> mock_state \<times> usb_packet) \<Rightarrow> mock_state \<Rightarrow> usb_packet \<Rightarrow> mock_state \<times> usb_packet" where
  "handle_control usb_desc_handle_control dev p =
     (case usb_desc_handle_control dev p of (ret, dev, p) \<Rightarrow>
        if ret \<ge> 0 then (dev, p) else (dev, p))"

text \<open>So a request nobody knows keeps the status the packet came with, which is success, and is not
  stalled.\<close>

lemma unknown_control_request_not_stalled:
  assumes "usb_desc_handle_control dev p = (-1, dev, p)" "up_status p = USB_RET_SUCCESS"
  shows "up_status (snd (handle_control usb_desc_handle_control dev p)) = USB_RET_SUCCESS"
  using assms by (simp add: handle_control_def)

section \<open>The class and its registration\<close>

text \<open>The functions of QEMU the device calls.\<close>

record 'err qemu =
  q_packet_copy :: packet_copy
  q_desc_create_serial :: "mock_state \<Rightarrow> mock_state"
  q_desc_init :: "mock_state \<Rightarrow> mock_state"
  q_check_attach :: "mock_state \<Rightarrow> 'err + mock_state"
  q_device_attach :: "mock_state \<Rightarrow> mock_state"
  q_desc_attach :: "mock_state \<Rightarrow> mock_state"
  q_desc_handle_control :: "mock_state \<Rightarrow> usb_packet \<Rightarrow> int \<times> mock_state \<times> usb_packet"

text \<open>The members of \<open>USBDeviceClass\<close> that are set, and the categories of \<open>DeviceClass\<close>.\<close>

datatype device_category = DEVICE_CATEGORY_INPUT | Another_Category nat

record 'err usb_class =
  uc_usb_desc :: usb_desc
  uc_product_desc :: string
  uc_realize :: "mock_state \<Rightarrow> 'err + mock_state"
  uc_handle_attach :: "mock_state \<Rightarrow> mock_state"
  uc_handle_control :: "mock_state \<Rightarrow> usb_packet \<Rightarrow> mock_state \<times> usb_packet"
  uc_handle_data :: "mock_state \<Rightarrow> byte list \<Rightarrow> usb_packet
    \<Rightarrow> (mock_state \<times> byte list \<times> usb_packet \<times> byte list) option"
  uc_handle_reset :: "mock_state \<Rightarrow> mock_state"
  dc_categories :: "device_category set"

definition usb_mock_initfn :: "'err qemu \<Rightarrow> 'err usb_class \<Rightarrow> 'err usb_class" where
  "usb_mock_initfn q klass =
     klass\<lparr>uc_usb_desc := desc_mock, uc_product_desc := ''Virtual mock device'',
       uc_realize := realize (q_desc_create_serial q) (q_desc_init q) (q_check_attach q) (q_device_attach q),
       uc_handle_attach := q_desc_attach q, uc_handle_control := handle_control (q_desc_handle_control q),
       uc_handle_data := handle_data (q_packet_copy q), uc_handle_reset := handler_reset,
       dc_categories := insert DEVICE_CATEGORY_INPUT (dc_categories klass)\<rparr>"

text \<open>\<open>TypeInfo\<close>; \<open>sz\<close> is the size of the state, which begins with a \<open>USBDevice\<close> of QEMU's.\<close>

record 'err type_info =
  ti_name :: string
  ti_parent :: string
  ti_instance_size :: nat
  ti_abstract :: bool
  ti_class_init :: "'err usb_class \<Rightarrow> 'err usb_class"

definition usb_mock_type_info :: "nat \<Rightarrow> 'err qemu \<Rightarrow> 'err type_info" where
  "usb_mock_type_info sz q =
     \<lparr>ti_name = ''usb-mock'', ti_parent = ''usb-device'', ti_instance_size = sz, ti_abstract = False,
      ti_class_init = usb_mock_initfn q\<rparr>"

definition usb_mock_init :: "(string \<Rightarrow> 'dev) \<Rightarrow> 'dev" where
  "usb_mock_init usb_new = usb_new ''usb-mock''"

text \<open>Types and devices a user can name are registered in state of QEMU's, by functions of QEMU's.\<close>

definition usb_mock_register_types ::
  "('err type_info \<Rightarrow> 'r \<Rightarrow> 'r) \<Rightarrow> (string \<Rightarrow> string \<Rightarrow> ((string \<Rightarrow> 'dev) \<Rightarrow> 'dev) \<Rightarrow> 'r \<Rightarrow> 'r)
     \<Rightarrow> nat \<Rightarrow> 'err qemu \<Rightarrow> 'r \<Rightarrow> 'r" where
  "usb_mock_register_types type_register_static usb_legacy_register sz q r =
     usb_legacy_register ''usb-mock'' ''mock'' usb_mock_init (type_register_static (usb_mock_type_info sz q) r)"

text \<open>So if a registered type is found by its name and a registered device by its alias, what a user makes
  as \<open>mock\<close> is served by the handlers above.\<close>

lemma legacy_mock_is_served:
  assumes "\<And>ti r. type_of_name (type_register_static ti r) (ti_name ti) = Some ti"
    and "\<And>n a f r. device_of_alias (usb_legacy_register n a f r) a = Some f"
    and "\<And>n a f r. type_of_name (usb_legacy_register n a f r) = type_of_name r"
  shows "let r = usb_mock_register_types type_register_static usb_legacy_register sz q r in
    map_option (\<lambda>new. map_option (\<lambda>ti. uc_handle_data (ti_class_init ti parent)) (new (type_of_name r)))
      (device_of_alias r ''mock'') = Some (Some (handle_data (q_packet_copy q)))"
proof -
  have "type_of_name (type_register_static (usb_mock_type_info sz q) r) ''usb-mock'' = Some (usb_mock_type_info sz q)"
    using assms(1) [of "usb_mock_type_info sz q"] by (simp add: usb_mock_type_info_def)
  then show ?thesis
    by (simp add: usb_mock_register_types_def assms(2,3) usb_mock_init_def)
      (simp add: usb_mock_type_info_def usb_mock_initfn_def)
qed

section \<open>Property\<close>

text \<open>What a descriptor of an endpoint accepts: the number and the direction bit of its address.\<close>

definition declares :: "desc_iface \<Rightarrow> usb_token \<Rightarrow> byte \<Rightarrow> bool" where
  "declares ifc t nr \<longleftrightarrow>
     (\<exists>e \<in> set (iface_eps ifc).
        (t = USB_TOKEN_IN \<and> bEndpointAddress e = or USB_DIR_IN nr) \<or>
        (t = USB_TOKEN_OUT \<and> bEndpointAddress e = or USB_DIR_OUT nr))"

lemma small_byte:
  assumes "(nr :: byte) < 16"
  shows "nr \<in> {0, 1, 2, 3, 4, 5, 6, 7, 8, 9, 10, 11, 12, 13, 14, 15}"
proof -
  have small: "n \<in> {0, 1, 2, 3, 4, 5, 6, 7, 8, 9, 10, 11, 12, 13, 14, 15}" if "n < 16" for n :: nat
    using that unfolding insert_iff empty_iff by presburger
  have "unat nr < 16" using assms by (simp add: word_less_nat_alt)
  then have "unat nr \<in> {0, 1, 2, 3, 4, 5, 6, 7, 8, 9, 10, 11, 12, 13, 14, 15 :: nat}"
    by (rule small)
  then have "of_nat (unat nr) \<in> (of_nat ` {0, 1, 2, 3, 4, 5, 6, 7, 8, 9, 10, 11, 12, 13, 14, 15 :: nat} :: byte set)"
    by (rule imageI)
  then show ?thesis by simp
qed

lemma declares_super:
  assumes "nr < 16"
  shows "declares desc_iface_super t nr \<longleftrightarrow> t = USB_TOKEN_IN \<and> nr = 1 \<or> t = USB_TOKEN_OUT \<and> nr = 2"
  using small_byte [OF assms]
  by (auto simp: declares_def desc_iface_super_def USB_DIR_IN_def USB_DIR_OUT_def)

lemma within_Some: "unat n \<le> length buf \<Longrightarrow> within buf n x = Some x"
  by (simp add: within_def)

lemma token_in_result:
  assumes "length buf = token_buf_size"
  shows "\<exists>buf' p'. token_in copy buf p = Some (buf', p')
    \<and> up_status p' = (if 0 < sint (ucast (up_iov_size p) :: c_int)
                        \<and> sint (ucast (up_iov_size p) :: c_int) \<le> 256 * 1024 then USB_RET_SUCCESS else USB_RET_NAK)"
proof -
  let ?len = "ucast (up_iov_size p) :: c_int"
  let ?n = "scast ?len :: size_t"
  show ?thesis
  proof (cases "sint ?len \<le> 0")
    case True
    then show ?thesis by (simp add: token_in_def Let_def)
  next
    case False
    then have n: "unat ?n = nat (sint ?len)" by (intro unat_scast_nonneg) simp
    have big: "?n > of_nat token_buf_size \<longleftrightarrow> 256 * 1024 < sint ?len"
      using False by (simp add: word_less_nat_alt n token_buf_size_def) linarith
    show ?thesis
    proof (cases "256 * 1024 < sint ?len")
      case True
      then show ?thesis using big by (simp add: token_in_def Let_def)
    next
      case fits: False
      then have "unat ?n \<le> length buf" using n False by (simp add: assms token_buf_size_def)
      then have w: "within buf ?n x = Some x"
        "within (replicate (unat ?n) 0xFF @ drop (unat ?n) buf) ?n y = Some y" for x :: "byte list" and y :: "usb_packet \<times> byte list"
        by (simp_all add: within_def)
      obtain p' buf' where c: "copy p (replicate (unat ?n) 0xFF @ drop (unat ?n) buf) ?n = (p', buf')" by fastforce
      have "token_in copy buf p = Some (buf', p'\<lparr>up_status := USB_RET_SUCCESS\<rparr>)"
        unfolding token_in_def Let_def using big fits False by (simp add: w c)
      then show ?thesis using fits False by simp
    qed
  qed
qed

text \<open>C40: for every packet the mock device stays inside its two buffers, and answers with a stall
  exactly on the endpoints its descriptor does not declare; on those it declares it succeeds for
  OUT packets of less than 4096 bytes and for IN packets whose size, as an \<open>int\<close>, is between 1 and
  256 KiB, and asks for a retry otherwise.\<close>

theorem mock_serves_the_endpoints_it_declares:
  assumes "length (md_outbuf s) = outbuf_size" "length buf = token_buf_size" "up_ep_nr p < 16"
  shows "\<exists>s' buf' p' out. handle_data copy s buf p = Some (s', buf', p', out)
    \<and> up_status p' =
        (if \<not> declares desc_iface_super (up_pid p) (up_ep_nr p) then USB_RET_STALL
         else if (if up_pid p = USB_TOKEN_OUT then unat (up_iov_size p) < 4096
                  else 0 < sint (ucast (up_iov_size p) :: c_int) \<and> sint (ucast (up_iov_size p) :: c_int) \<le> 256 * 1024)
         then USB_RET_SUCCESS else USB_RET_NAK)"
proof (cases "up_pid p")
  case USB_TOKEN_OUT
  have size: "up_iov_size p \<ge> of_nat outbuf_size \<longleftrightarrow> \<not> unat (up_iov_size p) < 4096"
    by (simp add: word_le_nat_alt outbuf_size_def not_less)
  obtain p' out where c: "copy p (md_outbuf s) (up_iov_size p) = (p', out)" by fastforce
  show ?thesis
  proof (cases "up_ep_nr p = 2 \<and> unat (up_iov_size p) < 4096")
    case True
    then have "unat (up_iov_size p) \<le> length (md_outbuf s)" by (simp add: assms(1) outbuf_size_def)
    then show ?thesis using True size USB_TOKEN_OUT declares_super [OF assms(3)]
      by (simp add: handle_data_def Let_def within_Some c)
  next
    case False
    then show ?thesis using size USB_TOKEN_OUT declares_super [OF assms(3)]
      by (auto simp: handle_data_def Let_def)
  qed
next
  case USB_TOKEN_IN
  then show ?thesis using token_in_result [OF assms(2), of copy p] declares_super [OF assms(3)]
    by (auto simp: handle_data_def Let_def)
next
  case USB_TOKEN_SETUP
  then show ?thesis using declares_super [OF assms(3)] by (simp add: handle_data_def Let_def)
qed

definition ex_mock :: mock_state where
  "ex_mock = \<lparr>md_auto_attach = False, md_attached = True, md_intr = None, md_outbuf = replicate outbuf_size 0\<rparr>"

definition ex_packet :: usb_packet where
  "ex_packet = \<lparr>up_pid = USB_TOKEN_OUT, up_ep_nr = 2, up_iov_size = 3, up_data = [104, 105, 0], up_status = USB_RET_NAK\<rparr>"

definition ex_copy :: packet_copy where
  "ex_copy p buf n = (p, take (unat n) (up_data p) @ drop (unat n) buf)"

theorem mock_serves_the_endpoints_it_declares_witness:
  "\<exists>s' buf' p' out. handle_data ex_copy ex_mock (replicate token_buf_size 0) ex_packet = Some (s', buf', p', out)
     \<and> up_status p' = USB_RET_SUCCESS"
  using mock_serves_the_endpoints_it_declares [of ex_mock "replicate token_buf_size 0" ex_packet ex_copy]
  by (simp add: ex_mock_def ex_packet_def declares_super)

end
