(* ===== verification/Repository_Tests.thy ===== *)
theory Repository_Tests
  imports IO_Objects
begin

text \<open>
  The repository's own tests of endpoints and transfers (\<open>src/tests/\<close>), run on the model.  What libusb
  does for them, the fill helpers and the allocation of transfers, are parameters again.
\<close>

section \<open>00-endpoint.cpp\<close>

text \<open>\<open>iface\<close> has a \<open>devh\<close>; the handle is never used.  \<open>REQUIRE_NOTHROW\<close> and \<open>REQUIRE_THROWS_AS\<close>: an
  \<open>Inl\<close> is a \<open>std::invalid_argument\<close>.\<close>

definition test_iface :: "devh \<Rightarrow> device_handle_source" where
  "test_iface h = Has_Devh (Raw_Pointer h)"

definition null_devh :: device_handle_source where
  "null_devh = Pointer_Source (Raw_Pointer None)"

fun throws :: "'a + 'b \<Rightarrow> bool" where
  "throws (Inl _) = True"
| "throws (Inr _) = False"

definition test_ep_safe :: "devh \<Rightarrow> bool" where
  "test_ep_safe h \<longleftrightarrow>
     addr (make_safe dir_in 0x81 (test_iface h)) = 0x81
     \<and> addr (make_safe dir_in 0x01 (test_iface h)) = 0x81
     \<and> addr (make_safe dir_in 0x00 (test_iface h)) = 0x80
     \<and> addr (make_safe dir_in 0x80 (test_iface h)) = 0x80
     \<and> addr (make_safe dir_out 0x81 (test_iface h)) = 0x01
     \<and> addr (make_safe dir_out 0x01 (test_iface h)) = 0x01
     \<and> addr (make_safe dir_out 0x00 (test_iface h)) = 0x00
     \<and> addr (make_safe dir_out 0x80 (test_iface h)) = 0x00"

definition test_ep_throwing :: bool where
  "test_ep_throwing \<longleftrightarrow>
     \<not> throws (make_throwing dir_in 0x80 null_devh) \<and> \<not> throws (make_throwing dir_in 0x81 null_devh)
     \<and> throws (make_throwing dir_in 0x00 null_devh) \<and> throws (make_throwing dir_in 0x01 null_devh)
     \<and> \<not> throws (make_throwing dir_out 0x00 null_devh) \<and> \<not> throws (make_throwing dir_out 0x01 null_devh)
     \<and> throws (make_throwing dir_out 0x80 null_devh) \<and> throws (make_throwing dir_out 0x81 null_devh)"

definition test_ep_conversion :: "devh \<Rightarrow> bool" where
  "test_ep_conversion h \<longleftrightarrow>
     as_direction dir_in (ep_any 0x81 (test_iface h)) \<noteq> None
     \<and> as_direction dir_in (ep_any 0x01 (test_iface h)) = None
     \<and> as_direction dir_out (ep_any 0x01 (test_iface h)) \<noteq> None
     \<and> as_direction dir_out (ep_any 0x80 (test_iface h)) = None"

section \<open>01-transfers.cpp\<close>

text \<open>\<open>LIBUSB_ENDPOINT_TRANSFER_TYPE_BULK\<close> and \<open>_INTERRUPT\<close> are 2 and 3.  \<open>None\<close>: a loop of the library ran
  over its range.\<close>

definition all_of :: "u8 \<Rightarrow> u8 \<Rightarrow> tid list \<Rightarrow> tfer_store \<Rightarrow> bool" where
  "all_of ep ty ts m \<longleftrightarrow> list_all (\<lambda>t. t_endpoint (m t) = ep \<and> t_type (m t) = ty) ts"

definition test_prefill_one :: "fill_fn \<Rightarrow> tid \<Rightarrow> tfer_store \<Rightarrow> bool option" where
  "test_prefill_one fill_bulk tfer m =
     map_option (all_of 0x01 2 [tfer])
       (prefill_bulk fill_bulk (Resource tfer) (make_unsafe dir_out 0x01 null_devh) 0 m)"

definition test_prefill_many :: "fill_fn \<Rightarrow> fill_fn \<Rightarrow> tid list \<Rightarrow> tfer_store \<Rightarrow> bool option" where
  "test_prefill_many fill_bulk fill_interrupt ts m =
     (case prefill_bulk fill_bulk (Resources ts) (make_unsafe dir_out 0x01 null_devh) 0 m of
        None \<Rightarrow> None
      | Some m \<Rightarrow>
          if \<not> all_of 0x01 2 ts m then Some False
          else map_option (all_of 0x02 3 ts)
                 (prefill_interrupt fill_interrupt (Resources ts) (make_unsafe dir_out 0x02 null_devh) 0 m))"

text \<open>The concepts the tests of the objects ask for: an operation is offered if its constraint on the
  direction holds.  \<open>read_some\<close> and \<open>write_some\<close> take one buffer or a range of them; both are lists here.\<close>

definition offers_read_some :: "buffer list \<Rightarrow> direction_partial_io \<Rightarrow> bool" where
  "offers_read_some bufs io \<longleftrightarrow> partial_read_some io False 0 bufs (\<lambda>_. null_transfer) \<noteq> None"

definition offers_write_some :: "buffer list \<Rightarrow> direction_partial_io \<Rightarrow> bool" where
  "offers_write_some bufs io \<longleftrightarrow> partial_write_some io False 0 bufs (\<lambda>_. null_transfer) \<noteq> None"

definition test_transfer_sfinae :: "direction_partial_io \<Rightarrow> direction_partial_io \<Rightarrow> bool" where
  "test_transfer_sfinae bulk_in bulk_out \<longleftrightarrow>
     offers_read_some [] bulk_in = True \<and> offers_write_some [] bulk_in = False
     \<and> offers_read_some [] bulk_out = False \<and> offers_write_some [] bulk_out = True"

definition test_transfer_buffers :: "buffer \<Rightarrow> buffer list \<Rightarrow> direction_partial_io \<Rightarrow> direction_partial_io \<Rightarrow> bool" where
  "test_transfer_buffers buffer buffers bulk_in bulk_out \<longleftrightarrow>
     offers_read_some [buffer] bulk_in \<and> offers_read_some buffers bulk_in
     \<and> offers_write_some [buffer] bulk_out \<and> offers_write_some buffers bulk_out"

text \<open>The bodies of the two tests of \<open>sequence_view\<close>; the tests hand the lambdas to \<open>REQUIRE\<close> without
  calling them.\<close>

definition test_view_sizes :: "tid \<Rightarrow> tid list \<Rightarrow> bool" where
  "test_view_sizes tfer ts \<longleftrightarrow> view_size (make_view (Resource tfer)) = 1 \<and> view_size (make_view (Resources ts)) = 16"

section \<open>Properties\<close>

text \<open>The tests of the endpoints pass.\<close>

theorem endpoint_tests_pass: "test_ep_safe h \<and> test_ep_throwing \<and> test_ep_conversion h"
  unfolding test_ep_safe_def test_ep_throwing_def test_ep_conversion_def
  by (simp add: endpoint_defs test_iface_def null_devh_def)

text \<open>The tests of the objects pass for any two objects that were made for an IN and an OUT endpoint.\<close>

theorem object_tests_pass:
  assumes "bulk_partial_io fill env sq (ep_in nr src) tmo m s = (s', Returned (Inr (bulk_in, m')))"
    and "bulk_partial_io fill env' sq' (ep_out nr' src') tmo' n t = (t', Returned (Inr (bulk_out, n')))"
  shows "test_transfer_sfinae bulk_in bulk_out \<and> test_transfer_buffers buffer buffers bulk_in bulk_out"
  using assms [unfolded bulk_partial_io_def, THEN partial_object]
  by (simp add: test_transfer_sfinae_def test_transfer_buffers_def offers_read_some_def offers_write_some_def
      partial_read_some_def partial_write_some_def only_for_def endpoint_defs)

text \<open>The tests of the transfers pass, with fill helpers that do what their documentation says and any
  sixteen transfers.\<close>

theorem transfer_tests_pass:
  assumes "fills_as 2 fill_bulk" "fills_as 3 fill_interrupt" "length ts = 16"
  shows "test_prefill_one fill_bulk tfer m = Some True
    \<and> test_prefill_many fill_bulk fill_interrupt ts m = Some True
    \<and> test_view_sizes tfer ts"
proof -
  let ?ep = "make_unsafe dir_out"
  have b: "prefill_bulk fill_bulk (Resources ts) ep tmo n =
      Some (upd_all (\<lambda>t. fill_bulk t (endpoint_devh ep) (addr ep) 0 0 None None (ucast tmo)) ts n)" for ep tmo n
    unfolding prefill_bulk_def by (rule prefill_loop_resources) (use assms(1) in \<open>simp add: fills_as_def\<close>)
  have i: "prefill_interrupt fill_interrupt (Resources ts) ep tmo n =
      Some (upd_all (\<lambda>t. fill_interrupt t (endpoint_devh ep) (addr ep) 0 0 None None (ucast tmo)) ts n)" for ep tmo n
    unfolding prefill_interrupt_def by (rule prefill_loop_resources) (use assms(2) in \<open>simp add: fills_as_def\<close>)
  have one: "prefill_bulk fill_bulk (Resource tfer) ep tmo m =
      Some (m(tfer := fill_bulk (m tfer) (endpoint_devh ep) (addr ep) 0 0 None None (ucast tmo)))" for ep tmo
    unfolding prefill_bulk_def by (rule prefill_loop_resource)
  show ?thesis using assms
    by (simp add: test_prefill_one_def test_prefill_many_def test_view_sizes_def b i one)
      (simp add: all_of_def list_all_iff fills_as_def make_unsafe_def addr_def)
qed

theorem transfer_tests_pass_witness:
  "test_prefill_many (fill_as 2) (fill_as 3) [0..<16] (\<lambda>_. null_transfer) = Some True"
  using transfer_tests_pass [OF fills_as_fill_as fills_as_fill_as, of "[0..<16]"] by simp

end
