(* ===== verification/Spec2Isabelle.thy ===== *)
theory Spec2Isabelle
  imports Echo Polling Device_Stream Throughput Programs Hotplug_Program Typed_Transfers Acceptor_Mailbox
    Acceptor_Shutdown Hotplug_Client Custom_Handler Handler_Reference Hotplug_Objects Flags Mock_Device
    Repository_Tests
begin

text \<open>
  co_usb is a header-only C++ library (\<open>src/include/co_usb/\<close>) that turns libusb's asynchronous
  transfers and hotplug callbacks into operations a coroutine can await.  This development models
  it from its error codes up to the objects its users make.  libusb, the executor, the stop tokens
  and the coroutine machinery are outside: what the library uses of them are arguments of the
  definitions or events of machines.

  \<^bold>\<open>How the program hangs together.\<close>  A user gets a service for its execution context
  (\<open>ev/detail/handler_service.hpp\<close>, or a context by \<open>ev/context.hpp\<close>): it owns the libusb context, an
  event handler whose thread turns libusb's event loop (\<open>ev/handlers.hpp\<close>, wrapped by
  \<open>ev/any_event_handler.hpp\<close>), and a stop source.  Everything that has something in flight holds an
  \<open>event_handler_ref\<close>, which keeps the loop from ending.  Devices are found by triplets and hotplug
  (\<open>wrapper/device_triplet.hpp\<close>, \<open>hotplug/\<close>), opened and claimed through RAII wrappers
  (\<open>wrapper/\<close>), which report their outcome by an error protocol.  An I/O object
  (\<open>transfer/partial_io.hpp\<close>, \<open>transfer/complete_io.hpp\<close>) prefills a sequence of transfers for an
  endpoint; reading or writing awaits an operation that streams a sequence of buffers through them
  (\<open>transfer/detail/\<close>), resubmitting from the completion callback.

  \<^bold>\<open>Theories.\<close>
  \<^item> \<open>Prelude\<close>: machine integers, runs and reachable states of a machine given by a step function
    (\<open>step e s = None\<close>: the event cannot happen), the interfaces \<open>machine\<close> (an invariant),
    \<open>bounded_machine\<close> (a budget that every step uses up), \<open>simulation\<close> (an abstract machine) and
    \<open>event_simulation\<close> (an abstract machine that sees each event as a list of its own).
  \<^item> \<open>Errors\<close>: \<open>usb_error.hpp\<close>, \<open>transfer/status.hpp\<close>; an error code is its value and category.
  \<^item> \<open>Endpoint\<close>: \<open>transfer/endpoint.hpp\<close>, \<open>wrapper/concepts/device_handle_source.hpp\<close>.  The direction,
    a template argument, is a field.
  \<^item> \<open>Transfers\<close>, \<open>Operations\<close>: \<open>transfer/resource.hpp\<close>, \<open>transfer/sequence_view.hpp\<close>,
    \<open>transfer/detail/iterator.hpp\<close>, \<open>transfer/operations.hpp\<close>.  Transfers live in a store, a loop
    over iterators that leaves its array is \<open>None\<close>, a failed assertion is \<open>Inl\<close>.
  \<^item> \<open>Transfer_Stream\<close>: what the two awaitables share, among it the interface \<open>transfer_stream\<close>: a
    machine with a counter of transfers in flight, and when it resumes its coroutine.
  \<^item> \<open>Partial_IO\<close>: \<open>sequence_awaitable.hpp\<close> and \<open>submit\<close>; \<open>Complete_IO\<close>, \<open>Complete_Data\<close>,
    \<open>Complete_Props\<close>, \<open>Complete_Bytes\<close>: \<open>complete_sequence_awaitable.hpp\<close> and \<open>complete_submit\<close>.  Both are machines with
    the events \<open>Submit\<close> (one call of the submission loop, with libusb's answer), \<open>Complete\<close> (libusb
    completes a transfer and calls the callback) and \<open>Stop\<close>.
  \<^item> \<open>Error_Protocol\<close>: \<open>wrapper/error_protocol.hpp\<close>, with the concept as an interface.
  \<^item> \<open>Ownership\<close>: the machine of a program that makes, moves, assigns and destroys objects that own a
    token, and the interface \<open>owner\<close>; interpreted for device handles (\<open>Device\<close>), interfaces and
    detached drivers (\<open>Guards\<close>), and the storage of handlers (\<open>Handler_Refs\<close>).
  \<^item> \<open>Device\<close>: \<open>device_triplet.hpp\<close>, \<open>device_ref.hpp\<close>, \<open>device_handle.hpp\<close>; \<open>Guards\<close>:
    \<open>interface.hpp\<close>, \<open>driver_guard.hpp\<close>.
  \<^item> \<open>Event_Handler\<close>, \<open>Handler_Refs\<close>: \<open>ev/handlers.hpp\<close>, \<open>ev/any_event_handler.hpp\<close>,
    \<open>ev/event_handler_ref.hpp\<close>; an operation that waits for a thread is \<open>Blocked\<close> and tried again.
    \<open>Custom_Handler\<close>: the wrapper over a handler of any type, as a table of functions, with
    constructors and allocations that throw.  \<open>Handler_Reference\<close>: references to handlers of any
    type, with the concept of \<open>ev/concepts/event_handler.hpp\<close>, and the interface
    \<open>counting_handlers\<close>.
  \<^item> \<open>Handler_Service\<close>: \<open>ev/detail/handler_service.hpp\<close>, \<open>ev/context.hpp\<close>.
  \<^item> \<open>IO_Objects\<close>: the classes of \<open>partial_io.hpp\<close> and \<open>complete_io.hpp\<close>, where the service, the
    prefill operations and the awaitables meet; \<open>Typed_Transfers\<close>: where their transfers go.
  \<^item> \<open>Acceptor\<close>, \<open>Acceptor_Props\<close>, \<open>Acceptor_Devices\<close>, \<open>Acceptor_Mailbox\<close>:
    \<open>hotplug/device_acceptor.hpp\<close>; one event is one section under the mutex.  \<open>Oneshot\<close>:
    \<open>hotplug/oneshot_hotplug.hpp\<close> with its awaitable.  \<open>Hotplug_Objects\<close>: both on the service.
    \<open>Acceptor_Shutdown\<close>: \<open>shutdown\<close> section by section, with the other threads in between.
  \<^item> \<open>Flags\<close>: \<open>detail/flag_type.hpp\<close>, \<open>hotplug/flags.hpp\<close>.
  \<^item> \<open>Mock_Device\<close>: the device of QEMU the tests talk to (\<open>src/qemu/9.2.4/mock.c\<close>);
    \<open>Repository_Tests\<close>: the tests in \<open>src/tests/\<close> that run something.
  \<^item> The clients in \<open>src/examples/\<close>, which put the parts together.  \<open>Buffer_Operation\<close>: what they
    share, a memory and what the device puts into it, and the interface \<open>buffer_operation\<close> of an
    operation on one buffer.  \<open>Echo\<close>: \<open>echo\<close> of \<open>00-simple-echo.cpp\<close> over both I/O machines.
    \<open>Polling\<close>: the coroutines of \<open>01-multiple-transfers.cpp\<close> side by side.  \<open>Hotplug_Client\<close>:
    \<open>accept_hotplug\<close> of \<open>02-hotplug-integration.cpp\<close> over the acceptor.  \<open>Device_Session\<close>: its
    \<open>dev_loop\<close>, with the destructors of its locals and a specification of how libusb may be used;
    \<open>Session_Interleaving\<close>: several of them at once (there, as in \<open>Programs\<close>, the loops are given what
    they meet in each turn, and may not have ended); \<open>Device_Stream\<close>: its loop, over sixteen buffers
    and four transfers.  \<open>Throughput\<close>: \<open>dev_loop\<close> of
    \<open>03-complete-io.cpp\<close> with its complete reads.  \<open>Programs\<close>: the \<open>main\<close> functions of examples 00 and
    01, from the context to the destruction of the thread pool; \<open>Hotplug_Program\<close>: that of 03, with the
    service, the acceptor and its client, the device loops, the event loop and the timer as one machine.

  \<^bold>\<open>What is shown.\<close>
  \<^item> Transfers: an operation resumes its coroutine at most once, when libusb holds none of its
    transfers; the windows it submits lie in the caller's buffers; the total it reports is that of
    the completions; on success every buffer was handed over, and every byte moved once if there
    are enough transfers; a transfer keeps device, endpoint and type; runs are bounded; errors are
    final; and the cases in which an operation hangs, stops short or never ends.  What a success
    means is shown for transfers that are not isochronous, and of complete operations also for
    limits from 1 to \<open>2 ^ 31 - 1\<close> only; outside that the code does lose errors and overflow.
  \<^item> Handlers: the counter is the number of references and of those an assignment wrote over; the loop
    ends exactly when stop was requested and it is zero; the service owns one libusb context; I/O and hotplug objects keep the loop
    running; a reference calls the functions of the type it refers to; and what a second \<open>make_context\<close> does.
  \<^item> Hotplug: the acceptor refines, event by event, a mailbox (a queue of those who wait, a store of devices); no
    arrival is lost; devices and references are accounted for; an accept is resumed once unless
    stopped late; \<open>shutdown\<close> cancels those who wait and clears the store; it is safe unless an
    accept is stopped or begins to wait in its loop, or the acceptor listens again before it is over; and
    what \<open>close\<close> leaves behind.
  \<^item> Wrappers: every handle, interface, driver and storage block is disposed of exactly once; the
    references on devices balance up to those an assignment writes over; the protocols agree.
  \<^item> Clients: the echo returns what it read, the polling coroutines print it and end after a stop, the
    device loop has every byte of its buffers filled once per read, and the throughput client counts
    what it reads; every device that arrives goes to one device loop, left or is
    lost with the one accept that was cancelled; device loops, also interleaved, and whole programs
    use libusb as it allows and give everything back when they end, unless a destructor throws; a loop
    that has not ended keeps what it uses, and \<open>main\<close> waits for it in \<open>join\<close> and nowhere else.

  \<^bold>\<open>Numbers.\<close>  \<open>size_t\<close>, \<open>int\<close> and the flags are words of 64, 32 and 32 bits; error values, device ids and
  callback handles are integers; pointers that are only compared are naturals.  There is no fuel:
  loops are structural, or end by a measure, or are events of a machine, whose runs are finite.

  \<^bold>\<open>Not modelled.\<close>  The concept of \<open>any_buffer_sequence.hpp\<close>, which only constrains a template
  argument; \<open>nothrow_get_handler_service\<close>, which looks the service up; memory orders of the atomic
  counter (each operation on it is one step); the timeout of the event loop; allocation failure
  other than that of \<open>resource\<close> and of the storage of handlers; the direction aliases of the I/O
  objects; the \<open>main\<close> function of example 02, which stops the thread pool itself after a time, so that
  its coroutines end where they wait; the signal handler of 01 beyond the stop it requests, and the
  figures 02 and 03 print in floating point; what a program did by then when an exception ends it from within a coroutine; the
  two tests that make a coroutine without running it.
\<close>

end
